(* ===== verification/Monad_Prelude.thy ===== *)
theory Monad_Prelude
  imports Main "HOL-Library.Word" "HOL-Library.AList"
begin

text \<open>
  Shared vocabulary of the development: the machine integer types of the sources, the two ways
  in which the C++ code can fail (\<open>MONAD_ASSERT\<close> aborts the process, \<open>MONAD_ASSERT_THROW\<close> throws a
  \<open>MonadException\<close>), the state-and-failure monad in which the stateful components are written,
  the association lists that stand for the hash maps the code iterates over, and the lemma
  collections the component theories add to.
\<close>

section \<open>Machine types\<close>

type_synonym u8 = "8 word"
type_synonym u16 = "16 word"
type_synonym u32 = "32 word"
type_synonym u64 = "64 word"
type_synonym u256 = "256 word"

text \<open>\<open>Address\<close> and \<open>bytes32_t\<close> are fixed-width byte arrays, read here as big-endian numbers.\<close>

type_synonym address = "160 word"
type_synonym bytes32 = "256 word"
type_synonym bytes = "u8 list"

section \<open>Failure\<close>

text \<open>
  \<open>AssertFail\<close> is the abort of \<open>MONAD_ASSERT\<close> (\<open>category/core/assert.h\<close>), \<open>Thrown\<close> the
  exception of \<open>MONAD_ASSERT_THROW\<close> (\<open>category/core/monad_exception.hpp\<close>) with its message.
  \<open>OutOfFuel\<close> is no behaviour of the program: it marks a run whose nesting of calls exceeded the
  bound given to the model.
\<close>

datatype exn = AssertFail | Thrown string | OutOfFuel

type_synonym 'a res = "exn + 'a"

fun Try :: "'e + 'a \<Rightarrow> ('a \<Rightarrow> 'e + 'b) \<Rightarrow> 'e + 'b" where
  "Try (Inl e) f = Inl e"
| "Try (Inr x) f = f x"

definition MONAD_ASSERT :: "bool \<Rightarrow> 'a res \<Rightarrow> 'a res" where
  "MONAD_ASSERT b k = (if b then k else Inl AssertFail)"

definition MONAD_ASSERT_THROW :: "bool \<Rightarrow> string \<Rightarrow> 'a res \<Rightarrow> 'a res" where
  "MONAD_ASSERT_THROW b msg k = (if b then k else Inl (Thrown msg))"

lemma Try_eq_Inr [simp]: "Try m f = Inr y \<longleftrightarrow> (\<exists>x. m = Inr x \<and> f x = Inr y)"
  by (cases m) auto

lemma Try_eq_Inl: "Try m f = Inl e \<longleftrightarrow> m = Inl e \<or> (\<exists>x. m = Inr x \<and> f x = Inl e)"
  by (cases m) auto

lemma Try_Inr_right [simp]: "Try m Inr = m"
  by (cases m) auto

lemma Try_assoc: "Try (Try m f) g = Try m (\<lambda>x. Try (f x) g)"
  by (cases m) auto

lemma Try_cong [fundef_cong, cong]:
  "m = m' \<Longrightarrow> (\<And>x. m' = Inr x \<Longrightarrow> f x = f' x) \<Longrightarrow> Try m f = Try m' f'"
  by (cases m') auto

lemma MONAD_ASSERT_eq_Inr [simp]: "MONAD_ASSERT b k = Inr y \<longleftrightarrow> b \<and> k = Inr y"
  by (simp add: MONAD_ASSERT_def)

lemma MONAD_ASSERT_True [simp]: "MONAD_ASSERT True k = k"
  by (simp add: MONAD_ASSERT_def)

lemma MONAD_ASSERT_False [simp]: "MONAD_ASSERT False k = Inl AssertFail"
  by (simp add: MONAD_ASSERT_def)

lemma MONAD_ASSERT_THROW_eq_Inr [simp]:
  "MONAD_ASSERT_THROW b msg k = Inr y \<longleftrightarrow> b \<and> k = Inr y"
  by (simp add: MONAD_ASSERT_THROW_def)

lemma MONAD_ASSERT_THROW_True [simp]: "MONAD_ASSERT_THROW True msg k = k"
  by (simp add: MONAD_ASSERT_THROW_def)

lemma MONAD_ASSERT_THROW_False [simp]: "MONAD_ASSERT_THROW False msg k = Inl (Thrown msg)"
  by (simp add: MONAD_ASSERT_THROW_def)

section \<open>The state-and-failure monad\<close>

type_synonym ('s, 'a) sm = "'s \<Rightarrow> ('a \<times> 's) res"

definition returnS :: "'a \<Rightarrow> ('s, 'a) sm" where
  "returnS x = (\<lambda>s. Inr (x, s))"

definition bindS :: "('s, 'a) sm \<Rightarrow> ('a \<Rightarrow> ('s, 'b) sm) \<Rightarrow> ('s, 'b) sm" where
  "bindS m f = (\<lambda>s. Try (m s) (\<lambda>(x, s'). f x s'))"

definition thenS :: "('s, 'a) sm \<Rightarrow> ('s, 'b) sm \<Rightarrow> ('s, 'b) sm" where
  "thenS m k = bindS m (\<lambda>_. k)"

definition getS :: "('s \<Rightarrow> 'a) \<Rightarrow> ('s, 'a) sm" where
  "getS f = (\<lambda>s. Inr (f s, s))"

definition modifyS :: "('s \<Rightarrow> 's) \<Rightarrow> ('s, unit) sm" where
  "modifyS f = (\<lambda>s. Inr ((), f s))"

definition assertS :: "bool \<Rightarrow> ('s, unit) sm" where
  "assertS b = (\<lambda>s. MONAD_ASSERT b (Inr ((), s)))"

definition throwS :: "bool \<Rightarrow> string \<Rightarrow> ('s, unit) sm" where
  "throwS b msg = (\<lambda>s. MONAD_ASSERT_THROW b msg (Inr ((), s)))"

definition liftS :: "'a res \<Rightarrow> ('s, 'a) sm" where
  "liftS m = (\<lambda>s. Try m (\<lambda>x. Inr (x, s)))"

fun forS :: "'a list \<Rightarrow> ('a \<Rightarrow> ('s, unit) sm) \<Rightarrow> ('s, unit) sm" where
  "forS [] f = returnS ()"
| "forS (x # xs) f = thenS (f x) (forS xs f)"

text \<open>The equations that run a monadic definition on a state.\<close>

named_theorems sm_simps

lemma returnS_run [sm_simps]: "returnS x s = Inr (x, s)"
  by (simp add: returnS_def)

lemma bindS_run [sm_simps]: "bindS m f s = Try (m s) (\<lambda>(x, s'). f x s')"
  by (simp add: bindS_def)

lemma thenS_run [sm_simps]: "thenS m k s = Try (m s) (\<lambda>(x, s'). k s')"
  by (simp add: thenS_def bindS_def)

lemma getS_run [sm_simps]: "getS f s = Inr (f s, s)"
  by (simp add: getS_def)

lemma modifyS_run [sm_simps]: "modifyS f s = Inr ((), f s)"
  by (simp add: modifyS_def)

lemma assertS_run [sm_simps]: "assertS b s = MONAD_ASSERT b (Inr ((), s))"
  by (simp add: assertS_def)

lemma throwS_run [sm_simps]: "throwS b msg s = MONAD_ASSERT_THROW b msg (Inr ((), s))"
  by (simp add: throwS_def)

lemma liftS_run [sm_simps]: "liftS m s = Try m (\<lambda>x. Inr (x, s))"
  by (simp add: liftS_def)

lemma bindS_eq_Inr:
  "bindS m f s = Inr (y, t) \<longleftrightarrow> (\<exists>x u. m s = Inr (x, u) \<and> f x u = Inr (y, t))"
  by (auto simp: bindS_def)

lemma thenS_eq_Inr:
  "thenS m k s = Inr (y, t) \<longleftrightarrow> (\<exists>x u. m s = Inr (x, u) \<and> k u = Inr (y, t))"
  by (auto simp: thenS_def bindS_def)

section \<open>Relations kept by monadic programs\<close>

text \<open>
  Most facts about the transaction state say that every successful run of an operation relates
  its start and end state by some reflexive and transitive relation (an invariant is kept, a frame
  is respected, the record of original values only grows). The locale states what such a relation
  has to provide once, and derives the rules that carry it through the monad.
\<close>

definition keeps :: "('s \<Rightarrow> 's \<Rightarrow> bool) \<Rightarrow> ('s, 'a) sm \<Rightarrow> bool" where
  "keeps R m \<longleftrightarrow> (\<forall>s x t. m s = Inr (x, t) \<longrightarrow> R s t)"

lemma keepsI: "(\<And>s x t. m s = Inr (x, t) \<Longrightarrow> R s t) \<Longrightarrow> keeps R m"
  by (auto simp: keeps_def)

lemma keepsD: "keeps R m \<Longrightarrow> m s = Inr (x, t) \<Longrightarrow> R s t"
  by (auto simp: keeps_def)

locale program_relation =
  fixes R :: "'s \<Rightarrow> 's \<Rightarrow> bool"
  assumes rel_refl: "R s s"
    and rel_trans: "R s t \<Longrightarrow> R t u \<Longrightarrow> R s u"
begin

lemma keeps_return: "keeps R (returnS x)"
  by (auto simp: keeps_def returnS_def rel_refl)

lemma keeps_bind: "keeps R m \<Longrightarrow> (\<And>x. keeps R (f x)) \<Longrightarrow> keeps R (bindS m f)"
  unfolding keeps_def bindS_eq_Inr by (blast intro: rel_trans)

lemma keeps_then: "keeps R m \<Longrightarrow> keeps R k \<Longrightarrow> keeps R (thenS m k)"
  unfolding thenS_def by (rule keeps_bind)

lemma keeps_get: "keeps R (getS f)"
  by (auto simp: keeps_def getS_def rel_refl)

lemma keeps_assert: "keeps R (assertS b)"
  by (auto simp: keeps_def assertS_def rel_refl)

lemma keeps_throw: "keeps R (throwS b msg)"
  by (auto simp: keeps_def throwS_def rel_refl)

lemma keeps_lift: "keeps R (liftS m)"
  by (auto simp: keeps_def liftS_def rel_refl)

lemma keeps_if: "keeps R m \<Longrightarrow> keeps R k \<Longrightarrow> keeps R (if b then m else k)"
  by simp

lemma keeps_case_option:
  "keeps R m \<Longrightarrow> (\<And>x. keeps R (f x)) \<Longrightarrow> keeps R (case o' of None \<Rightarrow> m | Some x \<Rightarrow> f x)"
  by (simp split: option.split)

lemma keeps_case_prod: "(\<And>x y. keeps R (f x y)) \<Longrightarrow> keeps R (case p of (x, y) \<Rightarrow> f x y)"
  by (simp split: prod.split)

lemma keeps_Let: "(\<And>x. keeps R (f x)) \<Longrightarrow> keeps R (Let v f)"
  by (simp add: Let_def)

lemma keeps_for: "(\<And>x. keeps R (f x)) \<Longrightarrow> keeps R (forS xs f)"
  by (induction xs) (auto intro: keeps_return keeps_then)

lemmas keeps_rules =
  keeps_return keeps_bind keeps_then keeps_get keeps_assert keeps_throw keeps_lift
  keeps_if keeps_case_option keeps_case_prod keeps_Let keeps_for

end

section \<open>Association lists\<close>

text \<open>
  The hash maps the code iterates over (\<open>ankerl::unordered_dense\<close>, \<open>immer::map\<close>,
  \<open>tbb::concurrent_hash_map\<close>) are association lists with distinct keys, updated in place
  by \<open>AList.update\<close>, which appends a new key at the end.
\<close>

abbreviation keys :: "('k \<times> 'v) list \<Rightarrow> 'k list" where
  "keys m \<equiv> map fst m"

abbreviation wf_map :: "('k \<times> 'v) list \<Rightarrow> bool" where
  "wf_map m \<equiv> distinct (keys m)"

lemma map_of_update [simp]:
  "map_of (AList.update k v m) x = (if x = k then Some v else map_of m x)"
  by (simp add: update_conv')

lemma map_of_AList_delete [simp]:
  "map_of (AList.delete k m) x = (if x = k then None else map_of m x)"
  by (simp add: delete_conv')

lemma wf_map_update [simp]: "wf_map m \<Longrightarrow> wf_map (AList.update k v m)"
  by (rule distinct_update)

lemma wf_map_delete [simp]: "wf_map m \<Longrightarrow> wf_map (AList.delete k m)"
  by (rule distinct_delete)

lemma keys_update [simp]: "set (keys (AList.update k v m)) = insert k (set (keys m))"
  by (simp add: dom_update)

lemma map_of_in_keys: "map_of m k = Some v \<Longrightarrow> k \<in> set (keys m)"
  by (force dest: map_of_SomeD)

lemma map_of_eq_None: "map_of m k = None \<longleftrightarrow> k \<notin> set (keys m)"
  by (simp add: map_of_eq_None_iff)

lemma map_of_ex: "k \<in> set (keys m) \<longleftrightarrow> (\<exists>v. map_of m k = Some v)"
  by (metis map_of_eq_None not_None_eq)

lemma in_set_map_of: "wf_map m \<Longrightarrow> (k, v) \<in> set m \<longleftrightarrow> map_of m k = Some v"
  by (simp add: map_of_eq_Some_iff)

definition map_entries :: "('k \<Rightarrow> 'v \<Rightarrow> 'w) \<Rightarrow> ('k \<times> 'v) list \<Rightarrow> ('k \<times> 'w) list" where
  "map_entries f m = map (\<lambda>(k, v). (k, f k v)) m"

lemma map_of_map_entries [simp]: "map_of (map_entries f m) k = map_option (f k) (map_of m k)"
  by (induction m) (auto simp: map_entries_def)

lemma keys_map_entries [simp]: "keys (map_entries f m) = keys m"
  by (simp add: map_entries_def comp_def case_prod_beta)

section \<open>Sets the code iterates over\<close>

abbreviation set_insert :: "'a \<Rightarrow> 'a list \<Rightarrow> 'a list" where
  "set_insert \<equiv> List.insert"

section \<open>Word arithmetic\<close>

lemma unat_add_no_overflow:
  fixes a b :: "'a::len word"
  assumes "unat a + unat b < 2 ^ LENGTH('a)"
  shows "unat (a + b) = unat a + unat b"
  using assms by (simp add: unat_word_ariths)

lemma unat_sub_no_underflow:
  fixes a b :: "'a::len word"
  assumes "b \<le> a"
  shows "unat (a - b) = unat a - unat b"
  using assms by (rule unat_sub)

lemma unat_mult_no_overflow:
  fixes a b :: "'a::len word"
  assumes "unat a * unat b < 2 ^ LENGTH('a)"
  shows "unat (a * b) = unat a * unat b"
  using assms by (simp add: unat_word_ariths)

lemma unat_max_word: "unat (- 1 :: 'a::len word) = 2 ^ LENGTH('a) - 1"
  by (simp add: unat_eq_nat_uint unsigned_minus_1_eq_mask mask_eq_exp_minus_1 nat_diff_distrib
      nat_power_eq)

lemma max_word_minus: "b \<le> (- 1 :: 'a::len word) - d \<longleftrightarrow> unat b + unat d < 2 ^ LENGTH('a)"
proof -
  have "unat (- 1 - d) = 2 ^ LENGTH('a) - 1 - unat d"
    by (subst unat_sub) (auto simp: unat_max_word)
  moreover have "unat d < 2 ^ LENGTH('a)" by simp
  ultimately show ?thesis unfolding word_le_nat_alt by linarith
qed

lemma unat_ucast_up:
  fixes x :: "'a::len word"
  assumes "LENGTH('a) \<le> LENGTH('b::len)"
  shows "unat (ucast x :: 'b word) = unat x"
proof -
  have "unat x < 2 ^ LENGTH('a)" by simp
  also have "(2::nat) ^ LENGTH('a) \<le> 2 ^ LENGTH('b)" using assms by simp
  finally show ?thesis by (simp add: unsigned_ucast_eq take_bit_nat_eq_self)
qed

lemma ucast_of_unat: "(ucast (x :: 'a::len word) :: 'b::len word) = of_nat (unat x)"
  by simp

lemma drop_bit_eq_0_unat: "drop_bit n (x :: 'a::len word) = 0 \<longleftrightarrow> unat x < 2 ^ n"
proof -
  have "unat (drop_bit n x) = unat x div 2 ^ n"
    by (simp only: unsigned_drop_bit_eq) (simp add: drop_bit_eq_div take_bit_nat_eq_self)
  then have "unat (drop_bit n x) = 0 \<longleftrightarrow> unat x < 2 ^ n"
    by (simp only: div_eq_0_iff) simp
  then show ?thesis by (simp only: unsigned_eq_0_iff)
qed

end
