(* ===== verification/Traits.thy ===== *)
theory Traits
  imports Monad_Prelude
begin

text \<open>
  The revisions of the Ethereum and Monad protocols and the compile-time \<open>Traits\<close> the execution
  templates are instantiated with (\<open>category/vm/evm/revision.h\<close>, \<open>monad/revision.h\<close>,
  \<open>traits.hpp\<close>). A template argument becomes an ordinary argument: a record with one field per
  member of the \<open>Traits\<close> concept, built by \<open>EvmTraits\<close> or \<open>MonadTraits\<close> from a revision.
\<close>

section \<open>Revisions\<close>

datatype monad_eth_revision =
    MONAD_ETH_FRONTIER | MONAD_ETH_HOMESTEAD | MONAD_ETH_TANGERINE_WHISTLE
  | MONAD_ETH_SPURIOUS_DRAGON | MONAD_ETH_BYZANTIUM | MONAD_ETH_CONSTANTINOPLE
  | MONAD_ETH_PETERSBURG | MONAD_ETH_ISTANBUL | MONAD_ETH_BERLIN | MONAD_ETH_LONDON
  | MONAD_ETH_PARIS | MONAD_ETH_SHANGHAI | MONAD_ETH_CANCUN | MONAD_ETH_PRAGUE
  | MONAD_ETH_OSAKA | MONAD_ETH_AMSTERDAM | MONAD_ETH_EXPERIMENTAL

text \<open>The underlying integer of the C enumeration.\<close>

primrec eth_revision_num :: "monad_eth_revision \<Rightarrow> nat" where
  "eth_revision_num MONAD_ETH_FRONTIER = 0"
| "eth_revision_num MONAD_ETH_HOMESTEAD = 1"
| "eth_revision_num MONAD_ETH_TANGERINE_WHISTLE = 2"
| "eth_revision_num MONAD_ETH_SPURIOUS_DRAGON = 3"
| "eth_revision_num MONAD_ETH_BYZANTIUM = 4"
| "eth_revision_num MONAD_ETH_CONSTANTINOPLE = 5"
| "eth_revision_num MONAD_ETH_PETERSBURG = 6"
| "eth_revision_num MONAD_ETH_ISTANBUL = 7"
| "eth_revision_num MONAD_ETH_BERLIN = 8"
| "eth_revision_num MONAD_ETH_LONDON = 9"
| "eth_revision_num MONAD_ETH_PARIS = 10"
| "eth_revision_num MONAD_ETH_SHANGHAI = 11"
| "eth_revision_num MONAD_ETH_CANCUN = 12"
| "eth_revision_num MONAD_ETH_PRAGUE = 13"
| "eth_revision_num MONAD_ETH_OSAKA = 14"
| "eth_revision_num MONAD_ETH_AMSTERDAM = 15"
| "eth_revision_num MONAD_ETH_EXPERIMENTAL = 16"

lemma eth_revision_num_inject: "eth_revision_num a = eth_revision_num b \<Longrightarrow> a = b"
  by (cases a; cases b; simp)

instantiation monad_eth_revision :: linorder
begin

definition less_eq_monad_eth_revision :: "monad_eth_revision \<Rightarrow> monad_eth_revision \<Rightarrow> bool" where
  "less_eq_monad_eth_revision a b \<longleftrightarrow> eth_revision_num a \<le> eth_revision_num b"

definition less_monad_eth_revision :: "monad_eth_revision \<Rightarrow> monad_eth_revision \<Rightarrow> bool" where
  "less_monad_eth_revision a b \<longleftrightarrow> eth_revision_num a < eth_revision_num b"

instance
  by standard
    (auto simp: less_eq_monad_eth_revision_def less_monad_eth_revision_def
      intro: eth_revision_num_inject)

end

declare less_eq_monad_eth_revision_def [simp] less_monad_eth_revision_def [simp]

datatype monad_revision =
    MONAD_ZERO | MONAD_ONE | MONAD_TWO | MONAD_THREE | MONAD_FOUR | MONAD_FIVE
  | MONAD_SIX | MONAD_SEVEN | MONAD_EIGHT | MONAD_NINE | MONAD_TEN | MONAD_NEXT

primrec monad_revision_num :: "monad_revision \<Rightarrow> nat" where
  "monad_revision_num MONAD_ZERO = 0"
| "monad_revision_num MONAD_ONE = 1"
| "monad_revision_num MONAD_TWO = 2"
| "monad_revision_num MONAD_THREE = 3"
| "monad_revision_num MONAD_FOUR = 4"
| "monad_revision_num MONAD_FIVE = 5"
| "monad_revision_num MONAD_SIX = 6"
| "monad_revision_num MONAD_SEVEN = 7"
| "monad_revision_num MONAD_EIGHT = 8"
| "monad_revision_num MONAD_NINE = 9"
| "monad_revision_num MONAD_TEN = 10"
| "monad_revision_num MONAD_NEXT = 11"

lemma monad_revision_num_inject: "monad_revision_num a = monad_revision_num b \<Longrightarrow> a = b"
  by (cases a; cases b; simp)

instantiation monad_revision :: linorder
begin

definition less_eq_monad_revision :: "monad_revision \<Rightarrow> monad_revision \<Rightarrow> bool" where
  "less_eq_monad_revision a b \<longleftrightarrow> monad_revision_num a \<le> monad_revision_num b"

definition less_monad_revision :: "monad_revision \<Rightarrow> monad_revision \<Rightarrow> bool" where
  "less_monad_revision a b \<longleftrightarrow> monad_revision_num a < monad_revision_num b"

instance
  by standard
    (auto simp: less_eq_monad_revision_def less_monad_revision_def
      intro: monad_revision_num_inject)

end

declare less_eq_monad_revision_def [simp] less_monad_revision_def [simp]

section \<open>Traits\<close>

text \<open>
  \<open>monad_rev\<close> exists only in \<open>MonadTraits\<close>; \<open>is_monad_trait_v\<close> is its presence. The members
  \<open>id\<close> and \<open>key\<close> (an address used as a cache tag) carry no protocol meaning and are left out.
\<close>

record traits =
  evm_rev :: monad_eth_revision
  monad_rev :: "monad_revision option"
  eip_1153_active :: bool
  eip_3198_active :: bool
  eip_3855_active :: bool
  eip_4399_active :: bool
  eip_4844_active :: bool
  eip_5656_active :: bool
  eip_7685_active :: bool
  eip_7691_active :: bool
  eip_7823_active :: bool
  eip_7883_active :: bool
  eip_7918_active :: bool
  eip_7939_active :: bool
  eip_7951_active :: bool
  eip_7981_active :: bool
  mip_3_active :: bool
  mip_8_active :: bool
  mip_11_active :: bool
  mip_12_active :: bool
  can_create_inside_delegated :: bool
  has_blob_opcodes :: bool
  max_code_size :: nat
  max_initcode_size :: nat
  cold_account_cost :: int
  cold_storage_cost :: int
  base_sstore_cost :: int

definition MAX_CODE_SIZE_EIP170 :: nat where
  "MAX_CODE_SIZE_EIP170 = 24 * 1024"

definition MAX_INITCODE_SIZE_EIP3860 :: nat where
  "MAX_INITCODE_SIZE_EIP3860 = 2 * MAX_CODE_SIZE_EIP170"

definition MAX_CODE_SIZE_MONAD_TWO :: nat where
  "MAX_CODE_SIZE_MONAD_TWO = 128 * 1024"

definition MAX_INITCODE_SIZE_MONAD_FOUR :: nat where
  "MAX_INITCODE_SIZE_MONAD_FOUR = 2 * MAX_CODE_SIZE_MONAD_TWO"

definition EvmTraits :: "monad_eth_revision \<Rightarrow> traits" where
  "EvmTraits Rev = \<lparr>
     evm_rev = Rev,
     monad_rev = None,
     eip_1153_active = (Rev \<ge> MONAD_ETH_CANCUN),
     eip_3198_active = (Rev \<ge> MONAD_ETH_LONDON),
     eip_3855_active = (Rev \<ge> MONAD_ETH_SHANGHAI),
     eip_4399_active = (Rev \<ge> MONAD_ETH_PARIS),
     eip_4844_active = (Rev \<ge> MONAD_ETH_CANCUN),
     eip_5656_active = (Rev \<ge> MONAD_ETH_CANCUN),
     eip_7685_active = (Rev \<ge> MONAD_ETH_PRAGUE),
     eip_7691_active = (Rev \<ge> MONAD_ETH_PRAGUE),
     eip_7823_active = (Rev \<ge> MONAD_ETH_OSAKA),
     eip_7883_active = (Rev \<ge> MONAD_ETH_OSAKA),
     eip_7918_active = (Rev \<ge> MONAD_ETH_OSAKA),
     eip_7939_active = (Rev \<ge> MONAD_ETH_OSAKA),
     eip_7951_active = (Rev \<ge> MONAD_ETH_OSAKA),
     eip_7981_active = (Rev \<ge> MONAD_ETH_AMSTERDAM),
     mip_3_active = False,
     mip_8_active = False,
     mip_11_active = False,
     mip_12_active = False,
     can_create_inside_delegated = True,
     has_blob_opcodes = (Rev \<ge> MONAD_ETH_CANCUN),
     max_code_size = MAX_CODE_SIZE_EIP170,
     max_initcode_size =
       (if Rev \<ge> MONAD_ETH_SHANGHAI then MAX_INITCODE_SIZE_EIP3860 else 2 ^ 64 - 1),
     cold_account_cost = 2500,
     cold_storage_cost = 2000,
     base_sstore_cost = 100\<rparr>"

definition MonadTraits_evm_rev :: "monad_revision \<Rightarrow> monad_eth_revision" where
  "MonadTraits_evm_rev Rev =
     (if Rev \<ge> MONAD_NEXT then MONAD_ETH_AMSTERDAM
      else if Rev \<ge> MONAD_NINE then MONAD_ETH_OSAKA
      else if Rev \<ge> MONAD_FOUR then MONAD_ETH_PRAGUE
      else MONAD_ETH_CANCUN)"

definition monad_pricing_version :: "monad_revision \<Rightarrow> nat" where
  "monad_pricing_version Rev = (if Rev \<ge> MONAD_SEVEN then 1 else 0)"

definition page_write_cost :: int where
  "page_write_cost = 2800"

definition page_growth_cost :: int where
  "page_growth_cost = 17000"

definition MonadTraits :: "monad_revision \<Rightarrow> traits" where
  "MonadTraits Rev =
     (let ev = MonadTraits_evm_rev Rev in \<lparr>
     evm_rev = ev,
     monad_rev = Some Rev,
     eip_1153_active = (ev \<ge> MONAD_ETH_CANCUN),
     eip_3198_active = (ev \<ge> MONAD_ETH_LONDON),
     eip_3855_active = (ev \<ge> MONAD_ETH_SHANGHAI),
     eip_4399_active = (ev \<ge> MONAD_ETH_PARIS),
     eip_4844_active = False,
     eip_5656_active = (ev \<ge> MONAD_ETH_CANCUN),
     eip_7685_active = False,
     eip_7691_active = False,
     eip_7823_active = (ev \<ge> MONAD_ETH_OSAKA),
     eip_7883_active = (ev \<ge> MONAD_ETH_OSAKA),
     eip_7918_active = False,
     eip_7939_active = (ev \<ge> MONAD_ETH_OSAKA),
     eip_7951_active = (Rev \<ge> MONAD_FOUR),
     eip_7981_active = (ev \<ge> MONAD_ETH_AMSTERDAM),
     mip_3_active = (Rev \<ge> MONAD_NINE),
     mip_8_active = (Rev \<ge> MONAD_TEN),
     mip_11_active = False,
     mip_12_active = (Rev \<ge> MONAD_NEXT),
     can_create_inside_delegated = False,
     has_blob_opcodes = (ev \<ge> MONAD_ETH_CANCUN),
     max_code_size =
       (if Rev \<ge> MONAD_TWO then MAX_CODE_SIZE_MONAD_TWO else MAX_CODE_SIZE_EIP170),
     max_initcode_size =
       (if Rev \<ge> MONAD_FOUR then MAX_INITCODE_SIZE_MONAD_FOUR else MAX_INITCODE_SIZE_EIP3860),
     cold_account_cost = (if monad_pricing_version Rev \<ge> 1 then 10000 else 2500),
     cold_storage_cost = (if monad_pricing_version Rev \<ge> 1 then 8000 else 2000),
     base_sstore_cost = 100\<rparr>)"

definition is_monad_trait :: "traits \<Rightarrow> bool" where
  "is_monad_trait tr \<longleftrightarrow> monad_rev tr \<noteq> None"

text \<open>\<open>traits::monad_rev() >= r\<close>, which only a Monad instantiation can ask.\<close>

definition monad_rev_ge :: "traits \<Rightarrow> monad_revision \<Rightarrow> bool" where
  "monad_rev_ge tr r \<longleftrightarrow> (case monad_rev tr of None \<Rightarrow> False | Some r' \<Rightarrow> r' \<ge> r)"

text \<open>
  The instantiations the code compiles: \<open>EvmTraits\<close> from Berlin on (its \<open>static_assert\<close>) and every
  \<open>MonadTraits\<close>.
\<close>

definition supported_traits :: "traits \<Rightarrow> bool" where
  "supported_traits tr \<longleftrightarrow>
     (\<exists>r \<ge> MONAD_ETH_BERLIN. tr = EvmTraits r) \<or> (\<exists>r. tr = MonadTraits r)"

lemma supported_traits_evm_rev: "supported_traits tr \<Longrightarrow> evm_rev tr \<ge> MONAD_ETH_BERLIN"
  by (auto simp: supported_traits_def EvmTraits_def MonadTraits_def MonadTraits_evm_rev_def)

lemma supported_traits_Evm [intro]: "r \<ge> MONAD_ETH_BERLIN \<Longrightarrow> supported_traits (EvmTraits r)"
  by (auto simp: supported_traits_def)

lemma supported_traits_Monad [intro]: "supported_traits (MonadTraits r)"
  by (auto simp: supported_traits_def)

lemma MonadTraits_cancun: "evm_rev (MonadTraits r) \<ge> MONAD_ETH_CANCUN"
  by (simp add: MonadTraits_def MonadTraits_evm_rev_def)

end
