(* ===== verification/Version_Stack.thy ===== *)
theory Version_Stack
  imports Monad_Prelude
begin

text \<open>
  \<open>VersionStack<T>\<close> (\<open>category/execution/ethereum/state3/version_stack.hpp\<close>): the copy-on-write
  history of one value across nested call frames. The deque is a list with its back at the head;
  a version is the number of open frames (at most the call depth limit of 1024, so the 32-bit
  \<open>unsigned\<close> never wraps and is a \<^typ>\<open>nat\<close> here). \<open>current\<close> hands out a reference to the
  value at the back; writing through it is \<open>vs_store\<close>.

  The specification it implements keeps one full copy of the value per open frame. The locale
  \<open>snapshot_history\<close> states what a client may rely on, and is interpreted on these operations.
\<close>

type_synonym 'a version_stack = "(nat \<times> 'a) list"

definition VersionStack :: "'a \<Rightarrow> nat \<Rightarrow> 'a version_stack" where
  "VersionStack value version = [(version, value)]"

definition vs_size :: "'a version_stack \<Rightarrow> nat" where
  "vs_size stack = length stack"

fun vs_version :: "'a version_stack \<Rightarrow> nat res" where
  "vs_version [] = Inl AssertFail"
| "vs_version ((v, x) # stack) = Inr v"

fun vs_recent :: "'a version_stack \<Rightarrow> 'a res" where
  "vs_recent [] = Inl AssertFail"
| "vs_recent ((v, x) # stack) = Inr x"

fun vs_current :: "nat \<Rightarrow> 'a version_stack \<Rightarrow> ('a \<times> 'a version_stack) res" where
  "vs_current version [] = Inl AssertFail"
| "vs_current version ((v, x) # stack) =
     (if version > v then Inr (x, (version, x) # (v, x) # stack) else Inr (x, (v, x) # stack))"

text \<open>Assignment through the reference that \<open>recent\<close> or \<open>current\<close> returned.\<close>

fun vs_store :: "'a \<Rightarrow> 'a version_stack \<Rightarrow> 'a version_stack" where
  "vs_store y [] = []"
| "vs_store y ((v, x) # stack) = (v, y) # stack"

fun vs_pop_accept :: "nat \<Rightarrow> 'a version_stack \<Rightarrow> 'a version_stack res" where
  "vs_pop_accept version [] = Inl AssertFail"
| "vs_pop_accept version ((v, x) # stack) =
     MONAD_ASSERT (version \<noteq> 0)
       (if version = v then
          (case stack of
             (w, y) # rest \<Rightarrow> if w + 1 = v then Inr ((w, x) # rest)
                             else Inr ((version - 1, x) # stack)
           | [] \<Rightarrow> Inr [(version - 1, x)])
        else Inr ((v, x) # stack))"

fun vs_pop_reject :: "nat \<Rightarrow> 'a version_stack \<Rightarrow> (bool \<times> 'a version_stack) res" where
  "vs_pop_reject version [] = Inl AssertFail"
| "vs_pop_reject version ((v, x) # stack) =
     MONAD_ASSERT (version \<noteq> 0)
       (let stack' = (if version = v then stack else (v, x) # stack)
        in Inr (stack' = [], stack'))"

section \<open>Well-formedness\<close>

text \<open>
  Versions strictly decrease from the back, and none is above the number of open frames.
\<close>

fun vs_ok :: "nat \<Rightarrow> 'a version_stack \<Rightarrow> bool" where
  "vs_ok n [] \<longleftrightarrow> False"
| "vs_ok n ((v, x) # stack) \<longleftrightarrow> v \<le> n \<and> (stack = [] \<or> (0 < v \<and> vs_ok (v - 1) stack))"

lemma vs_ok_mono: "vs_ok n stack \<Longrightarrow> n \<le> m \<Longrightarrow> vs_ok m stack"
  by (cases "(n, stack)" rule: vs_ok.cases) auto

lemma vs_ok_VersionStack [simp]: "vs_ok n (VersionStack x v) \<longleftrightarrow> v \<le> n"
  by (simp add: VersionStack_def)

lemma vs_ok_store [simp]: "vs_ok n (vs_store y stack) \<longleftrightarrow> vs_ok n stack"
  by (cases stack) auto

lemma vs_recent_ok: "vs_ok n stack \<Longrightarrow> \<exists>x. vs_recent stack = Inr x"
  by (cases stack) auto

lemma vs_current_ok:
  assumes "vs_ok n stack"
  obtains x stack' where "vs_current n stack = Inr (x, stack')" "vs_ok n stack'"
    "vs_recent stack = Inr x" "vs_recent stack' = Inr x" "vs_version stack' = Inr n"
proof (cases stack)
  case Nil
  with assms show ?thesis by simp
next
  case (Cons p rest)
  obtain v x where p: "p = (v, x)" by fastforce
  have v: "v \<le> n" using assms Cons p by simp
  show ?thesis
  proof (cases "n > v")
    case True
    then show ?thesis
      using assms Cons p that by auto
  next
    case False
    then show ?thesis
      using assms Cons p v that by auto
  qed
qed

section \<open>The value seen at a version\<close>

text \<open>
  \<open>vs_at stack n\<close> is the value a reader sees if \<open>n\<close> frames are open: the newest entry whose
  version is at most \<open>n\<close>.
\<close>

fun vs_at :: "'a version_stack \<Rightarrow> nat \<Rightarrow> 'a option" where
  "vs_at [] n = None"
| "vs_at ((v, x) # stack) n = (if v \<le> n then Some x else vs_at stack n)"

lemma vs_at_recent: "vs_ok n stack \<Longrightarrow> vs_at stack n = Some x \<longleftrightarrow> vs_recent stack = Inr x"
  by (cases stack) auto

lemma vs_at_above: "vs_ok n stack \<Longrightarrow> n \<le> m \<Longrightarrow> vs_at stack m = vs_at stack n"
  by (cases stack) auto

lemma vs_at_current:
  "vs_current n stack = Inr (x, stack') \<Longrightarrow> vs_ok n stack \<Longrightarrow> vs_at stack' m = vs_at stack m"
  by (cases stack) (auto split: if_splits)

lemma vs_at_current_store:
  assumes "vs_current n stack = Inr (x, stack')" "vs_ok n stack"
  shows "vs_at (vs_store y stack') m = (if n \<le> m then Some y else vs_at stack m)"
  using assms by (cases stack) (auto split: if_splits)

lemma vs_pop_accept_ok:
  assumes "vs_ok (Suc n) stack"
  obtains stack' where "vs_pop_accept (Suc n) stack = Inr stack'" "vs_ok n stack'"
    "\<And>m. vs_at stack' m = (if n \<le> m then vs_at stack (Suc n) else vs_at stack m)"
proof -
  obtain v x rest where st: "stack = (v, x) # rest"
    using assms by (cases stack) auto
  consider "Suc n \<noteq> v" | "Suc n = v" "rest = []"
    | y rest' where "Suc n = v" "rest = (n, y) # rest'"
    | w y rest' where "Suc n = v" "rest = (w, y) # rest'" "w < n"
    using assms st by (cases rest) (auto simp: le_less)
  then show thesis
  proof cases
    case 1
    show ?thesis by (rule that[of stack]) (use 1 assms st in auto)
  next
    case 2
    show ?thesis by (rule that[of "[(n, x)]"]) (use 2 assms st in auto)
  next
    case 3
    show ?thesis by (rule that[of "(n, x) # rest'"]) (use 3 assms st in auto)
  next
    case 4
    show ?thesis by (rule that[of "(n, x) # rest"]) (use 4 assms st in auto)
  qed
qed

lemma vs_pop_reject_ok:
  assumes "vs_ok (Suc n) stack"
  obtains stack' where "vs_pop_reject (Suc n) stack = Inr (stack' = [], stack')"
    "stack' = [] \<or> vs_ok n stack'"
    "\<And>m. vs_at stack' m = (if n \<le> m then vs_at stack n else vs_at stack m)"
proof -
  obtain v x rest where st: "stack = (v, x) # rest"
    using assms by (cases stack) auto
  show thesis
  proof (cases "Suc n = v")
    case False
    show ?thesis by (rule that[of stack]) (use False assms st in auto)
  next
    case True
    then have r: "rest = [] \<or> vs_ok n rest"
      using assms st by auto
    show ?thesis
    proof (rule that[of rest])
      show "vs_pop_reject (Suc n) stack = Inr (rest = [], rest)"
        by (simp add: st True[symmetric])
      show "rest = [] \<or> vs_ok n rest" by (rule r)
      show "vs_at rest m = (if n \<le> m then vs_at stack n else vs_at stack m)" for m
        using r vs_at_above[of n rest m] by (auto simp: st True[symmetric])
    qed
  qed
qed

section \<open>The eager specification\<close>

text \<open>
  The specification: a history is the list of the values seen with 0, 1, \dots, \<open>n\<close> frames open.
  Opening a frame copies the last value, writing replaces it, accepting a frame drops the value
  below it, rejecting drops its own.
\<close>

definition snapshots :: "nat \<Rightarrow> 'a version_stack \<Rightarrow> 'a option list" where
  "snapshots n stack = map (vs_at stack) [0..<Suc n]"

definition snap_open :: "'a list \<Rightarrow> 'a list" where
  "snap_open h = h @ [last h]"

definition snap_write :: "'a \<Rightarrow> 'a list \<Rightarrow> 'a list" where
  "snap_write x h = butlast h @ [x]"

definition snap_accept :: "'a list \<Rightarrow> 'a list" where
  "snap_accept h = butlast (butlast h) @ [last h]"

definition snap_reject :: "'a list \<Rightarrow> 'a list" where
  "snap_reject h = butlast h"

lemma snapshots_open: "vs_ok n stack \<Longrightarrow> snapshots (Suc n) stack = snap_open (snapshots n stack)"
  using vs_at_above[of n stack "Suc n"] by (simp add: snapshots_def snap_open_def)

lemma snapshots_write:
  assumes "vs_current n stack = Inr (x, stack')" "vs_ok n stack"
  shows "snapshots n (vs_store y stack') = snap_write (Some y) (snapshots n stack)"
  using assms by (simp add: snapshots_def snap_write_def vs_at_current_store)

lemma snapshots_accept:
  assumes "vs_pop_accept (Suc n) stack = Inr stack'" "vs_ok (Suc n) stack"
  shows "snapshots n stack' = snap_accept (snapshots (Suc n) stack)"
proof -
  obtain s where "vs_pop_accept (Suc n) stack = Inr s"
    and at: "\<And>m. vs_at s m = (if n \<le> m then vs_at stack (Suc n) else vs_at stack m)"
    using vs_pop_accept_ok[OF assms(2)] by blast
  then have "stack' = s" using assms(1) by simp
  with at show ?thesis
    by (simp add: snapshots_def snap_accept_def butlast_append)
qed

lemma snapshots_reject:
  assumes "vs_pop_reject (Suc n) stack = Inr (e, stack')" "vs_ok (Suc n) stack"
  shows "snapshots n stack' = snap_reject (snapshots (Suc n) stack)"
proof -
  obtain s where "vs_pop_reject (Suc n) stack = Inr (s = [], s)"
    and at: "\<And>m. vs_at s m = (if n \<le> m then vs_at stack n else vs_at stack m)"
    using vs_pop_reject_ok[OF assms(2)] by blast
  then have "stack' = s" using assms(1) by simp
  with at show ?thesis
    by (simp add: snapshots_def snap_reject_def butlast_append)
qed


section \<open>What clients rely on\<close>

text \<open>
  Taking the reference \<open>current(version)\<close> and assigning through it, as the clients do.
\<close>

definition vs_put :: "nat \<Rightarrow> 'a \<Rightarrow> 'a version_stack \<Rightarrow> 'a version_stack res" where
  "vs_put n y stack = Try (vs_current n stack) (\<lambda>(x, stack'). Inr (vs_store y stack'))"

fun put_all :: "('a \<Rightarrow> 'h \<Rightarrow> 'h res) \<Rightarrow> 'a list \<Rightarrow> 'h \<Rightarrow> 'h res" where
  "put_all put [] h = Inr h"
| "put_all put (x # xs) h = Try (put x h) (put_all put xs)"

locale snapshot_history =
  fixes ok :: "nat \<Rightarrow> 'h \<Rightarrow> bool"
    and put :: "nat \<Rightarrow> 'a \<Rightarrow> 'h \<Rightarrow> 'h res"
    and accept :: "nat \<Rightarrow> 'h \<Rightarrow> 'h res"
    and reject :: "nat \<Rightarrow> 'h \<Rightarrow> 'h res"
    and snaps :: "nat \<Rightarrow> 'h \<Rightarrow> 'a option list"
  assumes ok_open: "ok n h \<Longrightarrow> ok (Suc n) h"
    and snaps_open: "ok n h \<Longrightarrow> snaps (Suc n) h = snap_open (snaps n h)"
    and put_total: "ok n h \<Longrightarrow> \<exists>h'. put n x h = Inr h'"
    and put_ok: "ok n h \<Longrightarrow> put n x h = Inr h' \<Longrightarrow> ok n h'"
    and snaps_put: "ok n h \<Longrightarrow> put n x h = Inr h' \<Longrightarrow> snaps n h' = snap_write (Some x) (snaps n h)"
    and accept_total: "ok (Suc n) h \<Longrightarrow> \<exists>h'. accept (Suc n) h = Inr h'"
    and snaps_accept: "ok (Suc n) h \<Longrightarrow> accept (Suc n) h = Inr h' \<Longrightarrow>
      snaps n h' = snap_accept (snaps (Suc n) h)"
    and reject_total: "ok (Suc n) h \<Longrightarrow> \<exists>h'. reject (Suc n) h = Inr h'"
    and snaps_reject: "ok (Suc n) h \<Longrightarrow> reject (Suc n) h = Inr h' \<Longrightarrow>
      snaps n h' = snap_reject (snaps (Suc n) h)"
begin

lemma put_all_total:
  "ok n h \<Longrightarrow> \<exists>h'. put_all (put n) xs h = Inr h' \<and> ok n h' \<and>
     snaps n h' = (if xs = [] then snaps n h else snap_write (Some (last xs)) (snaps n h))"
proof (induction xs arbitrary: h)
  case Nil
  then show ?case by simp
next
  case (Cons x xs)
  obtain h1 where h1: "put n x h = Inr h1" "ok n h1"
      "snaps n h1 = snap_write (Some x) (snaps n h)"
    using put_total[OF Cons.prems, of x] put_ok[OF Cons.prems] snaps_put[OF Cons.prems] by blast
  obtain h2 where "put_all (put n) xs h1 = Inr h2" "ok n h2"
      "snaps n h2 = (if xs = [] then snaps n h1 else snap_write (Some (last xs)) (snaps n h1))"
    using Cons.IH[OF h1(2)] by blast
  with h1 show ?case
    by (auto simp: snap_write_def)
qed

text \<open>A rejected frame leaves the history as it was when the frame was opened.\<close>

lemma frame_reject:
  assumes "ok n h"
  shows "\<exists>h' h''. put_all (put (Suc n)) xs h = Inr h' \<and> reject (Suc n) h' = Inr h'' \<and>
    snaps n h'' = snaps n h"
proof -
  obtain h' where h': "put_all (put (Suc n)) xs h = Inr h'" "ok (Suc n) h'"
      "snaps (Suc n) h' = (if xs = [] then snap_open (snaps n h)
         else snap_write (Some (last xs)) (snap_open (snaps n h)))"
    using put_all_total[OF ok_open[OF assms], of xs] by (auto simp: snaps_open[OF assms])
  obtain h'' where h'': "reject (Suc n) h' = Inr h''"
    using reject_total[OF h'(2)] by blast
  have "snaps n h'' = snap_reject (snaps (Suc n) h')"
    by (rule snaps_reject[OF h'(2) h''])
  with h' h'' show ?thesis
    by (auto simp: snap_reject_def snap_open_def snap_write_def)
qed

text \<open>An accepted frame has the effect of its last write in the enclosing frame.\<close>

lemma frame_accept:
  assumes "ok n h" and "xs \<noteq> []"
  shows "\<exists>h' h''. put_all (put (Suc n)) xs h = Inr h' \<and> accept (Suc n) h' = Inr h'' \<and>
    snaps n h'' = snap_write (Some (last xs)) (snaps n h)"
proof -
  obtain h' where h': "put_all (put (Suc n)) xs h = Inr h'" "ok (Suc n) h'"
      "snaps (Suc n) h' = snap_write (Some (last xs)) (snap_open (snaps n h))"
    using put_all_total[OF ok_open[OF assms(1)], of xs] assms(2)
    by (auto simp: snaps_open[OF assms(1)])
  obtain h'' where h'': "accept (Suc n) h' = Inr h''"
    using accept_total[OF h'(2)] by blast
  have "snaps n h'' = snap_accept (snaps (Suc n) h')"
    by (rule snaps_accept[OF h'(2) h''])
  with h' h'' show ?thesis
    by (auto simp: snap_accept_def snap_open_def snap_write_def)
qed

end

lemma vs_put_ok:
  assumes "vs_ok n stack"
  obtains stack' where "vs_put n y stack = Inr stack'" "vs_ok n stack'"
    "snapshots n stack' = snap_write (Some y) (snapshots n stack)"
proof -
  obtain x s where s: "vs_current n stack = Inr (x, s)" "vs_ok n s"
    using vs_current_ok[OF assms] by blast
  show thesis
    by (rule that[of "vs_store y s"])
      (use s snapshots_write[OF s(1) assms] in \<open>auto simp: vs_put_def\<close>)
qed

interpretation vs: snapshot_history vs_ok vs_put vs_pop_accept
  "\<lambda>n stack. Try (vs_pop_reject n stack) (\<lambda>(e, stack'). Inr stack')" snapshots
proof
  fix n :: nat and h :: "'a version_stack"
  assume ok: "vs_ok n h"
  show "vs_ok (Suc n) h" by (rule vs_ok_mono[OF ok]) simp
  show "snapshots (Suc n) h = snap_open (snapshots n h)" by (rule snapshots_open[OF ok])
next
  fix n x h h' assume ok: "vs_ok n (h :: 'a version_stack)"
  show "\<exists>h'. vs_put n x h = Inr h'" by (rule vs_put_ok[OF ok]) blast
  assume "vs_put n x h = Inr h'"
  then show "vs_ok n h'" and "snapshots n h' = snap_write (Some x) (snapshots n h)"
    using vs_put_ok[OF ok, of x] by fastforce+
next
  fix n h h' assume ok: "vs_ok (Suc n) (h :: 'a version_stack)"
  show "\<exists>h'. vs_pop_accept (Suc n) h = Inr h'" by (rule vs_pop_accept_ok[OF ok]) blast
  assume "vs_pop_accept (Suc n) h = Inr h'"
  then show "snapshots n h' = snap_accept (snapshots (Suc n) h)"
    using ok by (rule snapshots_accept)
next
  fix n h h' assume ok: "vs_ok (Suc n) (h :: 'a version_stack)"
  show "\<exists>h'. Try (vs_pop_reject (Suc n) h) (\<lambda>(e, stack'). Inr stack') = Inr h'"
    by (rule vs_pop_reject_ok[OF ok]) auto
  assume "Try (vs_pop_reject (Suc n) h) (\<lambda>(e, stack'). Inr stack') = Inr h'"
  then show "snapshots n h' = snap_reject (snapshots (Suc n) h)"
    using snapshots_reject[OF _ ok] by auto
qed

end
