(* ===== verification/Block_State.thy ===== *)
theory Block_State
  imports Account_State
begin

text \<open>
  \<open>BlockState\<close> (\<open>category/execution/ethereum/state2/block_state.cpp\<close>): the state shared by the
  transactions of one block, a write-through cache over the database together with the deltas
  merged so far. The database is the abstract interface \<open>Db\<close> (\<open>db/db.hpp\<close>), a record of its
  read functions. A \<open>SharedVarcode\<close> or \<open>SharedIntercode\<close> is the bytecode it wraps; the cache of
  the VM (\<open>vm/varcode_cache.cpp\<close>) is modelled without its eviction. Merging a transaction is in
  theory \<open>Merge\<close>. The null check of \<open>state_\<close> (null only after \<open>release\<close>, which consumes the
  object) is left out.
\<close>

section \<open>Database interface\<close>

record db =
  db_read_account :: "address \<Rightarrow> account option"
  db_read_storage :: "address \<Rightarrow> incarnation \<Rightarrow> bytes32 \<Rightarrow> bytes32"
  db_read_code :: "bytes32 \<Rightarrow> bytes option"

section \<open>Deltas\<close>

type_synonym 'a delta = "'a \<times> 'a"

type_synonym storage_deltas = "(bytes32 \<times> bytes32 delta) list"

record state_delta =
  sd_account :: "account option delta"
  sd_storage :: storage_deltas

type_synonym state_deltas = "(address \<times> state_delta) list"

type_synonym code_map = "(bytes32 \<times> bytes) list"

record block_state =
  bs_db :: db
  bs_secondary_db :: "db option"
  bs_vm :: code_map
  bs_state :: state_deltas
  bs_code :: code_map
  bs_self_destruct_storage_reads :: "(address \<times> bytes32 list) list"

definition BlockState :: "db \<Rightarrow> code_map \<Rightarrow> db option \<Rightarrow> block_state" where
  "BlockState d vm secondary =
     \<lparr>bs_db = d, bs_secondary_db = secondary, bs_vm = vm, bs_state = [], bs_code = [],
      bs_self_destruct_storage_reads = []\<rparr>"

section \<open>The code cache of the VM\<close>

definition find_varcode :: "code_map \<Rightarrow> bytes32 \<Rightarrow> bytes option" where
  "find_varcode vm hash = map_of vm hash"

definition try_insert_varcode :: "bytes32 \<Rightarrow> bytes \<Rightarrow> code_map \<Rightarrow> bytes \<times> code_map" where
  "try_insert_varcode hash icode vm =
     (icode, case map_of vm hash of None \<Rightarrow> AList.update hash icode vm | Some _ \<Rightarrow> vm)"

definition try_insert_varcode_raw :: "bytes32 \<Rightarrow> bytes \<Rightarrow> code_map \<Rightarrow> bytes \<times> code_map" where
  "try_insert_varcode_raw hash c vm =
     (case find_varcode vm hash of
        None \<Rightarrow> try_insert_varcode hash c vm
      | Some vcode \<Rightarrow> (vcode, vm))"

section \<open>Reads\<close>

definition read_account :: "address \<Rightarrow> block_state \<Rightarrow> account option \<times> block_state" where
  "read_account a bs =
     (case map_of (bs_state bs) a of
        Some d \<Rightarrow> (snd (sd_account d), bs)
      | None \<Rightarrow>
          (let result = db_read_account (bs_db bs) a;
               d = \<lparr>sd_account = (result, result), sd_storage = []\<rparr>
           in (snd (sd_account d), bs\<lparr>bs_state := AList.update a d (bs_state bs)\<rparr>)))"

text \<open>The second block of \<open>read_storage\<close>, after the lookup in the block state has missed.\<close>

definition read_storage_db ::
  "bool \<Rightarrow> address \<Rightarrow> incarnation \<Rightarrow> bytes32 \<Rightarrow> block_state \<Rightarrow> (bytes32 \<times> block_state) res" where
  "read_storage_db from_db a inc key bs =
     (let result = (if from_db then db_read_storage (bs_db bs) a inc key else 0) in
      MONAD_ASSERT
        (from_db \<longrightarrow> (case bs_secondary_db bs of
           None \<Rightarrow> True | Some d2 \<Rightarrow> db_read_storage d2 a inc key = result))
        (case map_of (bs_state bs) a of
           None \<Rightarrow> Inl AssertFail
         | Some d \<Rightarrow>
             (case snd (sd_account d) of
                None \<Rightarrow> Inr (result, bs)
              | Some acct \<Rightarrow>
                  if inc \<noteq> incarnation acct then Inr (result, bs)
                  else
                    (let storage = (case map_of (sd_storage d) key of
                           None \<Rightarrow> AList.update key (result, result) (sd_storage d)
                         | Some _ \<Rightarrow> sd_storage d)
                     in case map_of storage key of
                          None \<Rightarrow> Inl AssertFail
                        | Some p \<Rightarrow> Inr (snd p,
                            bs\<lparr>bs_state := AList.update a (d\<lparr>sd_storage := storage\<rparr>)
                                 (bs_state bs)\<rparr>)))))"

definition read_storage ::
  "address \<Rightarrow> incarnation \<Rightarrow> bytes32 \<Rightarrow> block_state \<Rightarrow> (bytes32 \<times> block_state) res" where
  "read_storage a inc key bs =
     (case map_of (bs_state bs) a of
        None \<Rightarrow> Inl AssertFail
      | Some d \<Rightarrow>
          (case snd (sd_account d) of
             None \<Rightarrow> Inr (0, bs)
           | Some acct \<Rightarrow>
               if inc \<noteq> incarnation acct then Inr (0, bs)
               else (case map_of (sd_storage d) key of
                       Some p \<Rightarrow> Inr (snd p, bs)
                     | None \<Rightarrow>
                         read_storage_db
                           (case fst (sd_account d) of
                              None \<Rightarrow> False | Some orig \<Rightarrow> inc = incarnation orig)
                           a inc key bs)))"

definition bs_read_code :: "bytes32 \<Rightarrow> block_state \<Rightarrow> (bytes \<times> block_state) res" where
  "bs_read_code hash bs =
     (case find_varcode (bs_vm bs) hash of
        Some vcode \<Rightarrow> Inr (vcode, bs)
      | None \<Rightarrow>
          (case map_of (bs_code bs) hash of
             Some icode \<Rightarrow>
               (let (vcode, vm) = try_insert_varcode hash icode (bs_vm bs)
                in Inr (vcode, bs\<lparr>bs_vm := vm\<rparr>))
           | None \<Rightarrow>
               (case db_read_code (bs_db bs) hash of
                  None \<Rightarrow> Inl AssertFail
                | Some result \<Rightarrow>
                    MONAD_ASSERT (hash = NULL_HASH \<or> length result \<noteq> 0)
                      (let (vcode, vm) = try_insert_varcode hash result (bs_vm bs)
                       in Inr (vcode, bs\<lparr>bs_vm := vm\<rparr>)))))"

section \<open>What a read returns, without its caching\<close>

text \<open>
  The account, slot and code a block state holds. Reading returns exactly these and caching
  changes none of them, so they are the abstract state that \<open>BlockState\<close> implements.
\<close>

definition bs_account :: "block_state \<Rightarrow> address \<Rightarrow> account option" where
  "bs_account bs a =
     (case map_of (bs_state bs) a of
        Some d \<Rightarrow> snd (sd_account d)
      | None \<Rightarrow> db_read_account (bs_db bs) a)"

definition bs_slot :: "block_state \<Rightarrow> address \<Rightarrow> incarnation \<Rightarrow> bytes32 \<Rightarrow> bytes32" where
  "bs_slot bs a inc key =
     (case bs_account bs a of
        None \<Rightarrow> 0
      | Some acct \<Rightarrow>
          if inc \<noteq> incarnation acct then 0
          else (case map_of (bs_state bs) a of
                  None \<Rightarrow> db_read_storage (bs_db bs) a inc key
                | Some d \<Rightarrow>
                    (case map_of (sd_storage d) key of
                       Some p \<Rightarrow> snd p
                     | None \<Rightarrow>
                         (case fst (sd_account d) of
                            None \<Rightarrow> 0
                          | Some orig \<Rightarrow>
                              if inc = incarnation orig then db_read_storage (bs_db bs) a inc key
                              else 0))))"

lemma bs_account_cong:
  assumes "map_of (bs_state b1) x = map_of (bs_state b2) x" "bs_db b1 = bs_db b2"
  shows "bs_account b1 x = bs_account b2 x"
  unfolding bs_account_def assms by (rule refl)

lemma bs_slot_cong:
  assumes "map_of (bs_state b1) x = map_of (bs_state b2) x" "bs_db b1 = bs_db b2"
  shows "bs_slot b1 x inc key = bs_slot b2 x inc key"
  unfolding bs_slot_def bs_account_def assms by (rule refl)

lemma read_accountE:
  assumes "read_account a bs = (r, bs')"
  obtains d where "map_of (bs_state bs) a = Some d" "r = snd (sd_account d)" "bs' = bs"
  | "map_of (bs_state bs) a = None" "r = db_read_account (bs_db bs) a"
    "bs' = bs\<lparr>bs_state := AList.update a \<lparr>sd_account = (r, r), sd_storage = []\<rparr> (bs_state bs)\<rparr>"
  using assms by (auto simp: read_account_def Let_def split: option.splits)

lemma read_account_value: "read_account a bs = (r, bs') \<Longrightarrow> r = bs_account bs a"
  by (erule read_accountE) (simp_all add: bs_account_def)

lemma read_account_present: "read_account a bs = (r, bs') \<Longrightarrow> a \<in> set (keys (bs_state bs'))"
  by (erule read_accountE) (auto simp: dom_update map_of_in_keys[simplified])

lemma read_account_keys:
  "read_account a bs = (r, bs') \<Longrightarrow> set (keys (bs_state bs)) \<subseteq> set (keys (bs_state bs'))"
  by (erule read_accountE) (auto simp: dom_update)

lemma read_account_account: "read_account a bs = (r, bs') \<Longrightarrow> bs_account bs' x = bs_account bs x"
  by (erule read_accountE) (auto simp: bs_account_def split: option.split)

lemma read_account_slot:
  "read_account a bs = (r, bs') \<Longrightarrow> bs_slot bs' x inc key = bs_slot bs x inc key"
  by (erule read_accountE) (auto simp: bs_slot_def bs_account_def split: option.split)

lemma read_storageE:
  assumes "read_storage a inc key bs = Inr (v, bs')"
  obtains d where "map_of (bs_state bs) a = Some d" "bs' = bs" "v = bs_slot bs a inc key"
  | d acct where "map_of (bs_state bs) a = Some d" "snd (sd_account d) = Some acct"
      "inc = incarnation acct" "map_of (sd_storage d) key = None" "v = bs_slot bs a inc key"
      "bs' = bs\<lparr>bs_state :=
         AList.update a (d\<lparr>sd_storage := AList.update key (v, v) (sd_storage d)\<rparr>) (bs_state bs)\<rparr>"
proof -
  obtain d where d: "map_of (bs_state bs) a = Some d"
    using assms by (auto simp: read_storage_def split: option.splits)
  consider "snd (sd_account d) = None"
    | acct where "snd (sd_account d) = Some acct" "inc \<noteq> incarnation acct"
    | acct p where "snd (sd_account d) = Some acct" "inc = incarnation acct"
        "map_of (sd_storage d) key = Some p"
    | acct where "snd (sd_account d) = Some acct" "inc = incarnation acct"
        "map_of (sd_storage d) key = None"
    by (cases "snd (sd_account d)"; cases "map_of (sd_storage d) key"; blast)
  then show thesis
  proof cases
    case 1
    show thesis by (rule that(1)[OF d])
      (use assms d 1 in \<open>simp_all add: read_storage_def bs_slot_def bs_account_def\<close>)
  next
    case 2
    show thesis by (rule that(1)[OF d])
      (use assms d 2 in \<open>simp_all add: read_storage_def bs_slot_def bs_account_def\<close>)
  next
    case 3
    show thesis by (rule that(1)[OF d])
      (use assms d 3 in \<open>simp_all add: read_storage_def bs_slot_def bs_account_def\<close>)
  next
    case 4
    have v: "v = bs_slot bs a inc key"
      using assms 4 d
      by (cases "fst (sd_account d)")
        (auto simp: read_storage_def read_storage_db_def bs_slot_def bs_account_def Let_def
          split: if_splits)
    show thesis
      by (rule that(2)[OF d 4 v])
        (use assms 4 d in \<open>auto simp: read_storage_def read_storage_db_def Let_def\<close>)
  qed
qed

lemma read_storage_value: "read_storage a inc key bs = Inr (v, bs') \<Longrightarrow> v = bs_slot bs a inc key"
  by (erule read_storageE)

lemma read_storage_account:
  "read_storage a inc key bs = Inr (v, bs') \<Longrightarrow> bs_account bs' x = bs_account bs x"
  by (erule read_storageE) (auto simp: bs_account_def split: option.split)

lemma read_storage_slot:
  assumes "read_storage a inc key bs = Inr (v, bs')"
  shows "bs_slot bs' x i k = bs_slot bs x i k"
  using assms
proof (rule read_storageE)
  fix d acct
  assume d: "map_of (bs_state bs) a = Some d" "snd (sd_account d) = Some acct"
    "inc = incarnation acct" "map_of (sd_storage d) key = None"
    and v: "v = bs_slot bs a inc key"
    and bs': "bs' = bs\<lparr>bs_state :=
         AList.update a (d\<lparr>sd_storage := AList.update key (v, v) (sd_storage d)\<rparr>) (bs_state bs)\<rparr>"
  consider "x \<noteq> a" | "x = a" "i \<noteq> inc" | "x = a" "i = inc" "k = key" | "x = a" "i = inc" "k \<noteq> key"
    by blast
  then show "bs_slot bs' x i k = bs_slot bs x i k"
  proof cases
    case 1
    then show ?thesis by (intro bs_slot_cong) (simp_all add: bs')
  next
    case 2
    then show ?thesis by (simp add: bs_slot_def bs_account_def bs' d)
  next
    case 3
    then have "bs_slot bs' x i k = v" by (simp add: bs_slot_def bs_account_def bs' d)
    then show ?thesis using 3 v by simp
  next
    case 4
    then show ?thesis
      by (simp add: bs_slot_def bs_account_def bs' d split: option.split)
  qed
qed simp

lemma read_storage_keys:
  "read_storage a inc key bs = Inr (v, bs') \<Longrightarrow> set (keys (bs_state bs)) \<subseteq> set (keys (bs_state bs'))"
  by (erule read_storageE) (auto simp: dom_update)

lemma read_storage_total:
  assumes "a \<in> set (keys (bs_state bs))" and "bs_secondary_db bs = None"
  shows "\<exists>bs'. read_storage a inc key bs = Inr (bs_slot bs a inc key, bs')"
proof -
  obtain d where d: "map_of (bs_state bs) a = Some d"
    using assms(1) unfolding map_of_ex by blast
  have "\<exists>v bs'. read_storage a inc key bs = Inr (v, bs')"
    using assms(2) d
    by (cases "snd (sd_account d)"; cases "map_of (sd_storage d) key")
      (simp_all add: read_storage_def read_storage_db_def Let_def)
  then show ?thesis using read_storage_value by blast
qed

end
