(* ===== verification/Core_Types.thy ===== *)
theory Core_Types
  imports Account_State
begin

text \<open>
  The data structures of \<open>category/execution/ethereum/core/\<close> that the later theories share
  (transactions, signatures, headers, receipts, withdrawals), the error enumerations of the
  validation code, and the checked 256-bit arithmetic of \<open>category/core/checked_math.cpp\<close>.
\<close>

section \<open>Errors\<close>

datatype math_error = Overflow | Underflow | DivisionByZero

datatype transaction_error =
    InsufficientBalance | IntrinsicGasGreaterThanLimit | BadNonce | SenderNotEoa
  | TypeNotSupported | MaxFeeLessThanBase | PriorityFeeGreaterThanMax | NonceExceedsMax
  | InitCodeLimitExceeded | GasLimitReached | WrongChainId | MissingSender | GasLimitOverflow
  | InvalidSignature | InvalidBlobHash | EmptyAuthorizationList

datatype block_error =
    GasAboveLimit | InvalidGasLimit | ExtraDataTooLong | WrongOmmersHash | WrongParentHash
  | FieldBeforeFork | MissingField | PowBlockAfterMerge | InvalidNonce | TooManyOmmers
  | DuplicateOmmers | InvalidOmmerHeader | WrongLogsBloom | InvalidGasUsed | InvalidExcessBlobGas
  | WrongMerkleRoot | SystemCallMissingCode | SystemCallFailed | InvalidRequestsHash
  | InvalidDepositLog

datatype monad_transaction_error = InsufficientBalanceForFee | SystemTransactionSenderIsAuthority

datatype system_transaction_error =
    SystemTxnBeforeFork | GasNonZero | TypeNotLegacy | BadSender | MissingTo
  | InvalidSystemContract | NonEmptyAuthorizationList

text \<open>\<open>Result\<close> carries a status code of any of the enumerations.\<close>

datatype status_code =
    MathError math_error
  | TransactionError transaction_error
  | BlockError block_error
  | MonadTransactionError monad_transaction_error
  | SystemTransactionError system_transaction_error

type_synonym 'a result = "status_code + 'a"

section \<open>Checked arithmetic\<close>

text \<open>
  \<open>addc\<close>, \<open>subb\<close> and the 512-bit \<open>truncating_mul\<close> of \<open>runtime/uint256.hpp\<close>: the carry, the borrow and
  the upper half are those of the exact result.
\<close>

definition checked_add :: "u256 \<Rightarrow> u256 \<Rightarrow> u256 result" where
  "checked_add x y =
     (if unat x + unat y \<ge> 2 ^ 256 then Inl (MathError Overflow) else Inr (x + y))"

definition checked_sub :: "u256 \<Rightarrow> u256 \<Rightarrow> u256 result" where
  "checked_sub x y = (if unat x < unat y then Inl (MathError Underflow) else Inr (x - y))"

definition checked_mul :: "u256 \<Rightarrow> u256 \<Rightarrow> u256 result" where
  "checked_mul x y =
     (let prod = (ucast x :: 512 word) * ucast y
      in if drop_bit 256 prod \<noteq> 0 then Inl (MathError Overflow) else Inr (ucast prod))"

definition checked_div :: "u256 \<Rightarrow> u256 \<Rightarrow> u256 result" where
  "checked_div x y = (if y = 0 then Inl (MathError DivisionByZero) else Inr (x div y))"

lemma checked_mul_exact:
  "checked_mul x y = (if unat x * unat y < 2 ^ 256 then Inr (x * y) else Inl (MathError Overflow))"
proof -
  let ?p = "(ucast x :: 512 word) * ucast y"
  have up: "unat (ucast z :: 512 word) = unat z" for z :: u256
    by (rule unat_ucast_up) simp
  have b: "unat x * unat y < 2 ^ 512"
  proof -
    have "unat x * unat y < 2 ^ 256 * 2 ^ 256"
      by (rule mult_strict_mono) (use unsigned_less[of x] unsigned_less[of y] in simp_all)
    then show ?thesis by (simp only: power_add[symmetric]) simp
  qed
  have p: "unat ?p = unat x * unat y"
    using b by (subst unat_mult_no_overflow) (simp_all only: up len_of_numeral_defs, simp_all)
  have "(ucast ?p :: u256) = of_nat (unat x * unat y)"
    unfolding p[symmetric] by (rule ucast_of_unat)
  then have "(ucast ?p :: u256) = x * y"
    by simp
  then show ?thesis
    unfolding checked_mul_def Let_def drop_bit_eq_0_unat p by simp
qed

lemma checked_add_exact:
  "checked_add x y = (if unat x + unat y < 2 ^ 256 then Inr (x + y) else Inl (MathError Overflow))"
  by (auto simp: checked_add_def)

section \<open>Signatures\<close>

record secp256k1_signature =
  sig_r :: u256
  sig_s :: u256
  y_parity :: u8

definition secp256k1_order :: u256 where
  "secp256k1_order = 0xfffffffffffffffffffffffffffffffebaaedce6af48a03bbfd25e8cd0364141"

definition secp256k1_order_half :: u256 where
  "secp256k1_order_half = secp256k1_order div 2"

definition has_valid_range :: "secp256k1_signature \<Rightarrow> bool" where
  "has_valid_range sg \<longleftrightarrow>
     sig_r sg > 0 \<and> sig_s sg > 0 \<and> sig_r sg < secp256k1_order \<and> sig_s sg < secp256k1_order"

definition has_upper_s :: "secp256k1_signature \<Rightarrow> bool" where
  "has_upper_s sg \<longleftrightarrow> sig_s sg > secp256k1_order_half"

definition sig_is_valid :: "secp256k1_signature \<Rightarrow> bool" where
  "sig_is_valid sg \<longleftrightarrow> has_valid_range sg \<and> \<not> has_upper_s sg \<and> y_parity sg \<le> 1"

record signature_and_chain =
  signature :: secp256k1_signature
  sc_chain_id :: "u256 option"

definition from_v :: "u256 \<Rightarrow> signature_and_chain \<Rightarrow> signature_and_chain" where
  "from_v v sc =
     (if v = 28 then sc\<lparr>signature := (signature sc)\<lparr>y_parity := 1\<rparr>\<rparr>
      else if v = 27 then sc\<lparr>signature := (signature sc)\<lparr>y_parity := 0\<rparr>\<rparr>
      else
        (let tmp = v - 35;
             odd = (tmp AND 1 \<noteq> 0);
             sc = (if odd then sc\<lparr>signature := (signature sc)\<lparr>y_parity := 1\<rparr>\<rparr> else sc);
             tmp = (if odd then tmp XOR 1 else tmp)
         in sc\<lparr>sc_chain_id := Some (drop_bit 1 tmp)\<rparr>))"

definition max_chain_id :: u256 where
  "max_chain_id = (- 1 - 36) div 2"

definition get_v :: "signature_and_chain \<Rightarrow> u256 res" where
  "get_v sc =
     (case sc_chain_id sc of
        Some chain \<Rightarrow>
          MONAD_ASSERT_THROW (chain \<le> max_chain_id) ''get_v: chain_id out of bounds''
            (Inr (chain * 2 + 35 + ucast (y_parity (signature sc))))
      | None \<Rightarrow> Inr (if y_parity (signature sc) \<noteq> 0 then 28 else 27))"

section \<open>Transactions\<close>

datatype TransactionType = legacy | eip2930 | eip1559 | eip4844 | eip7702

record access_entry =
  ae_a :: address
  ae_keys :: "bytes32 list"

record authorization_entry =
  au_sc :: signature_and_chain
  au_address :: address
  au_nonce :: u64

record transaction =
  tx_sc :: signature_and_chain
  tx_nonce :: u64
  max_fee_per_gas :: u256
  tx_gas_limit :: u64
  tx_value :: u256
  tx_to :: "address option"
  tx_type :: TransactionType
  tx_data :: bytes
  access_list :: "access_entry list"
  max_priority_fee_per_gas :: u256
  max_fee_per_blob_gas :: u256
  blob_versioned_hashes :: "bytes32 list"
  authorization_list :: "authorization_entry list"

section \<open>Receipts, withdrawals and headers\<close>

record log =
  log_data :: bytes
  log_topics :: "bytes32 list"
  log_address :: address

record receipt =
  r_bloom :: bytes
  r_status :: u64
  r_gas_used :: u64
  r_type :: TransactionType
  r_logs :: "log list"

record withdrawal =
  w_index :: u64
  w_validator_index :: u64
  w_amount :: u64
  w_recipient :: address

record block_header =
  logs_bloom :: bytes
  parent_hash :: bytes32
  ommers_hash :: bytes32
  state_root :: bytes32
  transactions_root :: bytes32
  receipts_root :: bytes32
  prev_randao :: bytes32
  difficulty :: u256
  number :: u64
  gas_limit :: u64
  gas_used :: u64
  timestamp :: u64
  header_nonce :: bytes
  extra_data :: bytes
  beneficiary :: address
  base_fee_per_gas :: "u256 option"
  withdrawals_root :: "bytes32 option"
  blob_gas_used :: "u64 option"
  excess_blob_gas :: "u64 option"
  parent_beacon_block_root :: "bytes32 option"
  requests_hash :: "bytes32 option"
  slot_number :: "u64 option"

record block =
  header :: block_header
  transactions :: "transaction list"
  ommers :: "block_header list"
  withdrawals :: "withdrawal list option"

end
