(* ===== verification/Tx_State.thy ===== *)
theory Tx_State
  imports Block_State Core_Types
begin

text \<open>
  \<open>State\<close> (\<open>category/execution/ethereum/state3/state.hpp\<close>, \<open>state.cpp\<close>): the state of one
  transaction on top of a \<open>BlockState\<close>. This theory has the record with all its members, the three
  look-ups through which every operation reaches an account (\<open>original_account_state\<close>,
  \<open>recent_account_state\<close>, \<open>current_account_state\<close>) and the reading operations. Writing
  operations call back into the reserve-balance tracker and are in theory \<open>State_Ops\<close>.

  A C++ reference into a map is the pair of a look-up and a later update of the same entry:
  \<open>modify_current\<close> applies a function to the entry of the current version at the time of the
  write, so that two references to one account see each other's writes as they do in the code.
  \<open>dirty_\<close> has its back at the head of the list, like the version stacks.
\<close>

section \<open>The record\<close>

text \<open>
  The members of \<open>ReserveBalance\<close> (\<open>category/execution/monad/reserve_balance.hpp\<close>). Its back
  pointer \<open>state_\<close> is the enclosing \<open>State\<close>; of the tracer only whether it is null matters.
\<close>

record reserve_balance =
  rb_state_tracer :: bool
  rb_tracking_enabled :: bool
  rb_use_recent_code_hash :: bool
  rb_allow_init_selfdestruct_exemption :: bool
  rb_sender :: address
  rb_sender_gas_fees :: u256
  rb_sender_can_dip :: bool
  rb_failed :: "address list"
  rb_violation_thresholds :: "(address \<times> u256 option) list"
  rb_get_max_reserve :: "(address \<Rightarrow> u256) option"

definition ReserveBalance :: reserve_balance where
  "ReserveBalance =
     \<lparr>rb_state_tracer = False, rb_tracking_enabled = False, rb_use_recent_code_hash = False,
      rb_allow_init_selfdestruct_exemption = False, rb_sender = 0, rb_sender_gas_fees = 0,
      rb_sender_can_dip = False, rb_failed = [], rb_violation_thresholds = [],
      rb_get_max_reserve = None\<rparr>"

record tx_state =
  st_block_state :: block_state
  st_incarnation :: incarnation
  st_original :: "(address \<times> original_account_state) list"
  st_current :: "(address \<times> account_state version_stack) list"
  st_logs :: "log list version_stack"
  st_code :: code_map
  st_version :: nat
  st_dirty :: "address list list"
  st_relaxed_validation :: bool
  st_rb :: reserve_balance

definition State :: "block_state \<Rightarrow> incarnation \<Rightarrow> bool \<Rightarrow> tx_state" where
  "State bs inc relaxed =
     \<lparr>st_block_state = bs, st_incarnation = inc, st_original = [], st_current = [],
      st_logs = VersionStack [] 0, st_code = [], st_version = 0, st_dirty = [],
      st_relaxed_validation = relaxed, st_rb = ReserveBalance\<rparr>"

type_synonym 'a st = "(tx_state, 'a) sm"

section \<open>Access to the members\<close>

definition lift_bs :: "(block_state \<Rightarrow> 'a \<times> block_state) \<Rightarrow> 'a st" where
  "lift_bs f =
     (\<lambda>s. let (x, bs) = f (st_block_state s) in Inr (x, s\<lparr>st_block_state := bs\<rparr>))"

definition lift_bs_res :: "(block_state \<Rightarrow> ('a \<times> block_state) res) \<Rightarrow> 'a st" where
  "lift_bs_res f =
     (\<lambda>s. Try (f (st_block_state s)) (\<lambda>(x, bs). Inr (x, s\<lparr>st_block_state := bs\<rparr>)))"

definition find_original :: "address \<Rightarrow> original_account_state option st" where
  "find_original a = getS (\<lambda>s. map_of (st_original s) a)"

definition find_current :: "address \<Rightarrow> account_state version_stack option st" where
  "find_current a = getS (\<lambda>s. map_of (st_current s) a)"

definition emplace_original :: "address \<Rightarrow> original_account_state \<Rightarrow> unit st" where
  "emplace_original a o' = modifyS (\<lambda>s. s\<lparr>st_original := AList.update a o' (st_original s)\<rparr>)"

definition modify_original ::
  "address \<Rightarrow> (original_account_state \<Rightarrow> original_account_state) \<Rightarrow> unit st" where
  "modify_original a f =
     modifyS (\<lambda>s. case map_of (st_original s) a of
       None \<Rightarrow> s
     | Some o' \<Rightarrow> s\<lparr>st_original := AList.update a (f o') (st_original s)\<rparr>)"

definition put_stack :: "address \<Rightarrow> account_state version_stack \<Rightarrow> unit st" where
  "put_stack a stack = modifyS (\<lambda>s. s\<lparr>st_current := AList.update a stack (st_current s)\<rparr>)"

text \<open>
  Every reference to an \<open>AccountState\<close> that is written through comes from \<open>current(version_)\<close>
  in the same frame and refers to the entry of that version.
\<close>

fun vs_modify :: "nat \<Rightarrow> ('a \<Rightarrow> 'a) \<Rightarrow> 'a version_stack \<Rightarrow> 'a version_stack" where
  "vs_modify n f [] = []"
| "vs_modify n f ((v, x) # stack) = (if v = n then (v, f x) # stack else (v, x) # stack)"

definition modify_current :: "address \<Rightarrow> (account_state \<Rightarrow> account_state) \<Rightarrow> unit st" where
  "modify_current a f =
     modifyS (\<lambda>s. case map_of (st_current s) a of
       None \<Rightarrow> s
     | Some stack \<Rightarrow>
         s\<lparr>st_current := AList.update a (vs_modify (st_version s) f stack) (st_current s)\<rparr>)"

definition mark_dirty :: "address \<Rightarrow> address list list \<Rightarrow> address list list" where
  "mark_dirty a dirty = (case dirty of [] \<Rightarrow> [] | back # rest \<Rightarrow> set_insert a back # rest)"

section \<open>Account look-ups\<close>

definition original_account_state :: "address \<Rightarrow> original_account_state st" where
  "original_account_state a =
     bindS (find_original a) (\<lambda>it.
       case it of
         Some o' \<Rightarrow> returnS o'
       | None \<Rightarrow>
           bindS (lift_bs (read_account a)) (\<lambda>acct.
           thenS (emplace_original a (OriginalAccountState acct))
             (returnS (OriginalAccountState acct))))"

definition recent_account_state :: "address \<Rightarrow> account_state st" where
  "recent_account_state a =
     bindS (find_current a) (\<lambda>it.
       case it of
         Some stack \<Rightarrow> liftS (vs_recent stack)
       | None \<Rightarrow> bindS (original_account_state a) (\<lambda>o'. returnS (slice o')))"

definition current_account_state :: "address \<Rightarrow> account_state st" where
  "current_account_state a =
     bindS (find_current a) (\<lambda>it.
     bindS
       (case it of
          Some stack \<Rightarrow> returnS stack
        | None \<Rightarrow>
            bindS (original_account_state a) (\<lambda>o'.
            bindS (getS st_version) (\<lambda>version.
              returnS (VersionStack (slice o') version))))
       (\<lambda>stack.
     thenS (modifyS (\<lambda>s. s\<lparr>st_dirty := mark_dirty a (st_dirty s)\<rparr>))
     (bindS (getS st_version) (\<lambda>version.
     bindS (liftS (vs_current version stack)) (\<lambda>(x, stack').
     thenS (put_stack a stack') (returnS x))))))"

definition current_account :: "address \<Rightarrow> account option st" where
  "current_account a = bindS (current_account_state a) (\<lambda>st. returnS (as_account st))"

definition recent_account :: "address \<Rightarrow> account option st" where
  "recent_account a = bindS (recent_account_state a) (\<lambda>st. returnS (as_account st))"

definition set_account :: "address \<Rightarrow> account option \<Rightarrow> unit st" where
  "set_account a acct = modify_current a (\<lambda>st. st\<lparr>as_account := acct\<rparr>)"

section \<open>Reading operations\<close>

definition set_original_nonce :: "address \<Rightarrow> u64 \<Rightarrow> unit st" where
  "set_original_nonce a n =
     bindS (original_account_state a) (\<lambda>_.
     modify_original a (\<lambda>o'.
       let account = (case as_account o' of None \<Rightarrow> default_account | Some acct \<Rightarrow> acct)
       in o'\<lparr>as_account := Some (account\<lparr>nonce := n\<rparr>)\<rparr>))"

definition account_exists :: "address \<Rightarrow> bool st" where
  "account_exists a = bindS (recent_account a) (\<lambda>account. returnS (account \<noteq> None))"

definition account_is_dead :: "address \<Rightarrow> bool st" where
  "account_is_dead a = bindS (recent_account a) (\<lambda>account. returnS (is_dead account))"

definition account_has_code_or_nonce :: "address \<Rightarrow> bool st" where
  "account_has_code_or_nonce a =
     bindS (recent_account a) (\<lambda>account.
       case account of
         None \<Rightarrow> returnS False
       | Some acct \<Rightarrow> returnS (nonce acct > 0 \<or> code_hash acct \<noteq> NULL_HASH))"

definition get_nonce :: "address \<Rightarrow> u64 st" where
  "get_nonce a =
     bindS (recent_account a) (\<lambda>account.
       returnS (case account of Some acct \<Rightarrow> nonce acct | None \<Rightarrow> 0))"

definition get_balance :: "address \<Rightarrow> u256 st" where
  "get_balance a =
     bindS (recent_account a) (\<lambda>account.
     bindS (original_account_state a) (\<lambda>_.
     thenS (modify_original a set_validate_exact_balance)
       (returnS (case account of Some acct \<Rightarrow> balance acct | None \<Rightarrow> 0))))"

definition get_original_balance :: "address \<Rightarrow> u256 st" where
  "get_original_balance a =
     bindS (original_account_state a) (\<lambda>o'.
     thenS (modify_original a (\<lambda>o'. snd (get_balance_pessimistic o')))
       (returnS (fst (get_balance_pessimistic o'))))"

definition get_code_hash :: "address \<Rightarrow> bytes32 st" where
  "get_code_hash a =
     bindS (recent_account a) (\<lambda>account.
       returnS (case account of Some acct \<Rightarrow> code_hash acct | None \<Rightarrow> NULL_HASH))"

definition is_destructed :: "address \<Rightarrow> bool st" where
  "is_destructed a = bindS (recent_account_state a) (\<lambda>st. returnS (destructed st))"

definition is_current_incarnation :: "address \<Rightarrow> bool st" where
  "is_current_incarnation a =
     bindS (recent_account a) (\<lambda>account.
     bindS (getS st_incarnation) (\<lambda>inc.
       returnS (case account of Some acct \<Rightarrow> incarnation acct = inc | None \<Rightarrow> False)))"

text \<open>
  The read of a slot through the entry of \<open>original_\<close>, in both branches of \<open>get_storage\<close> and in
  \<open>set_storage\<close>.
\<close>

definition read_original_storage :: "address \<Rightarrow> incarnation \<Rightarrow> bytes32 \<Rightarrow> bytes32 st" where
  "read_original_storage a inc key =
     bindS (find_original a) (\<lambda>it2.
     case it2 of
       None \<Rightarrow> liftS (Inl AssertFail)
     | Some o' \<Rightarrow>
         (case map_of (as_storage o') key of
            Some value \<Rightarrow> returnS value
          | None \<Rightarrow>
              bindS (lift_bs_res (read_storage a inc key)) (\<lambda>value.
              thenS (modify_original a
                       (\<lambda>o'. o'\<lparr>as_storage := AList.update key value (as_storage o')\<rparr>))
                (returnS value))))"

definition get_storage :: "address \<Rightarrow> bytes32 \<Rightarrow> bytes32 st" where
  "get_storage a key =
     bindS (find_current a) (\<lambda>it.
     bindS (find_original a) (\<lambda>it2.
       case it of
         None \<Rightarrow>
           (case it2 of
              None \<Rightarrow> liftS (Inl AssertFail)
            | Some o' \<Rightarrow>
                (case as_account o' of
                   None \<Rightarrow> liftS (Inl AssertFail)
                 | Some account \<Rightarrow> read_original_storage a (incarnation account) key))
       | Some stack \<Rightarrow>
           bindS (liftS (vs_recent stack)) (\<lambda>st.
             case as_account st of
               None \<Rightarrow> liftS (Inl AssertFail)
             | Some account \<Rightarrow>
                 (case map_of (as_storage st) key of
                    Some value \<Rightarrow> returnS value
                  | None \<Rightarrow>
                      (case it2 of
                         None \<Rightarrow> liftS (Inl AssertFail)
                       | Some o' \<Rightarrow>
                           (case as_account o' of
                              None \<Rightarrow> returnS 0
                            | Some original_account \<Rightarrow>
                                if incarnation account \<noteq> incarnation original_account
                                then returnS 0
                                else read_original_storage a (incarnation account) key))))))"

definition get_transient_storage :: "address \<Rightarrow> bytes32 \<Rightarrow> bytes32 st" where
  "get_transient_storage a key =
     bindS (recent_account_state a) (\<lambda>st. returnS (as_get_transient_storage key st))"

definition is_touched :: "address \<Rightarrow> bool st" where
  "is_touched a =
     bindS (find_current a) (\<lambda>it.
       case it of
         None \<Rightarrow> returnS False
       | Some stack \<Rightarrow> bindS (liftS (vs_recent stack)) (\<lambda>st. returnS (touched st)))"

subsection \<open>Code\<close>

definition read_code :: "bytes32 \<Rightarrow> bytes st" where
  "read_code hash =
     bindS (getS (\<lambda>s. map_of (st_code s) hash)) (\<lambda>it.
       case it of
         Some vcode \<Rightarrow> returnS vcode
       | None \<Rightarrow> lift_bs_res (bs_read_code hash))"

definition get_code :: "address \<Rightarrow> bytes st" where
  "get_code a =
     bindS (recent_account a) (\<lambda>account.
       case account of
         None \<Rightarrow> lift_bs_res (bs_read_code NULL_HASH)
       | Some acct \<Rightarrow> read_code (code_hash acct))"

definition get_code_size :: "address \<Rightarrow> nat st" where
  "get_code_size a =
     bindS (recent_account a) (\<lambda>account.
       case account of
         None \<Rightarrow> returnS 0
       | Some acct \<Rightarrow> bindS (read_code (code_hash acct)) (\<lambda>vcode. returnS (length vcode)))"

text \<open>\<open>copy_code\<close> writes a prefix of the caller's buffer; the model returns what it wrote.\<close>

definition copy_code :: "address \<Rightarrow> nat \<Rightarrow> nat \<Rightarrow> bytes st" where
  "copy_code a offset buffer_size =
     bindS (recent_account a) (\<lambda>account.
       case account of
         None \<Rightarrow> returnS []
       | Some acct \<Rightarrow>
           bindS (read_code (code_hash acct)) (\<lambda>vcode.
             returnS (take buffer_size (drop offset vcode))))"

definition logs :: "log list st" where
  "logs = bindS (getS st_logs) (\<lambda>l. liftS (vs_recent l))"

definition record_balance_constraint_for_debit :: "address \<Rightarrow> u256 \<Rightarrow> bool st" where
  "record_balance_constraint_for_debit a debit =
     bindS (recent_account a) (\<lambda>account.
     let bal = (case account of Some acct \<Rightarrow> balance acct | None \<Rightarrow> 0) in
     bindS (original_account_state a) (\<lambda>o'.
       if bal \<ge> debit then
         (let diff = bal - debit;
              original_balance = (case as_account o' of Some acct \<Rightarrow> balance acct | None \<Rightarrow> 0)
          in thenS
               (if original_balance > diff then
                  bindS (liftS (set_min_balance (original_balance - diff) o')) (\<lambda>o''.
                    modify_original a (\<lambda>o'. o'\<lparr>min_balance := min_balance o''\<rparr>))
                else returnS ())
               (returnS True))
       else
         thenS (modify_original a set_validate_exact_balance) (returnS False)))"

end
