(* ===== verification/Tx_Gas.thy ===== *)
theory Tx_Gas
  imports Core_Types Complex_Main
begin

text \<open>
  Gas and fee arithmetic of a transaction: \<open>category/execution/ethereum/transaction_gas.cpp\<close>,
  \<open>transaction_gas.hpp\<close> and \<open>category/execution/monad/monad_transaction_gas.cpp\<close>. All quantities
  keep the width they have in the code.
\<close>

section \<open>The blob fee market\<close>

record blob_schedule =
  target_blobs_per_block :: u64
  max_blobs_per_block :: u64
  blob_base_fee_update_fraction :: u64

definition CANCUN_BLOB_SCHEDULE :: blob_schedule where
  "CANCUN_BLOB_SCHEDULE = \<lparr>target_blobs_per_block = 3, max_blobs_per_block = 6,
     blob_base_fee_update_fraction = 3338477\<rparr>"

definition MONAD_BLOB_SCHEDULE :: blob_schedule where
  "MONAD_BLOB_SCHEDULE = \<lparr>target_blobs_per_block = 0, max_blobs_per_block = 0,
     blob_base_fee_update_fraction = blob_base_fee_update_fraction CANCUN_BLOB_SCHEDULE\<rparr>"

definition PRAGUE_BLOB_SCHEDULE :: blob_schedule where
  "PRAGUE_BLOB_SCHEDULE = \<lparr>target_blobs_per_block = 6, max_blobs_per_block = 9,
     blob_base_fee_update_fraction = 5007716\<rparr>"

definition BPO1_BLOB_SCHEDULE :: blob_schedule where
  "BPO1_BLOB_SCHEDULE = \<lparr>target_blobs_per_block = 10, max_blobs_per_block = 15,
     blob_base_fee_update_fraction = 8346193\<rparr>"

definition BPO2_BLOB_SCHEDULE :: blob_schedule where
  "BPO2_BLOB_SCHEDULE = \<lparr>target_blobs_per_block = 14, max_blobs_per_block = 21,
     blob_base_fee_update_fraction = 11684671\<rparr>"

text \<open>
  The Taylor loop of \<open>fake_exponential\<close>. It has no bound of its own, so it is a partial function;
  \<open>None\<close> is a loop that does not end.
\<close>

partial_function (option) fake_exponential_loop ::
  "u256 \<Rightarrow> u256 \<Rightarrow> nat \<Rightarrow> u256 \<Rightarrow> u256 \<Rightarrow> u256 option" where
  [code]: "fake_exponential_loop n d i output acc =
     (if acc > 0 then
        fake_exponential_loop n d (i + 1) (output + acc) (acc * n div (d * of_nat i))
      else Some output)"

definition fake_exponential :: "u256 \<Rightarrow> u256 \<Rightarrow> u256 \<Rightarrow> u256 option" where
  "fake_exponential factor n d =
     map_option (\<lambda>output. output div d) (fake_exponential_loop n d 1 0 (factor * d))"

definition GAS_PER_BLOB :: u64 where
  "GAS_PER_BLOB = 131072"

definition BLOB_BASE_COST :: u64 where
  "BLOB_BASE_COST = 8192"

definition default_blob_schedule :: "traits \<Rightarrow> blob_schedule" where
  "default_blob_schedule tr =
     (if eip_7691_active tr then PRAGUE_BLOB_SCHEDULE else CANCUN_BLOB_SCHEDULE)"

definition max_blob_gas_per_block :: "blob_schedule \<Rightarrow> u64" where
  "max_blob_gas_per_block bsch = max_blobs_per_block bsch * GAS_PER_BLOB"

definition target_blob_gas_per_block :: "blob_schedule \<Rightarrow> u64" where
  "target_blob_gas_per_block bsch = target_blobs_per_block bsch * GAS_PER_BLOB"

definition get_total_blob_gas :: "transaction \<Rightarrow> u64" where
  "get_total_blob_gas tx = GAS_PER_BLOB * of_nat (length (blob_versioned_hashes tx))"

definition get_base_fee_per_blob_gas :: "u64 \<Rightarrow> blob_schedule \<Rightarrow> u256 option" where
  "get_base_fee_per_blob_gas excess bsch =
     fake_exponential 1 (ucast excess) (ucast (blob_base_fee_update_fraction bsch))"

definition calc_blob_fee :: "transaction \<Rightarrow> u64 \<Rightarrow> blob_schedule \<Rightarrow> u256 option" where
  "calc_blob_fee tx excess bsch =
     map_option (\<lambda>fee. fee * ucast (get_total_blob_gas tx)) (get_base_fee_per_blob_gas excess bsch)"

definition value_or :: "'a option \<Rightarrow> 'a \<Rightarrow> 'a" where
  "value_or x d = (case x of Some y \<Rightarrow> y | None \<Rightarrow> d)"

definition calc_excess_blob_gas :: "traits \<Rightarrow> block_header \<Rightarrow> blob_schedule \<Rightarrow> u64 option" where
  "calc_excess_blob_gas tr parent bsch =
     (let excess = value_or (excess_blob_gas parent) 0;
          used = value_or (blob_gas_used parent) 0;
          total_blob_gas = excess + used;
          target_blob_gas = target_blob_gas_per_block bsch
      in if total_blob_gas < target_blob_gas then Some 0
         else if eip_7918_active tr then
           (case get_base_fee_per_blob_gas excess bsch of
              None \<Rightarrow> None
            | Some fee \<Rightarrow>
                let price_ratio = ucast (GAS_PER_BLOB div BLOB_BASE_COST) :: u256;
                    execution_base_fee = value_or (base_fee_per_gas parent) 0
                in (case checked_mul price_ratio fee of
                      Inr threshold \<Rightarrow>
                        if execution_base_fee > threshold then
                          Some (excess + used * (max_blobs_per_block bsch - target_blobs_per_block bsch)
                                  div max_blobs_per_block bsch)
                        else Some (total_blob_gas - target_blob_gas)
                    | Inl _ \<Rightarrow> Some (total_blob_gas - target_blob_gas)))
         else Some (total_blob_gas - target_blob_gas))"

section \<open>Intrinsic gas\<close>

definition g_txn_create :: "transaction \<Rightarrow> u64" where
  "g_txn_create tx = (if tx_to tx = None then 32000 else 0)"

definition g_access_and_storage :: "transaction \<Rightarrow> u64" where
  "g_access_and_storage tx =
     foldl (\<lambda>g i. g + of_nat (length (ae_keys i)) * 1900)
       (of_nat (length (access_list tx)) * 2400) (access_list tx)"

definition g_access_list_data :: "transaction \<Rightarrow> u64" where
  "g_access_list_data tx =
     foldl (\<lambda>g i. g + of_nat (length (ae_keys i)) * 32)
       (of_nat (length (access_list tx)) * 20) (access_list tx) * 40"

definition g_authorization :: "transaction \<Rightarrow> u64" where
  "g_authorization tx = 25000 * of_nat (length (authorization_list tx))"

definition g_extra_cost_init :: "transaction \<Rightarrow> u64" where
  "g_extra_cost_init tx =
     (if tx_to tx = None then ((of_nat (length (tx_data tx)) + 31) div 32) * 2 else 0)"

definition tokens_in_calldata :: "transaction \<Rightarrow> u64 \<times> u64" where
  "tokens_in_calldata tx =
     (let zeros = of_nat (length (filter (\<lambda>c. c = 0) (tx_data tx)));
          nonzeros = of_nat (length (tx_data tx)) - zeros
      in (zeros, nonzeros))"

definition g_data :: "transaction \<Rightarrow> u64" where
  "g_data tx = (case tokens_in_calldata tx of (zeros, nonzeros) \<Rightarrow> zeros * 4 + nonzeros * 16)"

definition intrinsic_gas :: "traits \<Rightarrow> transaction \<Rightarrow> u64" where
  "intrinsic_gas tr tx =
     (let gas = 21000 + g_data tx + g_txn_create tx + g_access_and_storage tx;
          gas = (if evm_rev tr \<ge> MONAD_ETH_SHANGHAI then gas + g_extra_cost_init tx else gas);
          gas = (if evm_rev tr \<ge> MONAD_ETH_PRAGUE then gas + g_authorization tx else gas);
          gas = (if eip_7981_active tr then gas + g_access_list_data tx else gas)
      in gas)"

definition floor_data_gas :: "traits \<Rightarrow> transaction \<Rightarrow> u64" where
  "floor_data_gas tr tx =
     (case tokens_in_calldata tx of (zeros, nonzeros) \<Rightarrow>
        let gas = 21000 + (zeros * 10 + nonzeros * 40)
        in if eip_7981_active tr then gas + g_access_list_data tx else gas)"

section \<open>Fees\<close>

definition priority_fee_per_gas :: "transaction \<Rightarrow> u256 \<Rightarrow> u256 res" where
  "priority_fee_per_gas tx base_fee =
     MONAD_ASSERT (max_fee_per_gas tx \<ge> base_fee)
       (let max_priority = max_fee_per_gas tx - base_fee
        in if tx_type tx = eip1559 \<or> tx_type tx = eip4844 \<or> tx_type tx = eip7702
           then Inr (min (max_priority_fee_per_gas tx) max_priority)
           else Inr max_priority)"

definition gas_price :: "traits \<Rightarrow> transaction \<Rightarrow> u256 \<Rightarrow> u256 res" where
  "gas_price tr tx base_fee =
     (if evm_rev tr < MONAD_ETH_LONDON then Inr (max_fee_per_gas tx)
      else Try (priority_fee_per_gas tx base_fee) (\<lambda>fee. Inr (fee + base_fee)))"

definition g_star :: "traits \<Rightarrow> transaction \<Rightarrow> u64 \<Rightarrow> u64 \<Rightarrow> u64" where
  "g_star tr tx gas_remaining refund =
     (let max_refund_quotient = (if evm_rev tr \<ge> MONAD_ETH_LONDON then 5 else 2);
          refund_allowance = (tx_gas_limit tx - gas_remaining) div max_refund_quotient
      in gas_remaining + min refund_allowance refund)"

text \<open>The two instantiations of \<open>compute_gas_refund\<close>, for EVM and for Monad traits.\<close>

definition compute_gas_refund :: "traits \<Rightarrow> transaction \<Rightarrow> u64 \<Rightarrow> u64 \<Rightarrow> u64" where
  "compute_gas_refund tr tx gas_remaining refund =
     (if monad_rev_ge tr MONAD_ONE then 0 else g_star tr tx gas_remaining refund)"

definition calculate_txn_award :: "traits \<Rightarrow> transaction \<Rightarrow> u256 \<Rightarrow> u64 \<Rightarrow> u256 res" where
  "calculate_txn_award tr tx base_fee used =
     (if evm_rev tr < MONAD_ETH_LONDON
      then Try (gas_price tr tx base_fee) (\<lambda>p. Inr (ucast used * p))
      else Try (priority_fee_per_gas tx base_fee) (\<lambda>p. Inr (ucast used * p)))"

definition max_gas_cost :: "u64 \<Rightarrow> u256 \<Rightarrow> u256 result" where
  "max_gas_cost glimit fee = checked_mul (ucast glimit) fee"

end
