(* ===== verification/Reserve_Balance.thy ===== *)
theory Reserve_Balance
  imports Tx_State Tx_Gas
begin

text \<open>
  The reserve-balance rule of Monad (\<open>category/execution/monad/reserve_balance.cpp\<close>, and
  \<open>category/execution/ethereum/reserve_balance.cpp\<close> for the EVM instantiations): a transaction is
  reverted when it leaves an externally owned account below the part of its balance that is
  reserved for the gas of its pending transactions. \<open>dipped_into_reserve\<close> decides this from the
  final state; the \<open>ReserveBalance\<close> tracker, called from the balance and code operations of
  \<open>State\<close>, maintains the set of accounts in violation while the transaction runs. The code reads the
  tracers record have no influence on the state and are left out.
\<close>

section \<open>Constants and delegation\<close>

definition STAKING_CA :: address where
  "STAKING_CA = 0x1000"

definition ETHER :: u256 where
  "ETHER = 1000000000000000000"

definition monad_default_max_reserve_balance_mon :: "monad_revision \<Rightarrow> nat" where
  "monad_default_max_reserve_balance_mon r = 10"

text \<open>A parameter of \<open>get_max_reserve\<close>, the address, is unused in the code as well.\<close>

definition get_max_reserve :: "monad_revision \<Rightarrow> address \<Rightarrow> u256" where
  "get_max_reserve r a = of_nat (monad_default_max_reserve_balance_mon r) * ETHER"

text \<open>\<open>vm::evm::is_delegated\<close> (\<open>category/vm/evm/delegation.cpp\<close>): the EIP-7702 indicator.\<close>

definition delegation_indicator_prefix :: bytes where
  "delegation_indicator_prefix = [0xef, 0x01, 0x00]"

definition delegation_indicator_size :: nat where
  "delegation_indicator_size = length delegation_indicator_prefix + 20"

definition is_delegated :: "bytes \<Rightarrow> bool" where
  "is_delegated c \<longleftrightarrow>
     length c = delegation_indicator_size \<and>
     take (length delegation_indicator_prefix) c = delegation_indicator_prefix"

definition is_smart_contract_code :: "bytes \<Rightarrow> bool" where
  "is_smart_contract_code c \<longleftrightarrow> c \<noteq> [] \<and> \<not> is_delegated c"

definition is_delegated_hash :: "bytes32 \<Rightarrow> bool st" where
  "is_delegated_hash hash =
     (if hash = NULL_HASH then returnS False
      else bindS (read_code hash) (\<lambda>vcode. returnS (is_delegated vcode)))"

section \<open>Chain context\<close>

record chain_context =
  grandparent_senders_and_authorities :: "address list"
  parent_senders_and_authorities :: "address list"
  senders_and_authorities :: "address list"
  senders :: "address list"
  authorities :: "address option list list"

text \<open>The caller has checked that \<open>i\<close> is an index of \<open>senders\<close> and \<open>authorities\<close>.\<close>

definition can_sender_dip_into_reserve ::
  "address \<Rightarrow> nat \<Rightarrow> bool \<Rightarrow> chain_context \<Rightarrow> bool" where
  "can_sender_dip_into_reserve sender i sender_is_delegated ctx =
     (if sender_is_delegated then False
      else if sender \<in> set (grandparent_senders_and_authorities ctx)
           \<or> sender \<in> set (parent_senders_and_authorities ctx) then False
      else if sender \<in> set (senders_and_authorities ctx)
           \<and> list_ex (\<lambda>j. (j < i \<and> sender = senders ctx ! j)
                        \<or> Some sender \<in> set (authorities ctx ! j)) [0..<Suc i] then False
      else True)"

section \<open>The tracker\<close>

definition modify_rb :: "(reserve_balance \<Rightarrow> reserve_balance) \<Rightarrow> unit st" where
  "modify_rb f = modifyS (\<lambda>s. s\<lparr>st_rb := f (st_rb s)\<rparr>)"

definition threshold_of :: "reserve_balance \<Rightarrow> address \<Rightarrow> u256 option" where
  "threshold_of rb a =
     (case map_of (rb_violation_thresholds rb) a of Some t \<Rightarrow> t | None \<Rightarrow> None)"

definition set_threshold :: "address \<Rightarrow> u256 option \<Rightarrow> unit st" where
  "set_threshold a t =
     modify_rb (\<lambda>rb. rb\<lparr>rb_violation_thresholds := AList.update a t (rb_violation_thresholds rb)\<rparr>)"

text \<open>\<open>operator[]\<close> inserts an empty entry before it returns the reference.\<close>

definition get_threshold :: "address \<Rightarrow> u256 option st" where
  "get_threshold a =
     bindS (getS (\<lambda>s. threshold_of (st_rb s) a)) (\<lambda>t. thenS (set_threshold a t) (returnS t))"

definition failed_insert :: "address \<Rightarrow> unit st" where
  "failed_insert a = modify_rb (\<lambda>rb. rb\<lparr>rb_failed := set_insert a (rb_failed rb)\<rparr>)"

definition failed_erase :: "address \<Rightarrow> unit st" where
  "failed_erase a = modify_rb (\<lambda>rb. rb\<lparr>rb_failed := filter (\<lambda>x. x \<noteq> a) (rb_failed rb)\<rparr>)"

definition tracking_enabled :: "bool st" where
  "tracking_enabled = getS (\<lambda>s. rb_tracking_enabled (st_rb s))"

definition has_violation :: "bool st" where
  "has_violation = getS (\<lambda>s. rb_failed (st_rb s) \<noteq> [])"

definition failed_contains :: "address \<Rightarrow> bool st" where
  "failed_contains a = getS (\<lambda>s. a \<in> set (rb_failed (st_rb s)))"

definition subject_account :: "address \<Rightarrow> bool st" where
  "subject_account a =
     (if a = STAKING_CA then returnS False
      else
        bindS (original_account_state a) (\<lambda>orig.
        bindS (getS st_rb) (\<lambda>rb.
        bindS (if rb_use_recent_code_hash rb then get_code_hash a
               else returnS (as_get_code_hash orig)) (\<lambda>effective_code_hash.
          if effective_code_hash = NULL_HASH then returnS True
          else thenS (assertS (rb_state_tracer rb)) (is_delegated_hash effective_code_hash)))))"

definition pretx_reserve :: "address \<Rightarrow> u256 st" where
  "pretx_reserve a =
     bindS (getS st_rb) (\<lambda>rb.
       case rb_get_max_reserve rb of
         None \<Rightarrow> liftS (Inl AssertFail)
       | Some f \<Rightarrow> bindS (get_original_balance a) (\<lambda>b. returnS (min (f a) b)))"

definition set_threshold_and_clear :: "address \<Rightarrow> unit st" where
  "set_threshold_and_clear a = thenS (set_threshold a (Some 0)) (failed_erase a)"

text \<open>The last part of \<open>update_violation_status\<close>, once the threshold is known.\<close>

definition check_threshold :: "address \<Rightarrow> u256 \<Rightarrow> unit st" where
  "check_threshold a t =
     (if t = 0 then failed_erase a
      else bindS (get_balance a) (\<lambda>b. if b < t then failed_insert a else failed_erase a))"

definition update_violation_status :: "address \<Rightarrow> unit st" where
  "update_violation_status a =
     bindS (getS st_rb) (\<lambda>rb.
       if \<not> rb_tracking_enabled rb then returnS ()
       else
         bindS (get_threshold a) (\<lambda>violation_threshold.
         bindS (if rb_allow_init_selfdestruct_exemption rb
                then bindS (is_destructed a) (\<lambda>d.
                       if d then is_current_incarnation a else returnS False)
                else returnS False) (\<lambda>exempt.
           if exempt then set_threshold_and_clear a
           else
             (case violation_threshold of
                Some t \<Rightarrow> check_threshold a t
              | None \<Rightarrow>
                  bindS (subject_account a) (\<lambda>subject.
                    if \<not> subject then set_threshold_and_clear a
                    else
                      bindS (pretx_reserve a) (\<lambda>reserve.
                        if a = rb_sender rb then
                          (if rb_sender_can_dip rb then set_threshold_and_clear a
                           else if rb_sender_gas_fees rb > reserve
                           then thenS (set_threshold a None) (failed_insert a)
                           else
                             thenS (set_threshold a (Some (reserve - rb_sender_gas_fees rb)))
                               (check_threshold a (reserve - rb_sender_gas_fees rb)))
                        else
                          thenS (set_threshold a (Some reserve)) (check_threshold a reserve)))))))"

definition on_credit :: "address \<Rightarrow> unit st" where
  "on_credit a =
     bindS (getS st_rb) (\<lambda>rb.
       if \<not> rb_tracking_enabled rb then returnS ()
       else if a \<in> set (rb_failed rb) then update_violation_status a
       else returnS ())"

definition on_debit :: "address \<Rightarrow> unit st" where
  "on_debit a = update_violation_status a"

definition on_pop_reject :: "address list \<Rightarrow> unit st" where
  "on_pop_reject accounts =
     bindS (getS st_rb) (\<lambda>rb.
       if \<not> rb_tracking_enabled rb then returnS ()
       else forS accounts (\<lambda>a. thenS (set_threshold a None) (update_violation_status a)))"

definition on_set_code :: "address \<Rightarrow> bytes \<Rightarrow> unit st" where
  "on_set_code a c =
     bindS (getS st_rb) (\<lambda>rb.
       if \<not> rb_tracking_enabled rb then returnS ()
       else if \<not> rb_use_recent_code_hash rb then returnS ()
       else if is_smart_contract_code c then set_threshold_and_clear a
       else thenS (set_threshold a None) (update_violation_status a))"

definition init_from_tx ::
  "traits \<Rightarrow> address \<Rightarrow> transaction \<Rightarrow> u256 option \<Rightarrow> nat \<Rightarrow> chain_context \<Rightarrow> unit st" where
  "init_from_tx tr sender tx base_fee i ctx =
     thenS (modify_rb (\<lambda>rb. rb\<lparr>rb_state_tracer := True\<rparr>))
     (case monad_rev tr of
        None \<Rightarrow> liftS (Inl AssertFail)
      | Some r \<Rightarrow>
          if r < MONAD_FOUR then
            modify_rb (\<lambda>rb. rb\<lparr>rb_tracking_enabled := False, rb_use_recent_code_hash := False,
              rb_allow_init_selfdestruct_exemption := False, rb_sender := 0,
              rb_sender_gas_fees := 0, rb_sender_can_dip := False, rb_get_max_reserve := None,
              rb_failed := []\<rparr>)
          else
            thenS (assertS (i < length (senders ctx)))
            (thenS (assertS (i < length (authorities ctx)))
            (thenS (assertS (length (senders ctx) = length (authorities ctx)))
            (thenS (modify_rb (\<lambda>rb. rb\<lparr>rb_use_recent_code_hash := (r \<ge> MONAD_EIGHT),
                rb_allow_init_selfdestruct_exemption := (r \<ge> MONAD_NINE)\<rparr>))
            (bindS (if r \<ge> MONAD_EIGHT then get_code_hash sender
                    else bindS (original_account_state sender) (\<lambda>o'. returnS (as_get_code_hash o')))
              (\<lambda>sender_code_hash.
            bindS (is_delegated_hash sender_code_hash) (\<lambda>delegated.
            bindS (liftS (gas_price tr tx (value_or base_fee 0))) (\<lambda>price.
              modify_rb (\<lambda>rb. rb\<lparr>rb_tracking_enabled := True, rb_sender := sender,
                rb_sender_gas_fees := ucast (tx_gas_limit tx) * price,
                rb_sender_can_dip := can_sender_dip_into_reserve sender i delegated ctx,
                rb_get_max_reserve := Some (get_max_reserve r),
                rb_failed := [], rb_violation_thresholds := []\<rparr>)))))))))"

text \<open>Only the Monad instantiations exist; an EVM one is a compile-time error.\<close>

section \<open>The decision from the final state\<close>

text \<open>One iteration of the loop of \<open>dipped_into_reserve\<close>; \<open>True\<close> is the early return.\<close>

definition dipped_account ::
  "monad_revision \<Rightarrow> address \<Rightarrow> u256 \<Rightarrow> nat \<Rightarrow> chain_context \<Rightarrow>
     address \<times> account_state version_stack \<Rightarrow> bool st" where
  "dipped_account r sender gas_fees i ctx = (\<lambda>(a, cur_account).
     bindS (find_original a) (\<lambda>it.
     case it of
       None \<Rightarrow> liftS (Inl AssertFail)
     | Some orig \<Rightarrow>
         bindS (if r \<ge> MONAD_EIGHT
                then bindS (liftS (vs_recent cur_account)) (\<lambda>st. returnS (as_get_code_hash st))
                else returnS (as_get_code_hash orig)) (\<lambda>effective_code_hash.
         if a = STAKING_CA then returnS False
         else
           bindS (is_delegated_hash effective_code_hash) (\<lambda>effective_is_delegated.
           bindS
             (if effective_code_hash \<noteq> NULL_HASH then returnS (\<not> effective_is_delegated)
              else if r \<ge> MONAD_NINE
              then bindS (is_destructed a) (\<lambda>d.
                     if d then is_current_incarnation a else returnS False)
              else returnS False) (\<lambda>skip.
             if skip then returnS False
             else
               bindS (get_original_balance a) (\<lambda>orig_balance.
               let reserve = min (get_max_reserve r a) orig_balance;
                   violation_threshold =
                     (if a = sender
                      then (if gas_fees > reserve then None else Some (reserve - gas_fees))
                      else Some reserve)
               in bindS (get_balance a) (\<lambda>curr_balance.
                  if (case violation_threshold of None \<Rightarrow> True | Some t \<Rightarrow> curr_balance < t) then
                    (if a = sender
                     then returnS (\<not> can_sender_dip_into_reserve sender i effective_is_delegated ctx)
                     else thenS (assertS (violation_threshold \<noteq> None)) (returnS True))
                  else returnS False)))))))"

fun any_dipped ::
  "(address \<times> account_state version_stack \<Rightarrow> bool st) \<Rightarrow>
     (address \<times> account_state version_stack) list \<Rightarrow> bool st" where
  "any_dipped f [] = returnS False"
| "any_dipped f (x # xs) = bindS (f x) (\<lambda>b. if b then returnS True else any_dipped f xs)"

definition dipped_into_reserve ::
  "traits \<Rightarrow> address \<Rightarrow> transaction \<Rightarrow> u256 \<Rightarrow> nat \<Rightarrow> chain_context \<Rightarrow> bool st" where
  "dipped_into_reserve tr sender tx base_fee i ctx =
     (case monad_rev tr of
        None \<Rightarrow> liftS (Inl AssertFail)
      | Some r \<Rightarrow>
          thenS (assertS (i < length (senders ctx)))
          (thenS (assertS (i < length (authorities ctx)))
          (thenS (assertS (length (senders ctx) = length (authorities ctx)))
          (bindS (liftS (gas_price tr tx base_fee)) (\<lambda>price.
           bindS (getS st_current) (\<lambda>current.
             any_dipped (dipped_account r sender (ucast (tx_gas_limit tx) * price) i ctx)
               current)))))) "

definition revert_transaction ::
  "traits \<Rightarrow> address \<Rightarrow> transaction \<Rightarrow> u256 \<Rightarrow> nat \<Rightarrow> chain_context \<Rightarrow> bool st" where
  "revert_transaction tr sender tx base_fee i ctx =
     (if monad_rev_ge tr MONAD_FOUR then dipped_into_reserve tr sender tx base_fee i ctx
      else returnS False)"

definition dipped_into_reserve_cached :: "bool st" where
  "dipped_into_reserve_cached =
     bindS tracking_enabled (\<lambda>e. thenS (assertS e) has_violation)"

definition revert_transaction_cached :: "traits \<Rightarrow> bool st" where
  "revert_transaction_cached tr =
     (if monad_rev_ge tr MONAD_FOUR then dipped_into_reserve_cached else returnS False)"

end
