(* ===== verification/State_Ops.thy ===== *)
theory State_Ops
  imports Reserve_Balance
begin

text \<open>
  The operations of \<open>State\<close> that write (\<open>category/execution/ethereum/state3/state.cpp\<close>): call
  frames, accounts, storage, self-destruction, code and logs. \<open>keccak256\<close> is library code and a
  parameter of \<open>set_code\<close>.
\<close>

section \<open>Frames\<close>

definition current_frame_dirty_accounts :: "address list st" where
  "current_frame_dirty_accounts =
     bindS (getS st_version) (\<lambda>version.
     bindS (getS st_dirty) (\<lambda>dirty.
     thenS (assertS (version \<noteq> 0))
     (thenS (assertS (length dirty = version))
     (case dirty of [] \<Rightarrow> liftS (Inl AssertFail) | back # rest \<Rightarrow> returnS back))))"

definition push :: "unit st" where
  "push =
     bindS (getS st_dirty) (\<lambda>dirty.
     bindS (getS st_version) (\<lambda>version.
     thenS (assertS (length dirty = version))
     (modifyS (\<lambda>s. s\<lparr>st_version := st_version s + 1, st_dirty := [] # st_dirty s\<rparr>))))"

text \<open>
  The common opening of \<open>pop_accept\<close> and \<open>pop_reject\<close>: take the back of \<open>dirty_\<close>.
\<close>

definition take_dirty :: "address list st" where
  "take_dirty =
     bindS (getS st_dirty) (\<lambda>dirty.
     bindS (getS st_version) (\<lambda>version.
     thenS (assertS (version \<noteq> 0))
     (thenS (assertS (length dirty = version))
     (thenS (modifyS (\<lambda>s. s\<lparr>st_dirty := tl dirty\<rparr>)) (returnS (hd dirty))))))"

definition pop_accept_account :: "address \<Rightarrow> unit st" where
  "pop_accept_account a =
     bindS (find_current a) (\<lambda>it.
     case it of
       None \<Rightarrow> liftS (Inl AssertFail)
     | Some stack \<Rightarrow>
         bindS (getS st_version) (\<lambda>version.
         bindS (liftS (vs_pop_accept version stack)) (\<lambda>stack'.
         thenS (put_stack a stack')
           (modifyS (\<lambda>s. s\<lparr>st_dirty := mark_dirty a (st_dirty s)\<rparr>)))))"

definition pop_accept :: "unit st" where
  "pop_accept =
     bindS take_dirty (\<lambda>accounts.
     thenS (forS accounts pop_accept_account)
     (bindS (getS st_version) (\<lambda>version.
     bindS (getS st_logs) (\<lambda>ls.
     bindS (liftS (vs_pop_accept version ls)) (\<lambda>ls'.
       modifyS (\<lambda>s. s\<lparr>st_logs := ls', st_version := version - 1\<rparr>))))))"

text \<open>
  An entry whose stack becomes empty is collected in \<open>removals\<close>; until it is erased after the
  loop it stays in the map with an empty stack.
\<close>

definition pop_reject_account :: "address \<Rightarrow> unit st" where
  "pop_reject_account a =
     bindS (find_current a) (\<lambda>it.
     case it of
       None \<Rightarrow> liftS (Inl AssertFail)
     | Some stack \<Rightarrow>
         bindS (getS st_version) (\<lambda>version.
         bindS (liftS (vs_pop_reject version stack)) (\<lambda>(empty, stack').
           put_stack a stack')))"

definition erase_empty :: "address \<Rightarrow> unit st" where
  "erase_empty a =
     bindS (find_current a) (\<lambda>it.
       if it = Some [] then modifyS (\<lambda>s. s\<lparr>st_current := AList.delete a (st_current s)\<rparr>)
       else returnS ())"

definition pop_reject :: "unit st" where
  "pop_reject =
     bindS take_dirty (\<lambda>accounts.
     thenS (forS accounts pop_reject_account)
     (bindS (getS st_version) (\<lambda>version.
     bindS (getS st_logs) (\<lambda>ls.
     bindS (liftS (vs_pop_reject version ls)) (\<lambda>(empty, ls').
     thenS (modifyS (\<lambda>s. s\<lparr>st_logs := ls'\<rparr>))
     (thenS (forS accounts erase_empty)
     (thenS (on_pop_reject accounts)
     (modifyS (\<lambda>s. s\<lparr>st_version := version - 1\<rparr>)))))))))"

section \<open>Accounts\<close>

text \<open>\<open>if (!account.has_value()) account = Account{.incarnation = incarnation_}\<close>\<close>

definition account_or_new :: "incarnation \<Rightarrow> account option \<Rightarrow> account" where
  "account_or_new inc account = (case account of None \<Rightarrow> new_account inc | Some acct \<Rightarrow> acct)"

definition set_nonce :: "address \<Rightarrow> u64 \<Rightarrow> unit st" where
  "set_nonce a n =
     bindS (current_account a) (\<lambda>account.
     bindS (getS st_incarnation) (\<lambda>inc.
       set_account a (Some ((account_or_new inc account)\<lparr>nonce := n\<rparr>))))"

definition add_to_balance :: "address \<Rightarrow> u256 \<Rightarrow> unit st" where
  "add_to_balance a delta =
     bindS (current_account a) (\<lambda>account.
     bindS (getS st_incarnation) (\<lambda>inc.
     let acct = account_or_new inc account in
     thenS (throwS (- 1 - delta \<ge> balance acct) ''balance overflow'')
     (thenS (set_account a (Some (acct\<lparr>balance := balance acct + delta\<rparr>)))
     (thenS (modify_current a touch_substate)
       (on_credit a)))))"

definition subtract_from_balance :: "address \<Rightarrow> u256 \<Rightarrow> unit st" where
  "subtract_from_balance a delta =
     bindS (current_account a) (\<lambda>account.
     bindS (getS st_incarnation) (\<lambda>inc.
     let acct = account_or_new inc account in
     thenS (throwS (delta \<le> balance acct) ''balance underflow'')
     (thenS (set_account a (Some (acct\<lparr>balance := balance acct - delta\<rparr>)))
     (thenS (modify_current a touch_substate)
       (on_debit a)))))"

definition touch :: "address \<Rightarrow> unit st" where
  "touch a = bindS (current_account_state a) (\<lambda>st. modify_current a touch_substate)"

definition access_account :: "address \<Rightarrow> monad_access_status st" where
  "access_account a =
     bindS (current_account_state a) (\<lambda>st.
     thenS (modify_current a (\<lambda>st. snd (access_substate st))) (returnS (fst (access_substate st))))"

definition create_contract :: "address \<Rightarrow> unit st" where
  "create_contract a =
     bindS (current_account a) (\<lambda>account.
     bindS (getS st_incarnation) (\<lambda>inc.
       case account of
         Some acct \<Rightarrow>
           thenS (assertS (nonce acct = 0))
           (thenS (assertS (code_hash acct = NULL_HASH))
           (set_account a (Some (acct\<lparr>incarnation := inc\<rparr>))))
       | None \<Rightarrow> set_account a (Some (new_account inc))))"

definition create_account_no_rollback :: "address \<Rightarrow> unit st" where
  "create_account_no_rollback a =
     bindS (current_account a) (\<lambda>account.
     thenS (assertS (account = None))
     (bindS (getS st_incarnation) (\<lambda>inc.
       set_account a (Some (new_account (Incarnation (get_block inc) LAST_TX))))))"

definition set_to_state_incarnation :: "address \<Rightarrow> unit st" where
  "set_to_state_incarnation a =
     bindS (current_account a) (\<lambda>account.
     bindS (getS st_incarnation) (\<lambda>inc.
       set_account a (Some ((account_or_new inc account)\<lparr>incarnation := inc\<rparr>))))"

section \<open>Storage\<close>

definition set_storage :: "address \<Rightarrow> bytes32 \<Rightarrow> bytes32 \<Rightarrow> monad_storage_status st" where
  "set_storage a key value =
     bindS (current_account_state a) (\<lambda>st.
     case as_account st of
       None \<Rightarrow> liftS (Inl AssertFail)
     | Some account \<Rightarrow>
         bindS (original_account_state a) (\<lambda>orig.
         bindS (read_original_storage a (incarnation account) key) (\<lambda>original_value.
         thenS (modify_current a (\<lambda>st. snd (as_set_storage key value original_value st)))
           (returnS (fst (as_set_storage key value original_value st))))))"

definition set_transient_storage :: "address \<Rightarrow> bytes32 \<Rightarrow> bytes32 \<Rightarrow> unit st" where
  "set_transient_storage a key value =
     bindS (current_account_state a) (\<lambda>st.
       modify_current a (as_set_transient_storage key value))"

definition access_storage :: "traits \<Rightarrow> address \<Rightarrow> bytes32 \<Rightarrow> monad_access_status st" where
  "access_storage tr a key =
     bindS (current_account_state a) (\<lambda>st.
     thenS (modify_current a (\<lambda>st. snd (access_storage_key key st)))
     (if mip_8_active tr then
        thenS (modify_current a (\<lambda>st.
                 st\<lparr>as_page_tracker := snd (access_page key (as_page_tracker st))\<rparr>))
          (returnS (fst (access_page key (as_page_tracker st))))
      else returnS (fst (access_storage_key key st))))"

definition update_page ::
  "address \<Rightarrow> bytes32 \<Rightarrow> monad_storage_status \<Rightarrow> page_storage_status st" where
  "update_page a key status =
     bindS (current_account_state a) (\<lambda>st.
     thenS (modify_current a (\<lambda>st.
              st\<lparr>as_page_tracker := snd (update_page_tracker key status (as_page_tracker st))\<rparr>))
       (returnS (fst (update_page_tracker key status (as_page_tracker st)))))"

section \<open>Self-destruction\<close>

definition selfdestruct :: "traits \<Rightarrow> address \<Rightarrow> address \<Rightarrow> (bool \<times> u256) st" where
  "selfdestruct tr a beneficiary_address =
     bindS (current_account_state a) (\<lambda>_.
     bindS (get_balance a) (\<lambda>bal.
     thenS
       (if evm_rev tr < MONAD_ETH_CANCUN then
          thenS (if a \<noteq> beneficiary_address then add_to_balance beneficiary_address bal
                 else returnS ())
            (subtract_from_balance a bal)
        else
          bindS (if a \<noteq> beneficiary_address then returnS True else is_current_incarnation a)
            (\<lambda>move.
             if move then
               thenS (if a \<noteq> beneficiary_address then add_to_balance beneficiary_address bal
                      else returnS ())
                 (subtract_from_balance a bal)
             else returnS ()))
     (bindS (recent_account_state a) (\<lambda>st.
      thenS (modify_current a (\<lambda>st. snd (destruct st)))
      (thenS (on_debit a)
        (returnS (fst (destruct st), bal)))))))"

text \<open>
  One iteration of the two loops over \<open>current_\<close> at the end of a transaction. From Cancun on the
  first loop dereferences \<open>account\<close> without a check; an empty one is a failure of the model.
\<close>

definition destruct_suicide ::
  "traits \<Rightarrow> incarnation \<Rightarrow> account_state version_stack \<Rightarrow> account_state version_stack res" where
  "destruct_suicide tr inc stack =
     MONAD_ASSERT (vs_size stack = 1)
       (Try (vs_version stack) (\<lambda>v.
        MONAD_ASSERT (v = 0)
          (Try (vs_current 0 stack) (\<lambda>(st, stack').
             if destructed st then
               (if evm_rev tr < MONAD_ETH_CANCUN
                then Inr (vs_store (st\<lparr>as_account := None\<rparr>) stack')
                else
                  (case as_account st of
                     None \<Rightarrow> Inl AssertFail
                   | Some acct \<Rightarrow>
                       if incarnation acct = inc
                       then Inr (vs_store (st\<lparr>as_account := None\<rparr>) stack')
                       else Inr stack'))
             else Inr stack'))))"

definition destruct_dead :: "account_state version_stack \<Rightarrow> account_state version_stack res" where
  "destruct_dead stack =
     MONAD_ASSERT (vs_size stack = 1)
       (Try (vs_version stack) (\<lambda>v.
        MONAD_ASSERT (v = 0)
          (Try (vs_current 0 stack) (\<lambda>(st, stack').
             if \<not> touched st then Inr stack'
             else if is_dead (as_account st)
             then Inr (vs_store (st\<lparr>as_account := None\<rparr>) stack')
             else Inr stack'))))"

fun map_res :: "('v \<Rightarrow> 'w res) \<Rightarrow> ('k \<times> 'v) list \<Rightarrow> ('k \<times> 'w) list res" where
  "map_res f [] = Inr []"
| "map_res f ((k, v) # m) =
     Try (f v) (\<lambda>w. Try (map_res f m) (\<lambda>m'. Inr ((k, w) # m')))"

definition destruct_suicides :: "traits \<Rightarrow> unit st" where
  "destruct_suicides tr =
     bindS (getS st_version) (\<lambda>version.
     thenS (assertS (version = 0))
     (bindS (getS st_incarnation) (\<lambda>inc.
      bindS (getS st_current) (\<lambda>current.
      bindS (liftS (map_res (destruct_suicide tr inc) current)) (\<lambda>m.
        modifyS (\<lambda>s. s\<lparr>st_current := m\<rparr>))))))"

definition destruct_touched_dead :: "unit st" where
  "destruct_touched_dead =
     bindS (getS st_version) (\<lambda>version.
     thenS (assertS (version = 0))
     (bindS (getS st_current) (\<lambda>current.
      bindS (liftS (map_res destruct_dead current)) (\<lambda>m.
        modifyS (\<lambda>s. s\<lparr>st_current := m\<rparr>)))))"

section \<open>Code and logs\<close>

text \<open>\<open>code_[code_hash] = vm().try_insert_varcode_raw(code_hash, code)\<close>\<close>

definition insert_code :: "bytes32 \<Rightarrow> bytes \<Rightarrow> unit st" where
  "insert_code hash c =
     bindS (lift_bs (\<lambda>bs. case try_insert_varcode_raw hash c (bs_vm bs) of
              (vcode, vm) \<Rightarrow> (vcode, bs\<lparr>bs_vm := vm\<rparr>))) (\<lambda>vcode.
     modifyS (\<lambda>s. s\<lparr>st_code := AList.update hash vcode (st_code s)\<rparr>))"

definition set_code :: "(bytes \<Rightarrow> bytes32) \<Rightarrow> address \<Rightarrow> bytes \<Rightarrow> unit st" where
  "set_code keccak256 a c =
     bindS (current_account a) (\<lambda>account.
     case account of
       None \<Rightarrow> returnS ()
     | Some acct \<Rightarrow>
         (let hash = keccak256 c in
          thenS (insert_code hash c)
          (thenS (set_account a (Some (acct\<lparr>code_hash := hash\<rparr>)))
            (on_set_code a c))))"

definition store_log :: "log \<Rightarrow> unit st" where
  "store_log l =
     bindS (getS st_version) (\<lambda>version.
     bindS (getS st_logs) (\<lambda>stack.
     bindS (liftS (vs_current version stack)) (\<lambda>(ls, stack').
       modifyS (\<lambda>s. s\<lparr>st_logs := vs_store (ls @ [l]) stack'\<rparr>))))"

end
