(* ===== verification/State_Relations.thy ===== *)
theory State_Relations
  imports State_Ops
begin

text \<open>
  A relation between the state before and after a run that the primitives of \<open>State\<close> keep is kept
  by every operation: the look-ups, the flags and slots of \<open>original_\<close>, writes to the entry of the
  current version, code, logs and the tracker are the only ways in which the operations reach the
  members. The locale \<open>state_read_relation\<close> states this for the operations that read and for the
  reserve-balance tracker, \<open>state_write_relation\<close> extends it to those that write and
  \<open>state_relation\<close> to the one that deploys code; the later theories interpret them with the relations
  they need. Frames (\<open>push\<close>, \<open>pop_accept\<close>, \<open>pop_reject\<close>) and the two loops at the end of a transaction
  are not among these operations.
\<close>

locale state_read_relation = program_relation R for R :: "tx_state \<Rightarrow> tx_state \<Rightarrow> bool" +
  assumes keeps_original: "keeps R (original_account_state a)"
    and keeps_original_flags: "(\<And>o'. slice (f o') = slice o') \<Longrightarrow> keeps R (modify_original a f)"
    and keeps_original_storage: "keeps R (read_original_storage a inc key)"
    and keeps_bs_code: "keeps R (lift_bs_res (bs_read_code hash))"
    and keeps_rb: "keeps R (modify_rb g)"
begin

subsection \<open>Reading\<close>

lemma keeps_exact: "keeps R (modify_original a set_validate_exact_balance)"
  by (rule keeps_original_flags)
    (simp add: set_validate_exact_balance_def account_state.truncate_def)

lemma keeps_pessimistic: "keeps R (modify_original a (\<lambda>o'. snd (get_balance_pessimistic o')))"
  by (rule keeps_original_flags)
    (simp add: get_balance_pessimistic_def set_validate_exact_balance_def
      account_state.truncate_def)

lemma keeps_min_balance: "keeps R (modify_original a (\<lambda>o'. o'\<lparr>min_balance := m\<rparr>))"
  by (rule keeps_original_flags) (simp add: account_state.truncate_def)

lemmas keeps_prims =
  keeps_rules keeps_original keeps_exact keeps_pessimistic keeps_min_balance
  keeps_original_storage keeps_bs_code keeps_rb

lemma keeps_recent: "keeps R (recent_account_state a)"
  unfolding recent_account_state_def find_current_def by (intro keeps_prims)

lemma keeps_recent_account: "keeps R (recent_account a)"
  unfolding recent_account_def by (intro keeps_prims keeps_recent)

lemma keeps_read_code: "keeps R (read_code hash)"
  unfolding read_code_def by (intro keeps_prims)

lemmas keeps_lookups =
  keeps_prims keeps_recent keeps_recent_account keeps_read_code

lemma keeps_account_exists: "keeps R (account_exists a)"
  unfolding account_exists_def by (intro keeps_lookups)

lemma keeps_account_is_dead: "keeps R (account_is_dead a)"
  unfolding account_is_dead_def by (intro keeps_lookups)

lemma keeps_account_has_code_or_nonce: "keeps R (account_has_code_or_nonce a)"
  unfolding account_has_code_or_nonce_def by (intro keeps_lookups)

lemma keeps_get_nonce: "keeps R (get_nonce a)"
  unfolding get_nonce_def by (intro keeps_lookups)

lemma keeps_get_balance: "keeps R (get_balance a)"
  unfolding get_balance_def by (intro keeps_lookups)

lemma keeps_get_original_balance: "keeps R (get_original_balance a)"
  unfolding get_original_balance_def by (intro keeps_lookups)

lemma keeps_get_code_hash: "keeps R (get_code_hash a)"
  unfolding get_code_hash_def by (intro keeps_lookups)

lemma keeps_is_destructed: "keeps R (is_destructed a)"
  unfolding is_destructed_def by (intro keeps_lookups)

lemma keeps_is_current_incarnation: "keeps R (is_current_incarnation a)"
  unfolding is_current_incarnation_def by (intro keeps_lookups)

lemma keeps_get_storage: "keeps R (get_storage a key)"
  unfolding get_storage_def find_current_def find_original_def by (intro keeps_lookups)

lemma keeps_get_transient_storage: "keeps R (get_transient_storage a key)"
  unfolding get_transient_storage_def by (intro keeps_lookups)

lemma keeps_is_touched: "keeps R (is_touched a)"
  unfolding is_touched_def find_current_def by (intro keeps_lookups)

lemma keeps_get_code: "keeps R (get_code a)"
  unfolding get_code_def by (intro keeps_lookups)

lemma keeps_get_code_size: "keeps R (get_code_size a)"
  unfolding get_code_size_def by (intro keeps_lookups)

lemma keeps_copy_code: "keeps R (copy_code a offset sz)"
  unfolding copy_code_def by (intro keeps_lookups)

lemma keeps_logs: "keeps R logs"
  unfolding logs_def by (intro keeps_lookups)

lemma keeps_record_balance_constraint: "keeps R (record_balance_constraint_for_debit a d)"
  unfolding record_balance_constraint_for_debit_def by (intro keeps_lookups)

subsection \<open>The tracker\<close>

lemma keeps_is_delegated_hash: "keeps R (is_delegated_hash h)"
  unfolding is_delegated_hash_def by (intro keeps_lookups)

lemma keeps_set_threshold: "keeps R (set_threshold a t)"
  unfolding set_threshold_def by (rule keeps_rb)

lemma keeps_failed_insert: "keeps R (failed_insert a)"
  unfolding failed_insert_def by (rule keeps_rb)

lemma keeps_failed_erase: "keeps R (failed_erase a)"
  unfolding failed_erase_def by (rule keeps_rb)

lemma keeps_get_threshold: "keeps R (get_threshold a)"
  unfolding get_threshold_def by (intro keeps_lookups keeps_set_threshold)

lemma keeps_subject_account: "keeps R (subject_account a)"
  unfolding subject_account_def by (intro keeps_lookups keeps_get_code_hash keeps_is_delegated_hash)

lemma keeps_pretx_reserve: "keeps R (pretx_reserve a)"
  unfolding pretx_reserve_def by (intro keeps_lookups keeps_get_original_balance)

lemma keeps_set_threshold_and_clear: "keeps R (set_threshold_and_clear a)"
  unfolding set_threshold_and_clear_def
  by (intro keeps_lookups keeps_set_threshold keeps_failed_erase)

lemma keeps_check_threshold: "keeps R (check_threshold a t)"
  unfolding check_threshold_def
  by (intro keeps_lookups keeps_get_balance keeps_failed_erase keeps_failed_insert)

lemma keeps_update_violation_status: "keeps R (update_violation_status a)"
  unfolding update_violation_status_def
  by (intro keeps_lookups keeps_get_threshold keeps_is_destructed keeps_is_current_incarnation
      keeps_set_threshold_and_clear keeps_check_threshold keeps_subject_account
      keeps_pretx_reserve keeps_set_threshold keeps_failed_insert)

lemma keeps_on_credit: "keeps R (on_credit a)"
  unfolding on_credit_def by (intro keeps_lookups keeps_update_violation_status)

lemma keeps_on_debit: "keeps R (on_debit a)"
  unfolding on_debit_def by (rule keeps_update_violation_status)

lemma keeps_on_set_code: "keeps R (on_set_code a c)"
  unfolding on_set_code_def
  by (intro keeps_lookups keeps_update_violation_status keeps_set_threshold_and_clear
      keeps_set_threshold)

lemma keeps_on_pop_reject: "keeps R (on_pop_reject as)"
  unfolding on_pop_reject_def
  by (intro keeps_lookups keeps_update_violation_status keeps_set_threshold)

lemma keeps_init_from_tx: "keeps R (init_from_tx tr sender tx fee i ctx)"
  unfolding init_from_tx_def
  by (intro keeps_lookups keeps_get_code_hash keeps_is_delegated_hash)

lemma keeps_dipped_account: "keeps R (dipped_account r sender fees i ctx p)"
  unfolding dipped_account_def find_original_def
  by (intro keeps_lookups keeps_is_delegated_hash keeps_is_destructed keeps_is_current_incarnation
      keeps_get_original_balance keeps_get_balance)

lemma keeps_any_dipped: "(\<And>p. keeps R (f p)) \<Longrightarrow> keeps R (any_dipped f ps)"
  by (induction ps) (auto intro!: keeps_lookups)

lemma keeps_revert_transaction: "keeps R (revert_transaction tr sender tx fee i ctx)"
  unfolding revert_transaction_def dipped_into_reserve_def
  by (intro keeps_lookups keeps_any_dipped keeps_dipped_account)

lemma keeps_revert_transaction_cached: "keeps R (revert_transaction_cached tr)"
  unfolding revert_transaction_cached_def dipped_into_reserve_cached_def tracking_enabled_def
    has_violation_def
  by (intro keeps_lookups)

lemmas keeps_reads =
  keeps_account_exists keeps_account_is_dead keeps_account_has_code_or_nonce keeps_get_nonce
  keeps_get_balance keeps_get_original_balance keeps_get_code_hash keeps_is_destructed
  keeps_is_current_incarnation keeps_get_storage keeps_get_transient_storage keeps_is_touched
  keeps_get_code keeps_get_code_size keeps_copy_code keeps_logs keeps_record_balance_constraint
  keeps_read_code keeps_init_from_tx keeps_revert_transaction keeps_revert_transaction_cached

end

locale state_write_relation = state_read_relation +
  assumes keeps_current: "keeps R (current_account_state a)"
    and keeps_modify: "keeps R (modify_current a h)"
    and keeps_log: "keeps R (store_log l)"
begin

lemma keeps_current_account: "keeps R (current_account a)"
  unfolding current_account_def by (intro keeps_prims keeps_current)

lemma keeps_set_account: "keeps R (set_account a acct)"
  unfolding set_account_def by (rule keeps_modify)

lemmas keeps_writes =
  keeps_lookups keeps_current keeps_modify keeps_log keeps_current_account
  keeps_set_account

lemma keeps_set_nonce: "keeps R (set_nonce a n)"
  unfolding set_nonce_def by (intro keeps_writes)

lemma keeps_add_to_balance: "keeps R (add_to_balance a d)"
  unfolding add_to_balance_def by (intro keeps_writes keeps_on_credit)

lemma keeps_subtract_from_balance: "keeps R (subtract_from_balance a d)"
  unfolding subtract_from_balance_def by (intro keeps_writes keeps_on_debit)

lemma keeps_touch: "keeps R (touch a)"
  unfolding touch_def by (intro keeps_writes)

lemma keeps_access_account: "keeps R (access_account a)"
  unfolding access_account_def by (intro keeps_writes)

lemma keeps_create_contract: "keeps R (create_contract a)"
  unfolding create_contract_def by (intro keeps_writes)

lemma keeps_create_account_no_rollback: "keeps R (create_account_no_rollback a)"
  unfolding create_account_no_rollback_def by (intro keeps_writes)

lemma keeps_set_to_state_incarnation: "keeps R (set_to_state_incarnation a)"
  unfolding set_to_state_incarnation_def by (intro keeps_writes)

lemma keeps_set_storage: "keeps R (set_storage a key v)"
  unfolding set_storage_def by (intro keeps_writes)

lemma keeps_set_transient_storage: "keeps R (set_transient_storage a key v)"
  unfolding set_transient_storage_def by (intro keeps_writes)

lemma keeps_access_storage: "keeps R (access_storage tr a key)"
  unfolding access_storage_def by (intro keeps_writes)

lemma keeps_update_page: "keeps R (update_page a key status)"
  unfolding update_page_def by (intro keeps_writes)

lemma keeps_selfdestruct: "keeps R (selfdestruct tr a b)"
  unfolding selfdestruct_def
  by (intro keeps_writes keeps_get_balance keeps_add_to_balance keeps_subtract_from_balance
      keeps_is_current_incarnation keeps_on_debit)

lemmas keeps_write_ops =
  keeps_reads keeps_set_nonce keeps_add_to_balance keeps_subtract_from_balance keeps_touch
  keeps_access_account keeps_create_contract keeps_create_account_no_rollback
  keeps_set_to_state_incarnation keeps_set_storage keeps_set_transient_storage
  keeps_access_storage keeps_update_page keeps_selfdestruct keeps_log

end

locale state_relation = state_write_relation +
  assumes keeps_insert_code: "keeps R (insert_code hash c)"
begin

lemma keeps_set_code: "keeps R (set_code keccak256 a c)"
  unfolding set_code_def by (intro keeps_writes keeps_insert_code keeps_on_set_code)

lemmas keeps_ops = keeps_write_ops keeps_set_code

end

end
