(* ===== verification/State_Frames.thy ===== *)
theory State_Frames
  imports State_Relations
begin

text \<open>
  Call frames of \<open>State\<close>: the invariant that ties \<open>dirty_\<close>, \<open>version_\<close> and the version stacks
  together, and the relation \<open>framed n\<close>, which says that what the \<open>n\<close> outermost frames hold is
  untouched. Every operation keeps \<open>framed n\<close>; the rollback theorem of theory \<open>Client\<close> is a
  consequence.
\<close>

section \<open>The invariant\<close>

definition stk :: "tx_state \<Rightarrow> address \<Rightarrow> account_state version_stack" where
  "stk s a = (case map_of (st_current s) a of None \<Rightarrow> [] | Some stack \<Rightarrow> stack)"

definition versions :: "'a version_stack \<Rightarrow> nat set" where
  "versions stack = fst ` set stack"

lemma versions_simps [simp]:
  "versions [] = {}" "versions ((v, x) # stack) = insert v (versions stack)"
  by (auto simp: versions_def)

text \<open>
  The dirty set of frame \<open>v\<close> has exactly the accounts with an entry of version \<open>v\<close>.
\<close>

fun dirty_ok :: "nat \<Rightarrow> address list list \<Rightarrow> (address \<Rightarrow> nat set) \<Rightarrow> bool" where
  "dirty_ok n [] vs \<longleftrightarrow> n = 0"
| "dirty_ok n (d # ds) vs \<longleftrightarrow>
     0 < n \<and> distinct d \<and> set d = {a. n \<in> vs a} \<and> dirty_ok (n - 1) ds vs"

definition frames_ok :: "tx_state \<Rightarrow> bool" where
  "frames_ok s \<longleftrightarrow>
     wf_map (st_current s) \<and>
     (\<forall>a stack. map_of (st_current s) a = Some stack \<longrightarrow> vs_ok (st_version s) stack) \<and>
     vs_ok (st_version s) (st_logs s) \<and> 0 \<in> versions (st_logs s) \<and>
     dirty_ok (st_version s) (st_dirty s) (\<lambda>a. versions (stk s a))"

lemma dirty_ok_length: "dirty_ok n ds vs \<Longrightarrow> length ds = n"
  by (induction ds arbitrary: n) force+

lemma dirty_ok_cong:
  assumes "\<And>a v. 0 < v \<Longrightarrow> v \<le> n \<Longrightarrow> v \<in> vs a \<longleftrightarrow> v \<in> vs' a"
  shows "dirty_ok n ds vs = dirty_ok n ds vs'"
  using assms
proof (induction ds arbitrary: n)
  case (Cons d ds)
  have "dirty_ok (n - 1) ds vs = dirty_ok (n - 1) ds vs'"
    by (rule Cons.IH) (use Cons.prems in auto)
  moreover have "0 < n \<Longrightarrow> {a. n \<in> vs a} = {a. n \<in> vs' a}"
    using Cons.prems by auto
  ultimately show ?case by auto
qed simp

lemma vs_ok_versions: "vs_ok n stack \<Longrightarrow> v \<in> versions stack \<Longrightarrow> v \<le> n"
proof (induction n stack rule: vs_ok.induct)
  case (2 n w x stack)
  then show ?case by (cases "stack = []") (auto dest: le_trans)
qed simp

section \<open>The part of a stack below a frame\<close>

fun below :: "nat \<Rightarrow> 'a version_stack \<Rightarrow> 'a version_stack" where
  "below n [] = []"
| "below n ((v, x) # stack) = (if v \<le> n then (v, x) # stack else below n stack)"

lemma below_ok: "vs_ok n stack \<Longrightarrow> below n stack = stack"
  by (cases stack) auto

lemma below_mono_ok: "vs_ok m stack \<Longrightarrow> m \<le> n \<Longrightarrow> below n stack = stack"
  by (rule below_ok) (rule vs_ok_mono)

lemma vs_pop_reject_below:
  assumes "vs_ok (Suc n) stack"
  shows "vs_pop_reject (Suc n) stack = Inr (below n stack = [], below n stack)"
proof (cases stack)
  case (Cons p rest)
  obtain v x where p: "p = (v, x)" by fastforce
  show ?thesis
  proof (cases "v = Suc n")
    case True
    then have "rest = [] \<or> vs_ok n rest" using assms Cons p by auto
    then have "below n rest = rest" by (auto simp: below_ok)
    then show ?thesis using Cons p True by simp
  next
    case False
    then show ?thesis using assms Cons p by auto
  qed
qed (use assms in simp)

lemma below_current:
  "vs_current m stack = Inr (x, stack') \<Longrightarrow> n < m \<Longrightarrow> below n stack' = below n stack"
  by (cases stack) (auto split: if_splits)

lemma below_modify: "n < m \<Longrightarrow> below n (vs_modify m f stack) = below n stack"
  by (cases stack) auto

lemma below_store:
  "vs_version stack = Inr m \<Longrightarrow> n < m \<Longrightarrow> below n (vs_store x stack) = below n stack"
  by (cases stack) auto

lemma below_pop_accept:
  assumes "vs_pop_accept (Suc m) stack = Inr stack'" "n < m"
  shows "below n stack' = below n stack"
proof (cases stack)
  case (Cons p rest)
  obtain v x where p: "p = (v, x)" by fastforce
  show ?thesis
    using assms Cons p by (cases rest) (auto split: if_splits)
qed (use assms in simp)

lemma below_below: "n \<le> m \<Longrightarrow> below n (below m stack) = below n stack"
  by (induction stack) auto

lemma vs_ok_modify [simp]: "vs_ok n (vs_modify m f stack) = vs_ok n stack"
  by (cases stack) (auto split: if_splits)

lemma versions_modify [simp]: "versions (vs_modify m f stack) = versions stack"
  by (cases stack) (auto split: if_splits)

lemma versions_store [simp]: "versions (vs_store x stack) = versions stack"
  by (cases stack) auto

lemma versions_current:
  "vs_current m stack = Inr (x, stack') \<Longrightarrow> vs_ok m stack \<Longrightarrow> versions stack' = insert m (versions stack)"
  by (cases stack) (auto split: if_splits)

lemma versions_below: "vs_ok m stack \<Longrightarrow> v \<in> versions (below n stack) \<longleftrightarrow> v \<in> versions stack \<and> v \<le> n"
proof (induction m stack rule: vs_ok.induct)
  case (2 m w x stack)
  show ?case
  proof (cases "stack = []")
    case False
    with 2 have "vs_ok (w - 1) stack" by simp
    then show ?thesis
      using 2 False vs_ok_versions[of "w - 1" stack v] by auto
  qed auto
qed simp

lemma versions_below_ok:
  "stack = [] \<or> vs_ok m stack \<Longrightarrow> 0 < v \<Longrightarrow> v \<le> n \<Longrightarrow> v \<in> versions (below n stack) \<longleftrightarrow> v \<in> versions stack"
  using versions_below by fastforce

lemma versions_pop_accept:
  assumes "vs_pop_accept (Suc m) stack = Inr stack'" "vs_ok (Suc m) stack"
  shows "v \<le> m \<Longrightarrow> v \<in> versions stack' \<longleftrightarrow> v \<in> versions stack \<or> (v = m \<and> Suc m \<in> versions stack)"
proof -
  assume v: "v \<le> m"
  obtain w x rest where st: "stack = (w, x) # rest"
    using assms(2) by (cases stack) auto
  have r: "rest = [] \<or> vs_ok (w - 1) rest" using assms(2) st by auto
  have n: "Suc m \<notin> versions rest"
  proof
    assume "Suc m \<in> versions rest"
    then have "Suc m \<le> w - 1" "w \<le> Suc m"
      using r vs_ok_versions[of "w - 1" rest "Suc m"] assms(2) st by auto
    then show False by simp
  qed
  show ?thesis
    using assms st v n by (cases rest) (auto split: if_splits)
qed

section \<open>The frame relation\<close>

definition framed :: "nat \<Rightarrow> tx_state \<Rightarrow> tx_state \<Rightarrow> bool" where
  "framed n s t \<longleftrightarrow> (frames_ok s \<longrightarrow>
     frames_ok t \<and> st_version t = st_version s \<and>
     (n < st_version s \<longrightarrow>
       (\<forall>a. below n (stk t a) = below n (stk s a)) \<and>
       below n (st_logs t) = below n (st_logs s) \<and>
       drop (st_version s - n) (st_dirty t) = drop (st_version s - n) (st_dirty s)))"

text \<open>The members that frames are about.\<close>

definition same_frames :: "tx_state \<Rightarrow> tx_state \<Rightarrow> bool" where
  "same_frames s t \<longleftrightarrow>
     st_current t = st_current s \<and> st_logs t = st_logs s \<and> st_version t = st_version s \<and>
     st_dirty t = st_dirty s"

lemma same_frames_framed: "same_frames s t \<Longrightarrow> framed n s t"
  by (simp add: same_frames_def framed_def frames_ok_def stk_def)

lemma keeps_same_frames: "keeps same_frames m \<Longrightarrow> keeps (framed n) m"
  by (auto simp: keeps_def intro: same_frames_framed)

interpretation sfp: program_relation same_frames
  by unfold_locales (auto simp: same_frames_def)

lemma same_frames_modify: "(\<And>s. same_frames s (f s)) \<Longrightarrow> keeps same_frames (modifyS f)"
  by (auto simp: keeps_def modifyS_def)

lemma same_frames_prims:
  "keeps same_frames (lift_bs f)" "keeps same_frames (lift_bs_res g)"
  "keeps same_frames (modify_original a h)" "keeps same_frames (emplace_original a o')"
  "keeps same_frames (modify_rb r)"
  by (auto simp: keeps_def lift_bs_def lift_bs_res_def modify_original_def emplace_original_def
      modify_rb_def modifyS_def same_frames_def split: prod.splits option.splits)

lemma same_frames_original: "keeps same_frames (original_account_state a)"
  unfolding original_account_state_def find_original_def
  by (intro sfp.keeps_rules same_frames_prims)

lemma same_frames_read_original_storage: "keeps same_frames (read_original_storage a inc key)"
  unfolding read_original_storage_def find_original_def
  by (intro sfp.keeps_rules same_frames_prims)

lemma same_frames_insert_code: "keeps same_frames (insert_code hash c)"
  unfolding insert_code_def
  by (intro sfp.keeps_rules same_frames_prims same_frames_modify) (simp add: same_frames_def)

interpretation sfr: state_read_relation same_frames
  by unfold_locales
    (rule same_frames_original same_frames_prims same_frames_read_original_storage)+

subsection \<open>Writing an entry of the current version\<close>

lemma stk_update: "stk (s\<lparr>st_current := AList.update a stack m\<rparr>) b =
    (if b = a then stack else (case map_of m b of None \<Rightarrow> [] | Some st \<Rightarrow> st))"
  by (simp add: stk_def)

lemma framed_modify_current: "keeps (framed n) (modify_current a f)"
proof (rule keepsI)
  fix s x t assume run: "modify_current a f s = Inr (x, t)"
  show "framed n s t"
  proof (cases "map_of (st_current s) a")
    case None
    with run have "same_frames s t" by (simp add: modify_current_def sm_simps same_frames_def)
    then show ?thesis by (rule same_frames_framed)
  next
    case (Some stack)
    then have t: "t = s\<lparr>st_current := AList.update a (vs_modify (st_version s) f stack) (st_current s)\<rparr>"
      using run by (simp add: modify_current_def sm_simps)
    have v: "versions (stk t b) = versions (stk s b)" for b
      using Some by (simp add: t stk_update) (simp add: stk_def)
    have b: "below n (stk t b) = below n (stk s b)" if "n < st_version s" for b
      using Some by (simp add: t stk_update below_modify[OF that]) (simp add: stk_def)
    show ?thesis
      unfolding framed_def
    proof (intro impI conjI allI)
      assume ok: "frames_ok s"
      then show "frames_ok t"
        using Some by (simp add: frames_ok_def v) (simp add: t)
    qed (simp_all add: t b[unfolded t])
  qed
qed

lemma stk_ok: "frames_ok s \<Longrightarrow> stk s a \<noteq> [] \<Longrightarrow> vs_ok (st_version s) (stk s a)"
  by (auto simp: frames_ok_def stk_def split: option.splits)

lemma stk_Nil_iff:
  assumes "frames_ok s"
  shows "stk s a = [] \<longleftrightarrow> map_of (st_current s) a = None"
proof (cases "map_of (st_current s) a")
  case (Some stack)
  then have "vs_ok (st_version s) stack" using assms unfolding frames_ok_def by blast
  then show ?thesis by (auto simp: stk_def Some)
qed (simp add: stk_def)

lemma dirty_ok_mark:
  assumes "dirty_ok n ds vs" "\<And>b. vs' b = (if b = a then insert n (vs a) else vs b)" "\<And>b. \<forall>v \<in> vs b. v \<le> n"
  shows "dirty_ok n (mark_dirty a ds) vs'"
proof (cases ds)
  case (Cons d ds')
  have "dirty_ok (n - 1) ds' vs' = dirty_ok (n - 1) ds' vs"
    by (rule dirty_ok_cong) (use assms(2) in auto)
  then show ?thesis
    using assms Cons by (auto simp: mark_dirty_def)
qed (use assms in \<open>simp add: mark_dirty_def\<close>)

lemma drop_mark_dirty: "0 < k \<Longrightarrow> drop k (mark_dirty a ds) = drop k ds"
  by (cases ds; cases k) (simp_all add: mark_dirty_def)

lemma original_account_state_run:
  "original_account_state a s = Inr (o', t) \<Longrightarrow>
     t = s\<lparr>st_block_state := st_block_state t, st_original := st_original t\<rparr>"
  by (cases "map_of (st_original s) a")
    (auto simp: original_account_state_def find_original_def lift_bs_def
        emplace_original_def sm_simps split: prod.splits)

lemma current_account_state_run:
  assumes "current_account_state a s = Inr (x, t)"
  obtains bs O' stack stack' where
    "t = s\<lparr>st_block_state := bs, st_original := O', st_dirty := mark_dirty a (st_dirty s),
           st_current := AList.update a stack' (st_current s)\<rparr>"
    "vs_current (st_version s) stack = Inr (x, stack')"
    "map_of (st_current s) a = Some stack \<or>
     (map_of (st_current s) a = None \<and> (\<exists>y. stack = VersionStack y (st_version s)))"
proof (cases "map_of (st_current s) a")
  case None
  obtain o' u stack' where u: "original_account_state a s = Inr (o', u)"
    and c: "vs_current (st_version u) (VersionStack (slice o') (st_version u)) = Inr (x, stack')"
    and t: "t = u\<lparr>st_dirty := mark_dirty a (st_dirty u),
                 st_current := AList.update a stack' (st_current u)\<rparr>"
    using assms None
    by (auto simp: current_account_state_def find_current_def put_stack_def sm_simps)
  obtain bs O' where u': "u = s\<lparr>st_block_state := bs, st_original := O'\<rparr>"
    using original_account_state_run[OF u] by blast
  have "t = s\<lparr>st_block_state := bs, st_original := O', st_dirty := mark_dirty a (st_dirty s),
           st_current := AList.update a stack' (st_current s)\<rparr>"
    by (simp add: t u')
  then show thesis by (rule that) (use None c u' in auto)
next
  case (Some stack)
  obtain stack' where c: "vs_current (st_version s) stack = Inr (x, stack')"
    and t: "t = s\<lparr>st_dirty := mark_dirty a (st_dirty s),
                 st_current := AList.update a stack' (st_current s)\<rparr>"
    using assms Some
    by (auto simp: current_account_state_def find_current_def put_stack_def sm_simps)
  have "t = s\<lparr>st_block_state := st_block_state s, st_original := st_original s,
      st_dirty := mark_dirty a (st_dirty s), st_current := AList.update a stack' (st_current s)\<rparr>"
    by (simp add: t)
  then show thesis by (rule that) (use Some c in auto)
qed

lemma framed_current: "keeps (framed n) (current_account_state a)"
proof (rule keepsI)
  fix s x t assume run: "current_account_state a s = Inr (x, t)"
  from run obtain bs O' stack stack' where
    t: "t = s\<lparr>st_block_state := bs, st_original := O', st_dirty := mark_dirty a (st_dirty s),
           st_current := AList.update a stack' (st_current s)\<rparr>"
    and cur: "vs_current (st_version s) stack = Inr (x, stack')"
    and st: "map_of (st_current s) a = Some stack \<or>
     (map_of (st_current s) a = None \<and> (\<exists>y. stack = VersionStack y (st_version s)))"
    by (rule current_account_state_run)
  have stk_t: "stk t b = (if b = a then stack' else stk s b)" for b
    by (simp add: t stk_def)
  show "framed n s t"
    unfolding framed_def
  proof (intro impI conjI allI)
    assume ok: "frames_ok s"
    have vok: "vs_ok (st_version s) stack"
      using st ok by (auto simp: frames_ok_def)
    obtain y s2 where "vs_current (st_version s) stack = Inr (y, s2)" "vs_ok (st_version s) s2"
      by (rule vs_current_ok[OF vok])
    with cur have vok': "vs_ok (st_version s) stack'" by simp
    have vs: "versions stack = versions (stk s a) \<or> versions stack = {st_version s} \<and> stk s a = []"
      using st by (auto simp: stk_def VersionStack_def)
    have vc: "versions stack' = insert (st_version s) (versions (stk s a))"
      using vs by (elim disjE conjE) (simp_all add: versions_current[OF cur vok])
    have "dirty_ok (st_version s) (mark_dirty a (st_dirty s)) (\<lambda>b. versions (stk t b))"
    proof (rule dirty_ok_mark)
      show "dirty_ok (st_version s) (st_dirty s) (\<lambda>b. versions (stk s b))"
        using ok by (simp add: frames_ok_def)
      show "versions (stk t b) =
          (if b = a then insert (st_version s) (versions (stk s a)) else versions (stk s b))" for b
        by (simp add: stk_t vc)
      show "\<forall>v \<in> versions (stk s b). v \<le> st_version s" for b
        using stk_ok[OF ok, of b] vs_ok_versions by (cases "stk s b = []") auto
    qed
    then show "frames_ok t"
      using ok vok' by (simp add: frames_ok_def stk_t) (auto simp: t)
  next
    fix b assume n: "n < st_version s"
    have "below n stack = below n (stk s a)"
      using st n by (auto simp: stk_def VersionStack_def)
    then show "below n (stk t b) = below n (stk s b)"
      using below_current[OF cur n] by (simp add: stk_t)
  next
    assume "n < st_version s"
    then show "drop (st_version s - n) (st_dirty t) = drop (st_version s - n) (st_dirty s)"
      by (simp add: t drop_mark_dirty)
  qed (simp_all add: t)
qed

lemma framed_store_log: "keeps (framed n) (store_log l)"
proof (rule keepsI)
  fix s x t assume run: "store_log l s = Inr (x, t)"
  then obtain ls stack' where cur: "vs_current (st_version s) (st_logs s) = Inr (ls, stack')"
    and t: "t = s\<lparr>st_logs := vs_store (ls @ [l]) stack'\<rparr>"
    by (auto simp: store_log_def sm_simps)
  show "framed n s t"
    unfolding framed_def
  proof (intro impI conjI allI)
    assume ok: "frames_ok s"
    obtain y s2 where "vs_current (st_version s) (st_logs s) = Inr (y, s2)"
      "vs_ok (st_version s) s2" "vs_version s2 = Inr (st_version s)"
      by (rule vs_current_ok[of "st_version s" "st_logs s"]) (use ok in \<open>auto simp: frames_ok_def\<close>)
    with cur have s': "vs_ok (st_version s) stack'" "vs_version stack' = Inr (st_version s)"
      by auto
    have "0 \<in> versions stack'"
      using versions_current[OF cur] ok by (simp add: frames_ok_def)
    with s' show "frames_ok t" using ok by (simp add: frames_ok_def t stk_def)
    show "n < st_version s \<Longrightarrow> below n (st_logs t) = below n (st_logs s)"
      using below_current[OF cur] below_store[OF s'(2)] by (simp add: t)
  qed (simp_all add: t stk_def)
qed

interpretation frm: state_relation "framed n" for n
proof (unfold_locales, goal_cases)
  case (1 s) show ?case by (simp add: framed_def)
next
  case (2 s t u) then show ?case by (auto simp: framed_def)
qed (rule framed_current framed_modify_current framed_store_log keeps_same_frames,
    (rule same_frames_original same_frames_prims same_frames_read_original_storage
      same_frames_insert_code)?)+

section \<open>Opening and closing a frame\<close>

lemma push_run:
  assumes "frames_ok s"
  shows "push s = Inr ((), s\<lparr>st_version := Suc (st_version s), st_dirty := [] # st_dirty s\<rparr>)"
  using assms by (auto simp: push_def sm_simps frames_ok_def dest: dirty_ok_length)

lemma frames_ok_push:
  assumes "frames_ok s"
  shows "frames_ok (s\<lparr>st_version := Suc (st_version s), st_dirty := [] # st_dirty s\<rparr>)"
proof -
  have "Suc (st_version s) \<notin> versions (stk s a)" for a
    using stk_ok[OF assms, of a] vs_ok_versions[of "st_version s" "stk s a"]
    by (cases "stk s a = []") force+
  moreover have "stk (s\<lparr>st_version := Suc (st_version s), st_dirty := [] # st_dirty s\<rparr>) = stk s"
    by (simp add: stk_def fun_eq_iff)
  ultimately show ?thesis
    using assms by (auto simp: frames_ok_def intro: vs.ok_open)
qed

lemma take_dirty_run:
  assumes "frames_ok s" "st_version s = Suc m"
  obtains d ds where "st_dirty s = d # ds" "take_dirty s = Inr (d, s\<lparr>st_dirty := ds\<rparr>)"
    "distinct d" "set d = {a. Suc m \<in> versions (stk s a)}"
    "dirty_ok m ds (\<lambda>a. versions (stk s a))"
proof -
  obtain d ds where d: "st_dirty s = d # ds"
    using assms by (cases "st_dirty s") (auto simp: frames_ok_def)
  moreover have "length (st_dirty s) = st_version s"
    using assms by (auto simp: frames_ok_def dest: dirty_ok_length)
  ultimately show thesis
    using that[of d ds] assms by (simp add: frames_ok_def take_dirty_def sm_simps)
qed

text \<open>The result of \<open>VersionStack::pop_accept\<close> on one stack.\<close>

definition accepted :: "nat \<Rightarrow> 'a version_stack \<Rightarrow> 'a version_stack" where
  "accepted m stack = (case vs_pop_accept (Suc m) stack of Inr st \<Rightarrow> st | Inl _ \<Rightarrow> stack)"

lemma accepted_ok:
  assumes "vs_ok (Suc m) stack"
  shows "vs_pop_accept (Suc m) stack = Inr (accepted m stack)" "vs_ok m (accepted m stack)"
  by (rule vs_pop_accept_ok[OF assms], simp add: accepted_def)+

lemma pop_accept_loop:
  assumes "distinct as" "st_version s = Suc m"
    and "\<And>a. a \<in> set as \<Longrightarrow> \<exists>st. map_of (st_current s) a = Some st \<and> vs_ok (Suc m) st"
  shows "\<exists>C. forS as pop_accept_account s =
      Inr ((), s\<lparr>st_current := C, st_dirty := fold mark_dirty as (st_dirty s)\<rparr>) \<and>
      (\<forall>b. map_of C b = (if b \<in> set as then map_option (accepted m) (map_of (st_current s) b)
                       else map_of (st_current s) b)) \<and>
      (wf_map (st_current s) \<longrightarrow> wf_map C)"
  using assms
proof (induction as arbitrary: s)
  case Nil
  then show ?case by (auto simp: sm_simps intro!: exI[of _ "st_current s"])
next
  case (Cons a as)
  obtain st where st: "map_of (st_current s) a = Some st" "vs_ok (Suc m) st"
    using Cons.prems(3)[of a] by auto
  let ?s = "s\<lparr>st_current := AList.update a (accepted m st) (st_current s),
              st_dirty := mark_dirty a (st_dirty s)\<rparr>"
  have run: "pop_accept_account a s = Inr ((), ?s)"
    using st Cons.prems(2) accepted_ok[OF st(2)]
    by (simp add: pop_accept_account_def find_current_def put_stack_def sm_simps)
  have "\<exists>st. map_of (st_current ?s) b = Some st \<and> vs_ok (Suc m) st" if "b \<in> set as" for b
    using Cons.prems(1) Cons.prems(3)[of b] that by auto
  note ih = Cons.IH[of ?s, OF _ _ this]
  obtain C where C: "forS as pop_accept_account ?s =
      Inr ((), ?s\<lparr>st_current := C, st_dirty := fold mark_dirty as (st_dirty ?s)\<rparr>)"
    "\<And>b. map_of C b = (if b \<in> set as then map_option (accepted m) (map_of (st_current ?s) b)
                       else map_of (st_current ?s) b)"
    "wf_map (st_current ?s) \<longrightarrow> wf_map C"
    using ih Cons.prems(1,2) by auto
  show ?case
  proof (intro exI[of _ C] conjI allI impI)
    show "forS (a # as) pop_accept_account s =
        Inr ((), s\<lparr>st_current := C, st_dirty := fold mark_dirty (a # as) (st_dirty s)\<rparr>)"
      using C(1) by (simp add: sm_simps run)
    show "map_of C b = (if b \<in> set (a # as) then map_option (accepted m) (map_of (st_current s) b)
         else map_of (st_current s) b)" for b
      using Cons.prems(1) by (simp add: C(2) st)
    show "wf_map C" if "wf_map (st_current s)"
      using C(3) that by simp
  qed
qed

lemma pop_reject_loop:
  assumes "distinct as" "st_version s = Suc m"
    and "\<And>a. a \<in> set as \<Longrightarrow> \<exists>st. map_of (st_current s) a = Some st \<and> vs_ok (Suc m) st"
  shows "\<exists>C. forS as pop_reject_account s = Inr ((), s\<lparr>st_current := C\<rparr>) \<and>
      (\<forall>b. map_of C b = (if b \<in> set as then map_option (below m) (map_of (st_current s) b)
                       else map_of (st_current s) b)) \<and>
      (wf_map (st_current s) \<longrightarrow> wf_map C)"
  using assms
proof (induction as arbitrary: s)
  case Nil
  then show ?case by (auto simp: sm_simps intro!: exI[of _ "st_current s"])
next
  case (Cons a as)
  obtain st where st: "map_of (st_current s) a = Some st" "vs_ok (Suc m) st"
    using Cons.prems(3)[of a] by auto
  let ?s = "s\<lparr>st_current := AList.update a (below m st) (st_current s)\<rparr>"
  have run: "pop_reject_account a s = Inr ((), ?s)"
    using st Cons.prems(2) vs_pop_reject_below[OF st(2)]
    by (simp add: pop_reject_account_def find_current_def put_stack_def sm_simps)
  have "\<exists>st. map_of (st_current ?s) b = Some st \<and> vs_ok (Suc m) st" if "b \<in> set as" for b
    using Cons.prems(1) Cons.prems(3)[of b] that by auto
  note ih = Cons.IH[of ?s, OF _ _ this]
  obtain C where C: "forS as pop_reject_account ?s = Inr ((), ?s\<lparr>st_current := C\<rparr>)"
    "\<And>b. map_of C b = (if b \<in> set as then map_option (below m) (map_of (st_current ?s) b)
                       else map_of (st_current ?s) b)"
    "wf_map (st_current ?s) \<longrightarrow> wf_map C"
    using ih Cons.prems(1,2) by auto
  show ?case
  proof (intro exI[of _ C] conjI allI impI)
    show "forS (a # as) pop_reject_account s = Inr ((), s\<lparr>st_current := C\<rparr>)"
      using C(1) by (simp add: sm_simps run)
    show "map_of C b = (if b \<in> set (a # as) then map_option (below m) (map_of (st_current s) b)
         else map_of (st_current s) b)" for b
      using Cons.prems(1) by (simp add: C(2) st)
    show "wf_map C" if "wf_map (st_current s)"
      using C(3) that by simp
  qed
qed

lemma erase_loop:
  "\<exists>C. forS as erase_empty s = Inr ((), s\<lparr>st_current := C\<rparr>) \<and>
      (\<forall>b. map_of C b = (if b \<in> set as \<and> map_of (st_current s) b = Some [] then None
                       else map_of (st_current s) b)) \<and>
      (wf_map (st_current s) \<longrightarrow> wf_map C)"
proof (induction as arbitrary: s)
  case Nil
  then show ?case by (auto simp: sm_simps intro!: exI[of _ "st_current s"])
next
  case (Cons a as)
  let ?m = "if map_of (st_current s) a = Some [] then AList.delete a (st_current s) else st_current s"
  have run: "erase_empty a s = Inr ((), s\<lparr>st_current := ?m\<rparr>)"
    by (simp add: erase_empty_def find_current_def sm_simps)
  obtain C where C: "forS as erase_empty (s\<lparr>st_current := ?m\<rparr>) = Inr ((), s\<lparr>st_current := C\<rparr>)"
    "\<And>b. map_of C b = (if b \<in> set as \<and> map_of ?m b = Some [] then None else map_of ?m b)"
    "wf_map ?m \<longrightarrow> wf_map C"
    using Cons.IH[of "s\<lparr>st_current := ?m\<rparr>"] by auto
  show ?case
  proof (intro exI[of _ C] conjI allI impI)
    show "forS (a # as) erase_empty s = Inr ((), s\<lparr>st_current := C\<rparr>)"
      using C(1) by (simp only: forS.simps thenS_run run Try.simps prod.case)
    show "map_of C b = (if b \<in> set (a # as) \<and> map_of (st_current s) b = Some [] then None
         else map_of (st_current s) b)" for b
      by (simp add: C(2))
    show "wf_map C" if "wf_map (st_current s)"
      using C(3) that by simp
  qed
qed

lemma accepted_unchanged:
  assumes "vs_ok (Suc m) stack" "Suc m \<notin> versions stack"
  shows "accepted m stack = stack"
  using assms by (cases stack) (auto simp: accepted_def)

lemma versions_accepted:
  assumes "vs_ok (Suc m) stack" "v \<le> m"
  shows "v \<in> versions (accepted m stack) \<longleftrightarrow> v \<in> versions stack \<or> (v = m \<and> Suc m \<in> versions stack)"
  by (rule versions_pop_accept[OF accepted_ok(1)[OF assms(1)] assms])

lemma fold_mark_dirty:
  "fold mark_dirty as (d # ds) = fold set_insert as d # ds" "fold mark_dirty as [] = []"
  by (induction as arbitrary: d) (simp_all add: mark_dirty_def)

lemma fold_set_insert: "set (fold set_insert as d) = set as \<union> set d"
  by (induction as arbitrary: d) auto

lemma distinct_fold_set_insert: "distinct d \<Longrightarrow> distinct (fold set_insert as d)"
  by (induction as arbitrary: d) auto

lemma dirty_ok_accept:
  assumes "dirty_ok m ds vs" "set d = {a. Suc m \<in> vs a}"
    and vs': "\<And>a v. v \<le> m \<Longrightarrow> v \<in> vs' a \<longleftrightarrow> v \<in> vs a \<or> (v = m \<and> Suc m \<in> vs a)"
  shows "dirty_ok m (fold mark_dirty d ds) vs'"
proof (cases ds)
  case (Cons e es)
  have "dirty_ok (m - 1) es vs' = dirty_ok (m - 1) es vs"
    by (rule dirty_ok_cong) (use vs' assms(1) Cons in auto)
  moreover have "{a. m \<in> vs' a} = {a. Suc m \<in> vs a} \<union> {a. m \<in> vs a}"
    using vs'[of m] by auto
  ultimately show ?thesis
    using assms(1,2) Cons
    by (simp add: fold_mark_dirty fold_set_insert distinct_fold_set_insert)
qed (use assms in \<open>simp add: fold_mark_dirty\<close>)

lemma dirty_accounts_current:
  assumes "frames_ok s" "a \<in> {a. Suc m \<in> versions (stk s a)}" "st_version s = Suc m"
  shows "\<exists>st. map_of (st_current s) a = Some st \<and> vs_ok (Suc m) st"
  using assms by (auto simp: frames_ok_def stk_def split: option.splits)

lemma pop_accept_run:
  assumes ok: "frames_ok s" and v: "st_version s = Suc m"
  shows "\<exists>t. pop_accept s = Inr ((), t) \<and> frames_ok t \<and> st_version t = m \<and>
     (\<forall>a. stk t a = (if stk s a = [] then [] else accepted m (stk s a))) \<and>
     st_logs t = accepted m (st_logs s) \<and> st_dirty t = fold mark_dirty (hd (st_dirty s)) (tl (st_dirty s)) \<and>
     t = s\<lparr>st_current := st_current t, st_logs := st_logs t, st_version := m, st_dirty := st_dirty t\<rparr>"
proof -
  obtain d ds where d: "st_dirty s = d # ds" "take_dirty s = Inr (d, s\<lparr>st_dirty := ds\<rparr>)"
    "distinct d" "set d = {a. Suc m \<in> versions (stk s a)}"
    "dirty_ok m ds (\<lambda>a. versions (stk s a))"
    by (rule take_dirty_run[OF ok v])
  let ?s = "s\<lparr>st_dirty := ds\<rparr>"
  have "\<exists>st. map_of (st_current ?s) a = Some st \<and> vs_ok (Suc m) st" if "a \<in> set d" for a
    using dirty_accounts_current[OF ok _ v] that d(4) by simp
  then obtain C where C: "forS d pop_accept_account ?s =
      Inr ((), ?s\<lparr>st_current := C, st_dirty := fold mark_dirty d ds\<rparr>)"
    "\<And>b. map_of C b = (if b \<in> set d then map_option (accepted m) (map_of (st_current s) b)
                       else map_of (st_current s) b)" "wf_map C"
    using pop_accept_loop[OF d(3), of ?s m] v ok by (auto simp: frames_ok_def)
  let ?t = "s\<lparr>st_current := C, st_logs := accepted m (st_logs s), st_version := m,
              st_dirty := fold mark_dirty d ds\<rparr>"
  have logs: "vs_ok (Suc m) (st_logs s)" using ok v by (simp add: frames_ok_def)
  have run: "pop_accept s = Inr ((), ?t)"
    using v accepted_ok(1)[OF logs] by (simp add: pop_accept_def sm_simps d(2) C(1))
  have stk_ok': "stk s a = [] \<or> vs_ok (Suc m) (stk s a)" for a
    using stk_ok[OF ok, of a] v by auto
  have stk_t: "stk ?t a = (if stk s a = [] then [] else accepted m (stk s a))" for a
  proof -
    have "a \<notin> set d \<Longrightarrow> stk s a \<noteq> [] \<Longrightarrow> accepted m (stk s a) = stk s a"
      using accepted_unchanged[of m "stk s a"] stk_ok'[of a] d(4) by auto
    moreover have "a \<in> set d \<Longrightarrow> stk s a \<noteq> []"
      using d(4) by auto
    ultimately show ?thesis
      using C(2)[of a] by (auto simp: stk_def split: option.splits if_splits)
  qed
  have "dirty_ok m (fold mark_dirty d ds) (\<lambda>a. versions (stk ?t a))"
    by (rule dirty_ok_accept[OF d(5,4)])
      (use stk_ok' versions_accepted in \<open>auto simp: stk_t\<close>)
  moreover have "vs_ok m st" if "map_of C a = Some st" for a st
  proof -
    have "stk ?t a = st" using that by (simp add: stk_def)
    moreover have "stk s a \<noteq> []"
      using that C(2)[of a] by (auto simp: stk_Nil_iff[OF ok] split: if_splits)
    ultimately show ?thesis
      using stk_t[of a] stk_ok'[of a] accepted_ok(2)[of m "stk s a"] by auto
  qed
  ultimately have "frames_ok ?t"
    using C(3) accepted_ok(2)[OF logs] versions_accepted[OF logs, of 0] ok
    by (simp add: frames_ok_def)
  then show ?thesis
    by (intro exI[of _ ?t]) (use run stk_t d(1) in auto)
qed

lemma below_ok_pred: "vs_ok (Suc m) stack \<Longrightarrow> below m stack \<noteq> [] \<Longrightarrow> vs_ok m (below m stack)"
  by (rule vs_pop_reject_ok[of m stack]) (auto simp: vs_pop_reject_below)

lemma below_keeps_0: "0 \<in> versions stack \<Longrightarrow> vs_ok n stack \<Longrightarrow> 0 \<in> versions (below m stack)"
  by (simp add: versions_below)

text \<open>The state just before \<open>pop_reject\<close> calls \<open>on_pop_reject\<close>.\<close>

lemma pop_reject_steps:
  assumes ok: "frames_ok s" and v: "st_version s = Suc m"
  shows "\<exists>C. pop_reject s =
       thenS (on_pop_reject (hd (st_dirty s))) (modifyS (\<lambda>s. s\<lparr>st_version := m\<rparr>))
         (s\<lparr>st_dirty := tl (st_dirty s), st_logs := below m (st_logs s), st_current := C\<rparr>) \<and>
     wf_map C \<and>
     (\<forall>a. map_of C a = (if below m (stk s a) = [] then None else Some (below m (stk s a)))) \<and>
     dirty_ok m (tl (st_dirty s)) (\<lambda>a. versions (stk s a))"
proof -
  obtain d ds where d: "st_dirty s = d # ds" "take_dirty s = Inr (d, s\<lparr>st_dirty := ds\<rparr>)"
    "distinct d" "set d = {a. Suc m \<in> versions (stk s a)}"
    "dirty_ok m ds (\<lambda>a. versions (stk s a))"
    by (rule take_dirty_run[OF ok v])
  let ?s = "s\<lparr>st_dirty := ds\<rparr>"
  have "\<exists>st. map_of (st_current ?s) a = Some st \<and> vs_ok (Suc m) st" if "a \<in> set d" for a
    using dirty_accounts_current[OF ok _ v] that d(4) by simp
  then obtain C1 where C1: "forS d pop_reject_account ?s = Inr ((), ?s\<lparr>st_current := C1\<rparr>)"
    "\<And>b. map_of C1 b = (if b \<in> set d then map_option (below m) (map_of (st_current s) b)
                       else map_of (st_current s) b)" "wf_map C1"
    using pop_reject_loop[OF d(3), of ?s m] v ok by (auto simp: frames_ok_def)
  let ?l = "?s\<lparr>st_current := C1, st_logs := below m (st_logs s)\<rparr>"
  obtain C where C: "forS d erase_empty ?l = Inr ((), ?l\<lparr>st_current := C\<rparr>)"
    "\<And>b. map_of C b = (if b \<in> set d \<and> map_of C1 b = Some [] then None else map_of C1 b)" "wf_map C"
    using erase_loop[of d ?l] C1(3) by auto
  have logs: "vs_ok (Suc m) (st_logs s)" using ok v by (simp add: frames_ok_def)
  have "map_of C a = (if below m (stk s a) = [] then None else Some (below m (stk s a)))" for a
  proof (cases "map_of (st_current s) a")
    case None
    then show ?thesis by (simp add: C(2) C1(2) stk_def)
  next
    case (Some st)
    then have vok: "vs_ok (Suc m) st" and stk: "stk s a = st"
      using ok v by (auto simp: frames_ok_def stk_def)
    have "below m st = st" if "a \<notin> set d"
      using that d(4) stk vok by (cases st) auto
    moreover have "st \<noteq> []" using vok by auto
    ultimately show ?thesis using Some stk by (auto simp: C(2) C1(2))
  qed
  moreover have "pop_reject s =
       thenS (on_pop_reject d) (modifyS (\<lambda>s. s\<lparr>st_version := m\<rparr>))
         (s\<lparr>st_dirty := ds, st_logs := below m (st_logs s), st_current := C\<rparr>)"
    using v vs_pop_reject_below[OF logs] C(1)
    by (simp add: pop_reject_def sm_simps d(2) C1(1))
  ultimately show ?thesis
    using C(3) d(1,5) by (intro exI[of _ C]) simp
qed

lemma pop_reject_run:
  assumes ok: "frames_ok s" and v: "st_version s = Suc m" and run: "pop_reject s = Inr (x, t)"
  shows "frames_ok t" "st_version t = m" "\<And>a. stk t a = below m (stk s a)"
    "st_logs t = below m (st_logs s)" "st_dirty t = tl (st_dirty s)"
proof -
  obtain C where C: "pop_reject s =
       thenS (on_pop_reject (hd (st_dirty s))) (modifyS (\<lambda>s. s\<lparr>st_version := m\<rparr>))
         (s\<lparr>st_dirty := tl (st_dirty s), st_logs := below m (st_logs s), st_current := C\<rparr>)"
    "wf_map C"
    "\<And>a. map_of C a = (if below m (stk s a) = [] then None else Some (below m (stk s a)))"
    "dirty_ok m (tl (st_dirty s)) (\<lambda>a. versions (stk s a))"
    using pop_reject_steps[OF ok v] by blast
  let ?u = "s\<lparr>st_dirty := tl (st_dirty s), st_logs := below m (st_logs s), st_current := C\<rparr>"
  obtain w where w: "on_pop_reject (hd (st_dirty s)) ?u = Inr ((), w)"
    and t: "t = w\<lparr>st_version := m\<rparr>"
    using run unfolding C(1) thenS_eq_Inr by (auto simp: sm_simps)
  have "same_frames ?u w"
    using sfr.keeps_on_pop_reject w by (rule keepsD)
  then have ct: "st_current t = C" and lt: "st_logs t = below m (st_logs s)"
    and dt: "st_dirty t = tl (st_dirty s)" and vt: "st_version t = m"
    by (simp_all add: same_frames_def t)
  show stk_t: "stk t a = below m (stk s a)" for a
    by (simp add: stk_def ct C(3))
  show "st_logs t = below m (st_logs s)" "st_dirty t = tl (st_dirty s)" "st_version t = m"
    by (rule lt dt vt)+
  have stk_ok': "stk s a = [] \<or> vs_ok (Suc m) (stk s a)" for a
    using stk_ok[OF ok, of a] v by auto
  have "dirty_ok m (tl (st_dirty s)) (\<lambda>a. versions (below m (stk s a)))"
    by (rule iffD2[OF dirty_ok_cong C(4)]) (rule versions_below_ok[OF stk_ok'])
  moreover have "vs_ok m st" if "map_of C a = Some st" for a st
    using that stk_ok'[of a] below_ok_pred[of m "stk s a"] by (auto simp: C(3) split: if_splits)
  moreover have "0 \<in> versions (below m (st_logs s))"
    using ok by (auto simp: frames_ok_def below_keeps_0)
  moreover from this have "vs_ok m (below m (st_logs s))"
    using ok v by (intro below_ok_pred) (auto simp: frames_ok_def)
  ultimately show "frames_ok t"
    using C(2) by (simp add: frames_ok_def stk_t ct lt dt vt)
qed

end
