(* ===== verification/Client.thy ===== *)
theory Client
  imports State_Frames
begin

text \<open>
  Clients of \<open>State\<close>. The interpreter, the host, the precompiles and the system contracts reach a
  transaction's state only through the public operations of \<open>State\<close>. A client is therefore a tree of
  operations whose continuation is an arbitrary function of the answers, so that a theorem about all
  such trees is a theorem about whatever the virtual machine does. The host, message and transaction
  layers above \<open>State\<close> are such programs, with the calls of \<open>State\<close> written \<open>state_get_nonce\<close> and so
  on; \<open>run\<close> gives a program its sequential meaning.
\<close>

section \<open>Operations and programs\<close>

datatype (plugins only: size) op =
    OpAccountExists address | OpAccountIsDead address | OpHasCodeOrNonce address
  | OpGetNonce address | OpGetBalance address | OpGetOriginalBalance address
  | OpGetCodeHash address | OpIsDestructed address | OpIsCurrentIncarnation address
  | OpGetStorage address bytes32 | OpGetTransientStorage address bytes32 | OpIsTouched address
  | OpSetNonce address u64 | OpAddToBalance address u256 | OpSubtractFromBalance address u256
  | OpSetStorage address bytes32 bytes32 | OpSetTransientStorage address bytes32 bytes32
  | OpTouch address | OpAccessAccount address | OpAccessStorage traits address bytes32
  | OpUpdatePage address bytes32 monad_storage_status
  | OpSelfdestruct traits address address
  | OpReadCode bytes32 | OpGetCode address | OpGetCodeSize address | OpCopyCode address nat nat
  | OpSetCode address bytes | OpCreateContract address | OpCreateAccountNoRollback address
  | OpLogs | OpStoreLog log | OpSetToStateIncarnation address
  | OpRecordBalanceConstraint address u256
  | OpInitReserveBalance traits address transaction "u256 option" nat chain_context
  | OpRevertTransaction traits address transaction u256 nat chain_context
  | OpRevertTransactionCached traits
  | OpDestructSuicides traits | OpDestructTouchedDead
  | OpSetValidateExactBalance address | OpPush | OpPopAccept | OpPopReject

datatype ans =
    AUnit | ABool bool | AU64 u64 | AU256 u256 | ANat nat | ABytes bytes
  | AAccess monad_access_status | AStorage monad_storage_status | APage page_storage_status
  | ADestruct bool u256 | ALogs "log list"

definition answer :: "('a \<Rightarrow> ans) \<Rightarrow> 'a st \<Rightarrow> ans st" where
  "answer f m = bindS m (\<lambda>x. returnS (f x))"

primrec exec_op :: "(bytes \<Rightarrow> bytes32) \<Rightarrow> op \<Rightarrow> ans st" where
  "exec_op kec (OpAccountExists a) = answer ABool (account_exists a)"
| "exec_op kec (OpAccountIsDead a) = answer ABool (account_is_dead a)"
| "exec_op kec (OpHasCodeOrNonce a) = answer ABool (account_has_code_or_nonce a)"
| "exec_op kec (OpGetNonce a) = answer AU64 (get_nonce a)"
| "exec_op kec (OpGetBalance a) = answer AU256 (get_balance a)"
| "exec_op kec (OpGetOriginalBalance a) = answer AU256 (get_original_balance a)"
| "exec_op kec (OpGetCodeHash a) = answer AU256 (get_code_hash a)"
| "exec_op kec (OpIsDestructed a) = answer ABool (is_destructed a)"
| "exec_op kec (OpIsCurrentIncarnation a) = answer ABool (is_current_incarnation a)"
| "exec_op kec (OpGetStorage a key) = answer AU256 (get_storage a key)"
| "exec_op kec (OpGetTransientStorage a key) = answer AU256 (get_transient_storage a key)"
| "exec_op kec (OpIsTouched a) = answer ABool (is_touched a)"
| "exec_op kec (OpSetNonce a n) = answer (\<lambda>_. AUnit) (set_nonce a n)"
| "exec_op kec (OpAddToBalance a d) = answer (\<lambda>_. AUnit) (add_to_balance a d)"
| "exec_op kec (OpSubtractFromBalance a d) = answer (\<lambda>_. AUnit) (subtract_from_balance a d)"
| "exec_op kec (OpSetStorage a key v) = answer AStorage (set_storage a key v)"
| "exec_op kec (OpSetTransientStorage a key v) = answer (\<lambda>_. AUnit) (set_transient_storage a key v)"
| "exec_op kec (OpTouch a) = answer (\<lambda>_. AUnit) (touch a)"
| "exec_op kec (OpAccessAccount a) = answer AAccess (access_account a)"
| "exec_op kec (OpAccessStorage tr a key) = answer AAccess (access_storage tr a key)"
| "exec_op kec (OpUpdatePage a key status) = answer APage (update_page a key status)"
| "exec_op kec (OpSelfdestruct tr a b) = answer (\<lambda>(i, v). ADestruct i v) (selfdestruct tr a b)"
| "exec_op kec (OpReadCode hash) = answer ABytes (read_code hash)"
| "exec_op kec (OpGetCode a) = answer ABytes (get_code a)"
| "exec_op kec (OpGetCodeSize a) = answer ANat (get_code_size a)"
| "exec_op kec (OpCopyCode a offset n) = answer ABytes (copy_code a offset n)"
| "exec_op kec (OpSetCode a c) = answer (\<lambda>_. AUnit) (set_code kec a c)"
| "exec_op kec (OpCreateContract a) = answer (\<lambda>_. AUnit) (create_contract a)"
| "exec_op kec (OpCreateAccountNoRollback a) = answer (\<lambda>_. AUnit) (create_account_no_rollback a)"
| "exec_op kec OpLogs = answer ALogs logs"
| "exec_op kec (OpStoreLog l) = answer (\<lambda>_. AUnit) (store_log l)"
| "exec_op kec (OpSetToStateIncarnation a) = answer (\<lambda>_. AUnit) (set_to_state_incarnation a)"
| "exec_op kec (OpRecordBalanceConstraint a d) =
     answer ABool (record_balance_constraint_for_debit a d)"
| "exec_op kec (OpInitReserveBalance tr sender tx fee i ctx) =
     answer (\<lambda>_. AUnit) (init_from_tx tr sender tx fee i ctx)"
| "exec_op kec (OpRevertTransaction tr sender tx fee i ctx) =
     answer ABool (revert_transaction tr sender tx fee i ctx)"
| "exec_op kec (OpRevertTransactionCached tr) = answer ABool (revert_transaction_cached tr)"
| "exec_op kec (OpDestructSuicides tr) = answer (\<lambda>_. AUnit) (destruct_suicides tr)"
| "exec_op kec OpDestructTouchedDead = answer (\<lambda>_. AUnit) destruct_touched_dead"
| "exec_op kec (OpSetValidateExactBalance a) =
     answer (\<lambda>_. AUnit) (thenS (original_account_state a) (modify_original a set_validate_exact_balance))"
| "exec_op kec OpPush = answer (\<lambda>_. AUnit) push"
| "exec_op kec OpPopAccept = answer (\<lambda>_. AUnit) pop_accept"
| "exec_op kec OpPopReject = answer (\<lambda>_. AUnit) pop_reject"

section \<open>Programs\<close>

datatype 'a prog = Ret 'a | Fail exn | Do op "ans \<Rightarrow> 'a prog"

primrec run :: "(bytes \<Rightarrow> bytes32) \<Rightarrow> 'a prog \<Rightarrow> 'a st" where
  "run kec (Ret r) = returnS r"
| "run kec (Fail e) = (\<lambda>s. Inl e)"
| "run kec (Do opn k) = bindS (exec_op kec opn) (\<lambda>x. run kec (k x))"

primrec bindP :: "'a prog \<Rightarrow> ('a \<Rightarrow> 'b prog) \<Rightarrow> 'b prog" where
  "bindP (Ret r) f = f r"
| "bindP (Fail e) f = Fail e"
| "bindP (Do opn k) f = Do opn (\<lambda>x. bindP (k x) f)"

definition thenP :: "'a prog \<Rightarrow> 'b prog \<Rightarrow> 'b prog" where
  "thenP p q = bindP p (\<lambda>_. q)"

definition assertP :: "bool \<Rightarrow> unit prog" where
  "assertP b = (if b then Ret () else Fail AssertFail)"

definition throwP :: "bool \<Rightarrow> string \<Rightarrow> unit prog" where
  "throwP b msg = (if b then Ret () else Fail (Thrown msg))"

definition liftP :: "'a res \<Rightarrow> 'a prog" where
  "liftP m = (case m of Inl e \<Rightarrow> Fail e | Inr x \<Rightarrow> Ret x)"

primrec forP :: "'a list \<Rightarrow> ('a \<Rightarrow> unit prog) \<Rightarrow> unit prog" where
  "forP [] f = Ret ()"
| "forP (x # xs) f = thenP (f x) (forP xs f)"

text \<open>The equations that turn the meaning of a program into a state transformer.\<close>

named_theorems run_prog

lemma run_bindP [run_prog]: "run kec (bindP p f) = bindS (run kec p) (\<lambda>x. run kec (f x))"
  by (induction p) (simp_all add: fun_eq_iff sm_simps Try_assoc case_prod_beta)

lemma run_thenP [run_prog]: "run kec (thenP p q) = thenS (run kec p) (run kec q)"
  by (simp add: thenP_def thenS_def run_bindP)

lemma run_assertP [run_prog]: "run kec (assertP b) = assertS b"
  by (simp add: assertP_def assertS_def returnS_def fun_eq_iff)

lemma run_throwP [run_prog]: "run kec (throwP b msg) = throwS b msg"
  by (simp add: throwP_def throwS_def returnS_def fun_eq_iff)

lemma run_liftP [run_prog]: "run kec (liftP m) = liftS m"
  by (simp add: liftP_def liftS_def returnS_def fun_eq_iff split: sum.split)

lemma run_forP [run_prog]: "run kec (forP xs f) = forS xs (\<lambda>x. run kec (f x))"
  by (induction xs) (simp_all add: run_thenP)

lemma run_if [run_prog]: "run kec (if b then p else q) = (if b then run kec p else run kec q)"
  by simp

lemma run_case_option [run_prog]:
  "run kec (case x of None \<Rightarrow> p | Some y \<Rightarrow> f y) = (case x of None \<Rightarrow> run kec p | Some y \<Rightarrow> run kec (f y))"
  by (simp split: option.split)

lemma run_case_sum [run_prog]:
  "run kec (case x of Inl e \<Rightarrow> g e | Inr y \<Rightarrow> f y) = (case x of Inl e \<Rightarrow> run kec (g e) | Inr y \<Rightarrow> run kec (f y))"
  by (simp split: sum.split)

lemma run_case_prod [run_prog]:
  "run kec (case x of (y, z) \<Rightarrow> f y z) = (case x of (y, z) \<Rightarrow> run kec (f y z))"
  by (simp split: prod.split)

lemma run_Let [run_prog]: "run kec (let x = v in f x) = (let x = v in run kec (f x))"
  by (simp add: Let_def)

declare run.simps(1,2) [run_prog]

section \<open>The calls of \<open>State\<close>\<close>

text \<open>A call performs one operation and reads the answer back at its type.\<close>

definition ask :: "(ans \<Rightarrow> 'a option) \<Rightarrow> op \<Rightarrow> 'a prog" where
  "ask f opn = Do opn (\<lambda>x. case f x of None \<Rightarrow> Fail AssertFail | Some y \<Rightarrow> Ret y)"

lemma run_ask:
  assumes "exec_op kec opn = answer g m" "\<And>x. f (g x) = Some x"
  shows "run kec (ask f opn) = m"
proof -
  have "Try r (\<lambda>(x, s'). Inr (x, s')) = r" for r :: "('a \<times> tx_state) res" by (cases r) auto
  then show ?thesis
    using assms by (simp add: ask_def answer_def fun_eq_iff sm_simps Try_assoc case_prod_beta)
qed

definition to_bool :: "ans \<Rightarrow> bool option" where
  "to_bool x = (case x of ABool b \<Rightarrow> Some b | _ \<Rightarrow> None)"

definition to_u64 :: "ans \<Rightarrow> u64 option" where
  "to_u64 x = (case x of AU64 n \<Rightarrow> Some n | _ \<Rightarrow> None)"

definition to_u256 :: "ans \<Rightarrow> u256 option" where
  "to_u256 x = (case x of AU256 v \<Rightarrow> Some v | _ \<Rightarrow> None)"

definition to_unit :: "ans \<Rightarrow> unit option" where
  "to_unit x = (case x of AUnit \<Rightarrow> Some () | _ \<Rightarrow> None)"

definition to_status :: "ans \<Rightarrow> monad_storage_status option" where
  "to_status x = (case x of AStorage r \<Rightarrow> Some r | _ \<Rightarrow> None)"

definition to_access :: "ans \<Rightarrow> monad_access_status option" where
  "to_access x = (case x of AAccess r \<Rightarrow> Some r | _ \<Rightarrow> None)"

definition to_page :: "ans \<Rightarrow> page_storage_status option" where
  "to_page x = (case x of APage r \<Rightarrow> Some r | _ \<Rightarrow> None)"

definition to_destruct :: "ans \<Rightarrow> (bool \<times> u256) option" where
  "to_destruct x = (case x of ADestruct b v \<Rightarrow> Some (b, v) | _ \<Rightarrow> None)"

definition to_bytes :: "ans \<Rightarrow> bytes option" where
  "to_bytes x = (case x of ABytes c \<Rightarrow> Some c | _ \<Rightarrow> None)"

definition to_nat :: "ans \<Rightarrow> nat option" where
  "to_nat x = (case x of ANat n \<Rightarrow> Some n | _ \<Rightarrow> None)"

definition to_logs :: "ans \<Rightarrow> (log list) option" where
  "to_logs x = (case x of ALogs ls \<Rightarrow> Some ls | _ \<Rightarrow> None)"

definition state_account_exists :: "address \<Rightarrow> bool prog" where
  "state_account_exists a = ask to_bool (OpAccountExists a)"

definition state_account_is_dead :: "address \<Rightarrow> bool prog" where
  "state_account_is_dead a = ask to_bool (OpAccountIsDead a)"

definition state_account_has_code_or_nonce :: "address \<Rightarrow> bool prog" where
  "state_account_has_code_or_nonce a = ask to_bool (OpHasCodeOrNonce a)"

definition state_get_nonce :: "address \<Rightarrow> u64 prog" where
  "state_get_nonce a = ask to_u64 (OpGetNonce a)"

definition state_get_balance :: "address \<Rightarrow> u256 prog" where
  "state_get_balance a = ask to_u256 (OpGetBalance a)"

definition state_get_original_balance :: "address \<Rightarrow> u256 prog" where
  "state_get_original_balance a = ask to_u256 (OpGetOriginalBalance a)"

definition state_get_code_hash :: "address \<Rightarrow> u256 prog" where
  "state_get_code_hash a = ask to_u256 (OpGetCodeHash a)"

definition state_is_touched :: "address \<Rightarrow> bool prog" where
  "state_is_touched a = ask to_bool (OpIsTouched a)"

definition state_get_storage :: "address \<Rightarrow> bytes32 \<Rightarrow> u256 prog" where
  "state_get_storage a key = ask to_u256 (OpGetStorage a key)"

definition state_get_transient_storage :: "address \<Rightarrow> bytes32 \<Rightarrow> u256 prog" where
  "state_get_transient_storage a key = ask to_u256 (OpGetTransientStorage a key)"

definition state_set_nonce :: "address \<Rightarrow> u64 \<Rightarrow> unit prog" where
  "state_set_nonce a n = ask to_unit (OpSetNonce a n)"

definition state_add_to_balance :: "address \<Rightarrow> u256 \<Rightarrow> unit prog" where
  "state_add_to_balance a d = ask to_unit (OpAddToBalance a d)"

definition state_subtract_from_balance :: "address \<Rightarrow> u256 \<Rightarrow> unit prog" where
  "state_subtract_from_balance a d = ask to_unit (OpSubtractFromBalance a d)"

definition state_set_storage :: "address \<Rightarrow> bytes32 \<Rightarrow> bytes32 \<Rightarrow> monad_storage_status prog" where
  "state_set_storage a key v = ask to_status (OpSetStorage a key v)"

definition state_set_transient_storage :: "address \<Rightarrow> bytes32 \<Rightarrow> bytes32 \<Rightarrow> unit prog" where
  "state_set_transient_storage a key v = ask to_unit (OpSetTransientStorage a key v)"

definition state_touch :: "address \<Rightarrow> unit prog" where
  "state_touch a = ask to_unit (OpTouch a)"

definition state_access_account :: "address \<Rightarrow> monad_access_status prog" where
  "state_access_account a = ask to_access (OpAccessAccount a)"

definition state_access_storage :: "traits \<Rightarrow> address \<Rightarrow> bytes32 \<Rightarrow> monad_access_status prog" where
  "state_access_storage tr a key = ask to_access (OpAccessStorage tr a key)"

definition state_update_page :: "address \<Rightarrow> bytes32 \<Rightarrow> monad_storage_status \<Rightarrow> page_storage_status prog" where
  "state_update_page a key status = ask to_page (OpUpdatePage a key status)"

definition state_selfdestruct :: "traits \<Rightarrow> address \<Rightarrow> address \<Rightarrow> (bool \<times> u256) prog" where
  "state_selfdestruct tr a b = ask to_destruct (OpSelfdestruct tr a b)"

definition state_read_code :: "bytes32 \<Rightarrow> bytes prog" where
  "state_read_code h = ask to_bytes (OpReadCode h)"

definition state_get_code_size :: "address \<Rightarrow> nat prog" where
  "state_get_code_size a = ask to_nat (OpGetCodeSize a)"

definition state_copy_code :: "address \<Rightarrow> nat \<Rightarrow> nat \<Rightarrow> bytes prog" where
  "state_copy_code a offset n = ask to_bytes (OpCopyCode a offset n)"

definition state_set_code :: "address \<Rightarrow> bytes \<Rightarrow> unit prog" where
  "state_set_code a c = ask to_unit (OpSetCode a c)"

definition state_create_contract :: "address \<Rightarrow> unit prog" where
  "state_create_contract a = ask to_unit (OpCreateContract a)"

definition state_create_account_no_rollback :: "address \<Rightarrow> unit prog" where
  "state_create_account_no_rollback a = ask to_unit (OpCreateAccountNoRollback a)"

definition state_logs :: "(log list) prog" where
  "state_logs = ask to_logs OpLogs"

definition state_store_log :: "log \<Rightarrow> unit prog" where
  "state_store_log l = ask to_unit (OpStoreLog l)"

definition state_record_balance_constraint_for_debit :: "address \<Rightarrow> u256 \<Rightarrow> bool prog" where
  "state_record_balance_constraint_for_debit a d = ask to_bool (OpRecordBalanceConstraint a d)"

definition state_init_from_tx :: "traits \<Rightarrow> address \<Rightarrow> transaction \<Rightarrow> u256 option \<Rightarrow> nat \<Rightarrow> chain_context \<Rightarrow> unit prog" where
  "state_init_from_tx tr sender tx fee i ctx = ask to_unit (OpInitReserveBalance tr sender tx fee i ctx)"

definition state_revert_transaction :: "traits \<Rightarrow> address \<Rightarrow> transaction \<Rightarrow> u256 \<Rightarrow> nat \<Rightarrow> chain_context \<Rightarrow> bool prog" where
  "state_revert_transaction tr sender tx fee i ctx = ask to_bool (OpRevertTransaction tr sender tx fee i ctx)"

definition state_revert_transaction_cached :: "traits \<Rightarrow> bool prog" where
  "state_revert_transaction_cached tr = ask to_bool (OpRevertTransactionCached tr)"

definition state_destruct_suicides :: "traits \<Rightarrow> unit prog" where
  "state_destruct_suicides tr = ask to_unit (OpDestructSuicides tr)"

definition state_destruct_touched_dead :: "unit prog" where
  "state_destruct_touched_dead = ask to_unit OpDestructTouchedDead"

definition state_set_validate_exact_balance :: "address \<Rightarrow> unit prog" where
  "state_set_validate_exact_balance a = ask to_unit (OpSetValidateExactBalance a)"

definition state_push :: "unit prog" where
  "state_push = ask to_unit OpPush"

definition state_pop_accept :: "unit prog" where
  "state_pop_accept = ask to_unit OpPopAccept"

definition state_pop_reject :: "unit prog" where
  "state_pop_reject = ask to_unit OpPopReject"

lemmas state_calls =
  state_account_exists_def state_account_is_dead_def state_account_has_code_or_nonce_def
  state_get_nonce_def state_get_balance_def state_get_original_balance_def
  state_get_code_hash_def state_is_touched_def state_get_storage_def
  state_get_transient_storage_def state_set_nonce_def state_add_to_balance_def
  state_subtract_from_balance_def state_set_storage_def state_set_transient_storage_def
  state_touch_def state_access_account_def state_access_storage_def
  state_update_page_def state_selfdestruct_def state_read_code_def
  state_get_code_size_def state_copy_code_def state_set_code_def
  state_create_contract_def state_create_account_no_rollback_def state_logs_def
  state_store_log_def state_record_balance_constraint_for_debit_def state_init_from_tx_def
  state_revert_transaction_def state_revert_transaction_cached_def state_destruct_suicides_def
  state_destruct_touched_dead_def state_set_validate_exact_balance_def state_push_def
  state_pop_accept_def state_pop_reject_def

lemmas to_ans =
  to_bool_def to_u64_def to_u256_def to_unit_def to_status_def to_access_def to_page_def to_destruct_def to_bytes_def to_nat_def to_logs_def

lemma run_state_calls [run_prog]:
  "run kec (state_account_exists a) = account_exists a"
  "run kec (state_account_is_dead a) = account_is_dead a"
  "run kec (state_account_has_code_or_nonce a) = account_has_code_or_nonce a"
  "run kec (state_get_nonce a) = get_nonce a"
  "run kec (state_get_balance a) = get_balance a"
  "run kec (state_get_original_balance a) = get_original_balance a"
  "run kec (state_get_code_hash a) = get_code_hash a"
  "run kec (state_is_touched a) = is_touched a"
  "run kec (state_get_storage a key) = get_storage a key"
  "run kec (state_get_transient_storage a key) = get_transient_storage a key"
  "run kec (state_set_nonce a n) = set_nonce a n"
  "run kec (state_add_to_balance a d) = add_to_balance a d"
  "run kec (state_subtract_from_balance a d) = subtract_from_balance a d"
  "run kec (state_set_storage a key v) = set_storage a key v"
  "run kec (state_set_transient_storage a key v) = set_transient_storage a key v"
  "run kec (state_touch a) = touch a"
  "run kec (state_access_account a) = access_account a"
  "run kec (state_access_storage tr a key) = access_storage tr a key"
  "run kec (state_update_page a key status) = update_page a key status"
  "run kec (state_selfdestruct tr a b) = selfdestruct tr a b"
  "run kec (state_read_code h) = read_code h"
  "run kec (state_get_code_size a) = get_code_size a"
  "run kec (state_copy_code a offset sz) = copy_code a offset sz"
  "run kec (state_set_code a c) = set_code kec a c"
  "run kec (state_create_contract a) = create_contract a"
  "run kec (state_create_account_no_rollback a) = create_account_no_rollback a"
  "run kec state_logs = logs"
  "run kec (state_store_log l) = store_log l"
  "run kec (state_record_balance_constraint_for_debit a d) = record_balance_constraint_for_debit a d"
  "run kec (state_init_from_tx tr sender tx fee_opt i ctx) = init_from_tx tr sender tx fee_opt i ctx"
  "run kec (state_revert_transaction tr sender tx fee i ctx) = revert_transaction tr sender tx fee i ctx"
  "run kec (state_revert_transaction_cached tr) = revert_transaction_cached tr"
  "run kec (state_destruct_suicides tr) = destruct_suicides tr"
  "run kec state_destruct_touched_dead = destruct_touched_dead"
  "run kec (state_set_validate_exact_balance a) = thenS (original_account_state a) (modify_original a set_validate_exact_balance)"
  "run kec state_push = push"
  "run kec state_pop_accept = pop_accept"
  "run kec state_pop_reject = pop_reject"
  unfolding state_calls
  by (rule run_ask, simp, simp add: to_ans split: prod.split)+

section \<open>Every client respects the frames below it\<close>

lemma destruct_suicide_shape:
  "destruct_suicide tr inc stack = Inr stack' \<Longrightarrow> \<exists>x y. stack = [(0, x)] \<and> stack' = [(0, y)]"
  by (cases stack rule: vs_version.cases)
    (auto simp: destruct_suicide_def vs_size_def split: if_splits option.splits)

lemma destruct_dead_shape:
  "destruct_dead stack = Inr stack' \<Longrightarrow> \<exists>x y. stack = [(0, x)] \<and> stack' = [(0, y)]"
  by (cases stack rule: vs_version.cases)
    (auto simp: destruct_dead_def vs_size_def split: if_splits option.splits)

lemma map_res_rel:
  assumes "map_res f m = Inr m'"
  shows "keys m' = keys m"
    and "\<And>k. (map_of m k = None \<and> map_of m' k = None) \<or>
      (\<exists>v w. map_of m k = Some v \<and> map_of m' k = Some w \<and> f v = Inr w)"
proof -
  have "keys m' = keys m \<and> (\<forall>k. (map_of m k = None \<and> map_of m' k = None) \<or>
      (\<exists>v w. map_of m k = Some v \<and> map_of m' k = Some w \<and> f v = Inr w))"
    using assms
  proof (induction m arbitrary: m')
    case (Cons p m)
    obtain k v w m1 where p: "p = (k, v)" "f v = Inr w" "map_res f m = Inr m1" "m' = (k, w) # m1"
      using Cons.prems by (cases p) auto
    show ?case using Cons.IH[OF p(3)] p by auto
  qed simp
  then show "keys m' = keys m" and "\<And>k. (map_of m k = None \<and> map_of m' k = None) \<or>
      (\<exists>v w. map_of m k = Some v \<and> map_of m' k = Some w \<and> f v = Inr w)"
    by auto
qed

lemma framed_end_loop:
  assumes m: "map_res f (st_current s) = Inr m" and v: "st_version s = 0"
    and shape: "\<And>st st'. f st = Inr st' \<Longrightarrow> \<exists>x y. st = [(0, x)] \<and> st' = [(0, y)]"
  shows "framed n s (s\<lparr>st_current := m\<rparr>)"
proof -
  have k: "wf_map m = wf_map (st_current s)" using map_res_rel(1)[OF m] by simp
  have stk: "(stk s a = [] \<and> map_of m a = None) \<or>
      (\<exists>x y. stk s a = [(0, x)] \<and> map_of m a = Some [(0, y)])" for a
    using map_res_rel(2)[OF m, of a] shape by (fastforce simp: stk_def)
  have "versions (stk (s\<lparr>st_current := m\<rparr>) a) = versions (stk s a)" for a
    using stk[of a] by (auto simp: stk_def)
  moreover have "vs_ok 0 stack" if "map_of m a = Some stack" for a stack
    using stk[of a] that by auto
  ultimately show ?thesis
    using k v by (simp add: framed_def frames_ok_def)
qed

lemma framed_destruct_suicides: "keeps (framed n) (destruct_suicides tr)"
  by (auto simp: keeps_def destruct_suicides_def sm_simps
      intro!: framed_end_loop dest: destruct_suicide_shape)

lemma framed_destruct_touched_dead: "keeps (framed n) destruct_touched_dead"
  by (auto simp: keeps_def destruct_touched_dead_def sm_simps
      intro!: framed_end_loop dest: destruct_dead_shape)

text \<open>The frame operations are those that change the number of open frames.\<close>

definition frame_step :: "op \<Rightarrow> nat \<Rightarrow> nat option" where
  "frame_step opn d =
     (if opn = OpPush then Some (Suc d)
      else if opn = OpPopAccept \<or> opn = OpPopReject then (if d = 0 then None else Some (d - 1))
      else Some d)"

lemma framed_exec_op:
  assumes "opn \<notin> {OpPush, OpPopAccept, OpPopReject}"
  shows "keeps (framed n) (exec_op kec opn)"
  using assms
  by (cases opn; simp only: exec_op.simps answer_def)
    (intro frm.keeps_rules frm.keeps_ops framed_destruct_suicides framed_destruct_touched_dead
      frm.keeps_prims | simp)+

text \<open>What closing a frame keeps of the frames below it.\<close>

definition closes :: "nat \<Rightarrow> tx_state \<Rightarrow> tx_state \<Rightarrow> bool" where
  "closes n s t \<longleftrightarrow> (\<forall>m. frames_ok s \<longrightarrow> st_version s = Suc m \<longrightarrow>
     frames_ok t \<and> st_version t = m \<and>
     (n < m \<longrightarrow>
       (\<forall>a. below n (stk t a) = below n (stk s a)) \<and>
       below n (st_logs t) = below n (st_logs s) \<and>
       drop (m - n) (st_dirty t) = drop (m - n) (tl (st_dirty s))))"

lemma closes_pop_accept: "keeps (closes n) pop_accept"
proof (rule keepsI, unfold closes_def, intro allI impI)
  fix s x t m
  assume run: "pop_accept s = Inr (x, t)" and ok: "frames_ok s" and v: "st_version s = Suc m"
  from pop_accept_run[OF ok v] run have
    t: "frames_ok t" "st_version t = m"
      "\<And>a. stk t a = (if stk s a = [] then [] else accepted m (stk s a))"
      "st_logs t = accepted m (st_logs s)"
      "st_dirty t = fold mark_dirty (hd (st_dirty s)) (tl (st_dirty s))"
    by auto
  have b: "below n (accepted m stack) = below n stack" if "vs_ok (Suc m) stack" "n < m"
    for stack :: "'a version_stack"
    by (rule below_pop_accept[OF accepted_ok(1)[OF that(1)] that(2)])
  have s: "stk s a = [] \<or> vs_ok (Suc m) (stk s a)" for a
    using stk_ok[OF ok, of a] v by auto
  have l: "vs_ok (Suc m) (st_logs s)" using ok v by (simp add: frames_ok_def)
  have d: "drop k (fold mark_dirty as ds) = drop k ds" if "0 < k" for k as ds
    using that by (induction as arbitrary: ds) (simp_all add: drop_mark_dirty)
  have "(\<forall>a. below n (stk t a) = below n (stk s a)) \<and> below n (st_logs t) = below n (st_logs s) \<and>
       drop (m - n) (st_dirty t) = drop (m - n) (tl (st_dirty s))" if "n < m"
  proof (intro conjI allI)
    show "below n (stk t a) = below n (stk s a)" for a
      using s[of a] b[OF _ that] by (auto simp: t)
    show "below n (st_logs t) = below n (st_logs s)"
      using b[OF l that] by (simp add: t)
    show "drop (m - n) (st_dirty t) = drop (m - n) (tl (st_dirty s))"
      using that by (simp add: t d)
  qed
  with t(1,2) show "frames_ok t \<and> st_version t = m \<and>
     (n < m \<longrightarrow> (\<forall>a. below n (stk t a) = below n (stk s a)) \<and>
       below n (st_logs t) = below n (st_logs s) \<and>
       drop (m - n) (st_dirty t) = drop (m - n) (tl (st_dirty s)))"
    by blast
qed

lemma closes_pop_reject: "keeps (closes n) pop_reject"
proof (rule keepsI, unfold closes_def, intro allI impI)
  fix s x t m
  assume run: "pop_reject s = Inr (x, t)" and ok: "frames_ok s" and v: "st_version s = Suc m"
  note r = pop_reject_run[OF ok v run]
  show "frames_ok t \<and> st_version t = m \<and>
     (n < m \<longrightarrow> (\<forall>a. below n (stk t a) = below n (stk s a)) \<and>
       below n (st_logs t) = below n (st_logs s) \<and>
       drop (m - n) (st_dirty t) = drop (m - n) (tl (st_dirty s)))"
    using r by (simp add: below_below)
qed

text \<open>
  \<open>frames_in p d Q\<close>: started with \<open>d\<close> frames of its own open, \<open>p\<close> never closes a frame it has not
  opened, and its result and the number of frames it leaves open satisfy \<open>Q\<close>.
\<close>

primrec frames_in :: "'a prog \<Rightarrow> nat \<Rightarrow> ('a \<Rightarrow> nat \<Rightarrow> bool) \<Rightarrow> bool" where
  "frames_in (Ret r) d Q = Q r d"
| "frames_in (Fail e) d Q = True"
| "frames_in (Do opn k) d Q =
     (case frame_step opn d of None \<Rightarrow> False | Some e \<Rightarrow> (\<forall>x. frames_in (k x) e Q))"

definition nested :: "'a prog \<Rightarrow> bool" where
  "nested p \<longleftrightarrow> frames_in p 0 (\<lambda>_ e. e = 0)"

lemma frame_step_shift: "frame_step opn d = Some e \<Longrightarrow> frame_step opn (d + k) = Some (e + k)"
  by (auto simp: frame_step_def split: if_splits)

lemma frames_in_shift:
  "frames_in p d P \<Longrightarrow> (\<And>x e. P x e \<Longrightarrow> Q x (e + k)) \<Longrightarrow> frames_in p (d + k) Q"
proof (induction p arbitrary: d)
  case (Do opn k')
  obtain e where e: "frame_step opn d = Some e" "\<And>x. frames_in (k' x) e P"
    using Do.prems(1) by (auto split: option.splits)
  then have "frames_in (k' x) (e + k) Q" for x by (intro Do.IH Do.prems(2)) auto
  then show ?case using frame_step_shift[OF e(1)] by simp
qed auto

lemma nested_frames_in: "nested p \<Longrightarrow> (\<And>x. Q x d) \<Longrightarrow> frames_in p d Q"
  using frames_in_shift[of p 0 "\<lambda>_ e. e = 0" Q d] by (simp add: nested_def)

lemma frames_in_bindP [simp]:
  "frames_in (bindP p f) d Q = frames_in p d (\<lambda>x e. frames_in (f x) e Q)"
  by (induction p arbitrary: d) (simp_all split: option.split)

lemma frames_in_thenP [simp]: "frames_in (thenP p q) d Q = frames_in p d (\<lambda>_ e. frames_in q e Q)"
  by (simp add: thenP_def)

lemma frames_in_checks [simp]:
  "frames_in (assertP b) d Q = (b \<longrightarrow> Q () d)" "frames_in (throwP b msg) d Q = (b \<longrightarrow> Q () d)"
  "frames_in (liftP m) d R = (\<forall>x. m = Inr x \<longrightarrow> R x d)"
  by (auto simp: assertP_def throwP_def liftP_def split: sum.split)

lemma frames_in_splits [simp]:
  "frames_in (if b then p else q) d Q = (if b then frames_in p d Q else frames_in q d Q)"
  by simp

lemma nested_intros [intro]:
  "nested (Ret x)" "nested (Fail e)" "nested (assertP b)" "nested (throwP b msg)" "nested (liftP m)"
  by (auto simp: nested_def)

lemma nested_bindP [intro]: "nested p \<Longrightarrow> (\<And>x. nested (f x)) \<Longrightarrow> nested (bindP p f)"
  by (simp add: nested_def nested_frames_in[unfolded nested_def])

lemma nested_thenP [intro]: "nested p \<Longrightarrow> nested q \<Longrightarrow> nested (thenP p q)"
  unfolding thenP_def by (rule nested_bindP)

lemma nested_forP [intro]: "(\<And>x. nested (f x)) \<Longrightarrow> nested (forP xs f)"
  by (induction xs) auto

lemma nested_if [intro]: "nested p \<Longrightarrow> nested q \<Longrightarrow> nested (if b then p else q)"
  by simp

lemma frames_in_frame_calls [simp]:
  "frames_in state_push d Q = Q () (Suc d)"
  "frames_in state_pop_accept (Suc d) Q = Q () d" "frames_in state_pop_reject (Suc d) Q = Q () d"
  by (simp_all add: state_calls ask_def frame_step_def to_ans split: ans.split)

lemma frames_in_ask:
  "opn \<notin> {OpPush, OpPopAccept, OpPopReject} \<Longrightarrow> nested (ask f opn)"
  by (simp add: nested_def ask_def frame_step_def split: option.split)

lemma nested_state_calls [intro]:
  "nested (state_account_exists a)" "nested (state_account_is_dead a)"
  "nested (state_account_has_code_or_nonce a)" "nested (state_get_nonce a)"
  "nested (state_get_balance a)" "nested (state_get_original_balance a)"
  "nested (state_get_code_hash a)" "nested (state_is_touched a)"
  "nested (state_get_storage a key)" "nested (state_get_transient_storage a key)"
  "nested (state_set_nonce a n)" "nested (state_add_to_balance a v)"
  "nested (state_subtract_from_balance a v)" "nested (state_set_storage a key v)"
  "nested (state_set_transient_storage a key v)" "nested (state_touch a)"
  "nested (state_access_account a)" "nested (state_access_storage tr a key)"
  "nested (state_update_page a key st)" "nested (state_selfdestruct tr a b)"
  "nested (state_read_code h)" "nested (state_get_code_size a)"
  "nested (state_copy_code a i sz)" "nested (state_set_code a c)"
  "nested (state_create_contract a)" "nested (state_create_account_no_rollback a)"
  "nested state_logs" "nested (state_store_log l)"
  "nested (state_record_balance_constraint_for_debit a v)" "nested (state_init_from_tx tr sender tx fee_opt i ctx)"
  "nested (state_revert_transaction tr sender tx fee i ctx)" "nested (state_revert_transaction_cached tr)"
  "nested (state_destruct_suicides tr)" "nested state_destruct_touched_dead"
  "nested (state_set_validate_exact_balance a)"
  unfolding state_calls by (rule frames_in_ask, simp)+

lemmas frames_in_calls [simp] = nested_state_calls[THEN nested_frames_in]

text \<open>
  What such a program keeps of the frames at and below \<open>n\<close>, when it starts \<open>d\<close> frames above \<open>m\<close>
  and ends \<open>e\<close> frames above it.
\<close>

definition stays :: "nat \<Rightarrow> nat \<Rightarrow> nat \<Rightarrow> nat \<Rightarrow> tx_state \<Rightarrow> tx_state \<Rightarrow> bool" where
  "stays n m d e s t \<longleftrightarrow> frames_ok t \<and> st_version t = m + e \<and>
     (n < m \<longrightarrow>
       (\<forall>a. below n (stk t a) = below n (stk s a)) \<and>
       below n (st_logs t) = below n (st_logs s) \<and>
       drop (m + e - n) (st_dirty t) = drop (m + d - n) (st_dirty s))"

lemma stays_trans: "stays n m d e s t \<Longrightarrow> stays n m e f t u \<Longrightarrow> stays n m d f s u"
  by (simp add: stays_def)

lemma keeps_answer: "keeps R (answer f m) \<longleftrightarrow> keeps R m"
  by (auto simp: keeps_def answer_def bindS_eq_Inr returnS_def)

lemma stays_exec_op:
  assumes run: "exec_op kec opn s = Inr (x, t)" and step: "frame_step opn d = Some e"
    and ok: "frames_ok s" and v: "st_version s = m + d"
  shows "stays n m d e s t"
proof -
  consider (push) "opn = OpPush" | (accept) "opn = OpPopAccept" | (reject) "opn = OpPopReject"
    | (other) "opn \<notin> {OpPush, OpPopAccept, OpPopReject}" by auto
  then show ?thesis
  proof cases
    case push
    then have t: "t = s\<lparr>st_version := Suc (st_version s), st_dirty := [] # st_dirty s\<rparr>"
      using run push_run[OF ok] by (auto simp: answer_def bindS_eq_Inr returnS_def)
    have "frames_ok t" unfolding t by (rule frames_ok_push[OF ok])
    with push step v show ?thesis
      by (auto simp: stays_def frame_step_def stk_def Suc_diff_le) (simp_all add: t stk_def Suc_diff_le)
  next
    case accept
    then obtain d' where d: "d = Suc d'" "e = d'"
      using step by (cases d) (auto simp: frame_step_def)
    have "keeps (closes n) (exec_op kec opn)" by (simp add: accept keeps_answer closes_pop_accept)
    from keepsD[OF this run] have "closes n s t" .
    with ok v d show ?thesis
      by (auto simp: closes_def stays_def drop_Suc Suc_diff_le)
  next
    case reject
    then obtain d' where d: "d = Suc d'" "e = d'"
      using step by (cases d) (auto simp: frame_step_def)
    have "keeps (closes n) (exec_op kec opn)" by (simp add: reject keeps_answer closes_pop_reject)
    from keepsD[OF this run] have "closes n s t" .
    with ok v d show ?thesis
      by (auto simp: closes_def stays_def drop_Suc Suc_diff_le)
  next
    case other
    then have "e = d" using step by (simp add: frame_step_def)
    moreover have "framed n s t" by (rule keepsD[OF framed_exec_op[OF other] run])
    ultimately show ?thesis using ok v by (simp add: framed_def stays_def)
  qed
qed

lemma frames_in_run:
  "frames_in p d Q \<Longrightarrow> run kec p s = Inr (x, t) \<Longrightarrow> frames_ok s \<Longrightarrow> st_version s = m + d \<Longrightarrow>
     \<exists>e. Q x e \<and> stays n m d e s t"
proof (induction p arbitrary: d s)
  case (Ret r)
  then show ?case by (auto simp: returnS_def stays_def)
next
  case (Do opn k)
  obtain e where e: "frame_step opn d = Some e" "\<And>y. frames_in (k y) e Q"
    using Do.prems(1) by (auto split: option.splits)
  obtain y u where u: "exec_op kec opn s = Inr (y, u)" "run kec (k y) u = Inr (x, t)"
    using Do.prems(2) by (auto simp: bindS_eq_Inr)
  have st: "stays n' m d e s u" for n' by (rule stays_exec_op[OF u(1) e(1) Do.prems(3,4)])
  then have "frames_ok u" "st_version u = m + e" by (simp_all add: stays_def)
  from Do.IH[OF _ e(2) u(2) this] obtain f where "Q x f" "stays n m e f u t" by auto
  with st stays_trans show ?case by blast
qed simp

lemma framed_run: "nested p \<Longrightarrow> keeps (framed n) (run kec p)"
  using frames_in_run[of p 0 "\<lambda>_ e. e = 0" kec]
  by (fastforce simp: keeps_def framed_def nested_def stays_def)

section \<open>Rollback\<close>

lemma frames_ok_State: "frames_ok (State bs inc relaxed)"
  by (simp add: State_def frames_ok_def stk_def VersionStack_def)

lemma frames_ok_run: "run kec p s = Inr (x, t) \<Longrightarrow> nested p \<Longrightarrow> frames_ok s \<Longrightarrow> frames_ok t"
  using keepsD[OF framed_run[of p 0]] by (simp add: framed_def)

lemma rejected_frame:
  assumes ok: "frames_ok s" and push: "push s = Inr (u, s1)"
    and body: "framed (st_version s) s1 s2" and pop: "pop_reject s2 = Inr (z, t)"
  shows "map_of (st_current t) = map_of (st_current s) \<and> st_logs t = st_logs s \<and>
    st_version t = st_version s \<and> st_dirty t = st_dirty s"
proof -
  let ?n = "st_version s"
  have s1: "s1 = s\<lparr>st_version := Suc ?n, st_dirty := [] # st_dirty s\<rparr>"
    using push_run[OF ok] push by simp
  have ok1: "frames_ok s1" unfolding s1 by (rule frames_ok_push[OF ok])
  have stk1: "stk s1 = stk s" by (simp add: s1 stk_def fun_eq_iff)
  from body have s2: "frames_ok s2" "st_version s2 = Suc ?n"
    "\<And>a. below ?n (stk s2 a) = below ?n (stk s a)"
    "below ?n (st_logs s2) = below ?n (st_logs s)" "tl (st_dirty s2) = st_dirty s"
    using ok1 by (simp_all add: framed_def stk1) (simp_all add: s1 drop_Suc)
  note t = pop_reject_run[OF s2(1,2) pop]
  have stk_eq: "stk t a = stk s a" for a
    using stk_ok[OF ok, of a] below_ok[of ?n "stk s a"]
    by (cases "stk s a = []") (auto simp: t(3) s2(3))
  have "map_of (st_current t) a = map_of (st_current s) a" for a
    using stk_eq[of a] stk_Nil_iff[OF ok, of a] stk_Nil_iff[OF t(1), of a]
    by (auto simp: stk_def split: option.splits)
  moreover have "st_logs t = st_logs s"
    using ok by (auto simp: t(4) s2(4) frames_ok_def below_ok)
  ultimately show ?thesis by (simp add: fun_eq_iff t(2,5) s2(5))
qed

definition rejected_call :: "'a prog \<Rightarrow> 'a prog" where
  "rejected_call body =
     thenP state_push (bindP body (\<lambda>x. thenP state_pop_reject (Ret x)))"

text \<open>
  C2: a rejected call frame leaves no trace in the state of the transaction. Whatever operations
  the callee performs, and however deeply it nests accepted and rejected frames of its own, after
  \<open>pop_reject\<close> the version stacks of all accounts, the logs, the frame counter and the dirty sets
  are exactly those before \<open>push\<close>.
\<close>

theorem rejected_frame_rolls_back:
  assumes "frames_ok s" and "nested body" and "run kec (rejected_call body) s = Inr (x, t)"
  shows "map_of (st_current t) = map_of (st_current s) \<and> st_logs t = st_logs s \<and>
    st_version t = st_version s \<and> st_dirty t = st_dirty s"
proof -
  obtain u s1 y s2 z where r: "push s = Inr (u, s1)" "run kec body s1 = Inr (y, s2)"
    "pop_reject s2 = Inr (z, t)"
    using assms(3) by (auto simp: rejected_call_def run_prog thenS_eq_Inr bindS_eq_Inr returnS_run)
  have "framed (st_version s) s1 s2" by (rule keepsD[OF framed_run[OF assms(2)] r(2)])
  from rejected_frame[OF assms(1) r(1) this r(3)] show ?thesis .
qed

definition null_db :: db where
  "null_db = \<lparr>db_read_account = (\<lambda>_. None), db_read_storage = (\<lambda>_ _ _. 0),
     db_read_code = (\<lambda>_. None)\<rparr>"

lemmas run_defs =
  run.simps exec_op.simps answer_def sm_simps push_def pop_accept_def pop_reject_def take_dirty_def
  pop_reject_account_def erase_empty_def on_pop_reject_def find_current_def find_original_def
  put_stack_def current_account_def current_account_state_def original_account_state_def
  lift_bs_def emplace_original_def modify_current_def set_account_def account_or_new_def
  read_account_def mark_dirty_def VersionStack_def Let_def

theorem rejected_frame_rolls_back_witness:
  "\<exists>t. run (\<lambda>_. 0) (rejected_call (state_set_nonce 5 7))
      (State (BlockState null_db [] None) (Incarnation 1 2) False) = Inr ((), t) \<and>
    st_original t \<noteq> [] \<and> map_of (st_current t) = Map.empty"
proof -
  let ?s = "State (BlockState null_db [] None) (Incarnation 1 2) False"
  let ?p = "rejected_call (state_set_nonce 5 7)"
  have "\<exists>t. run (\<lambda>_. 0) ?p ?s = Inr ((), t) \<and> st_original t \<noteq> []"
    by (simp add: rejected_call_def run_prog run_defs State_def BlockState_def null_db_def
        ReserveBalance_def set_nonce_def)
  then obtain t where t: "run (\<lambda>_. 0) ?p ?s = Inr ((), t)" "st_original t \<noteq> []" by blast
  have "nested (state_set_nonce 5 7)" by (rule nested_state_calls)
  from rejected_frame_rolls_back[OF frames_ok_State this t(1)]
  have "map_of (st_current t) = Map.empty" by (simp add: State_def)
  with t show ?thesis by blast
qed

end
