(* ===== verification/Tx_Incarnations.thy ===== *)
theory Tx_Incarnations
  imports Client
begin

text \<open>
  Incarnations in a transaction. \<open>State\<close> gives an account its own incarnation when it creates a
  contract, or the last one of its block when it creates an account for an authority; otherwise an
  account keeps the incarnation it was read with. \<open>inc_ok\<close> states this of every version of every
  account, and every operation keeps it.
\<close>

section \<open>The invariant\<close>

definition last_incarnation :: "incarnation \<Rightarrow> incarnation" where
  "last_incarnation inc = Incarnation (get_block inc) LAST_TX"

definition own_inc :: "tx_state \<Rightarrow> incarnation \<Rightarrow> bool" where
  "own_inc s i \<longleftrightarrow> i = st_incarnation s \<or> i = last_incarnation (st_incarnation s)"

definition original_inc :: "tx_state \<Rightarrow> address \<Rightarrow> incarnation \<Rightarrow> bool" where
  "original_inc s a i \<longleftrightarrow>
     (\<exists>o1 acct. map_of (st_original s) a = Some o1 \<and> as_account o1 = Some acct \<and> incarnation acct = i)"

definition account_inc_ok :: "tx_state \<Rightarrow> address \<Rightarrow> account option \<Rightarrow> bool" where
  "account_inc_ok s a account \<longleftrightarrow>
     (\<forall>acct. account = Some acct \<longrightarrow> own_inc s (incarnation acct) \<or> original_inc s a (incarnation acct))"

definition entries :: "'a version_stack \<Rightarrow> 'a set" where
  "entries stack = snd ` set stack"

lemma entries_simps [simp]: "entries [] = {}" "entries ((v, x) # stack) = insert x (entries stack)"
  by (simp_all add: entries_def)

definition inc_ok :: "tx_state \<Rightarrow> bool" where
  "inc_ok s \<longleftrightarrow> (\<forall>a stack st. map_of (st_current s) a = Some stack \<longrightarrow> st \<in> entries stack \<longrightarrow>
     account_inc_ok s a (as_account st))"

lemma inc_okD:
  "inc_ok s \<Longrightarrow> map_of (st_current s) a = Some stack \<Longrightarrow> st \<in> entries stack \<Longrightarrow>
     account_inc_ok s a (as_account st)"
  by (simp add: inc_ok_def)

definition incs :: "tx_state \<Rightarrow> tx_state \<Rightarrow> bool" where
  "incs s t \<longleftrightarrow> st_incarnation t = st_incarnation s \<and>
     (\<forall>a i. original_inc s a i \<longrightarrow> original_inc t a i) \<and> (inc_ok s \<longrightarrow> inc_ok t)"

lemma account_inc_ok_mono: "incs s t \<Longrightarrow> account_inc_ok s a account \<Longrightarrow> account_inc_ok t a account"
  by (auto simp: incs_def account_inc_ok_def own_inc_def)

text \<open>A step that has the originals and whose versions all come from versions that were there.\<close>

lemma incsI:
  assumes "st_incarnation t = st_incarnation s" "\<And>a i. original_inc s a i \<Longrightarrow> original_inc t a i"
    and "\<And>a stack st. map_of (st_current t) a = Some stack \<Longrightarrow> st \<in> entries stack \<Longrightarrow> inc_ok s \<Longrightarrow>
      account_inc_ok s a (as_account st) \<or> account_inc_ok t a (as_account st)"
  shows "incs s t"
proof -
  have "account_inc_ok s a account \<Longrightarrow> account_inc_ok t a account" for a account
    using assms(1,2) by (auto simp: account_inc_ok_def own_inc_def)
  then show ?thesis using assms unfolding incs_def inc_ok_def by blast
qed

lemma incs_same_current:
  assumes "st_incarnation t = st_incarnation s" "st_current t = st_current s"
    "\<And>a i. original_inc s a i \<Longrightarrow> original_inc t a i"
  shows "incs s t"
  using assms by (intro incsI) (auto dest: inc_okD)

interpretation inr: program_relation incs
  by unfold_locales (auto simp: incs_def)

section \<open>Reading\<close>

lemma incs_original: "keeps incs (original_account_state a)"
  by (rule keepsI, rule incs_same_current)
    (auto simp: original_account_state_def find_original_def lift_bs_def emplace_original_def
      sm_simps original_inc_def split: option.splits prod.splits)

lemma incs_modify_original:
  assumes "\<And>o'. slice (f o') = slice o'"
  shows "keeps incs (modify_original a f)"
proof (rule keepsI)
  fix s x t assume "modify_original a f s = Inr (x, t)"
  moreover have "as_account (f o') = as_account o'" for o'
    using assms[of o'] by (auto simp: account_state.truncate_def)
  ultimately show "incs s t"
    by (intro incs_same_current)
      (auto simp: modify_original_def modifyS_def original_inc_def split: option.splits)
qed

lemma incs_read_original_storage: "keeps incs (read_original_storage a inc key)"
  by (rule keepsI, rule incs_same_current)
    (auto simp: read_original_storage_def find_original_def lift_bs_res_def modify_original_def
      sm_simps original_inc_def split: option.splits)

lemma incs_prims:
  "keeps incs (lift_bs f)" "keeps incs (lift_bs_res g)" "keeps incs (modify_rb r)"
  "keeps incs (insert_code h c)" "keeps incs (store_log l)"
  by (rule keepsI, rule incs_same_current;
      auto simp: lift_bs_def lift_bs_res_def modify_rb_def modifyS_def insert_code_def store_log_def
        sm_simps original_inc_def split: prod.splits option.splits)+

interpretation inr: state_read_relation incs
  by unfold_locales
    (fact incs_original incs_read_original_storage incs_prims | rule incs_modify_original, assumption)+

section \<open>Writing\<close>

lemma vs_current_entries:
  "vs_current n stack = Inr (x, stack') \<Longrightarrow> x \<in> entries stack' \<and> entries stack' = entries stack"
  by (cases stack) (auto split: if_splits)

lemma vs_modify_entries:
  "st \<in> entries (vs_modify n f stack) \<Longrightarrow> st \<in> entries stack \<or> (\<exists>st0 \<in> entries stack. st = f st0)"
  by (cases stack) (auto split: if_splits)

lemma incs_current: "keeps incs (current_account_state a)"
proof (rule keepsI)
  fix s x t assume run: "current_account_state a s = Inr (x, t)"
  show "incs s t"
  proof (cases "map_of (st_current s) a")
    case (Some stack)
    then obtain stack' where t: "vs_current (st_version s) stack = Inr (x, stack')"
      "t = s\<lparr>st_dirty := mark_dirty a (st_dirty s), st_current := AList.update a stack' (st_current s)\<rparr>"
      using run by (auto simp: current_account_state_def find_current_def put_stack_def sm_simps)
    have "st_original t = st_original s" "st_incarnation t = st_incarnation s"
      "st_current t = AList.update a stack' (st_current s)" by (simp_all add: t(2))
    then show ?thesis
      using vs_current_entries[OF t(1)] Some
      by (intro incsI) (auto simp: original_inc_def split: if_splits dest: inc_okD)
  next
    case None
    obtain o1 u where u: "original_account_state a s = Inr (o1, u)"
      using run None by (auto simp: current_account_state_def find_current_def sm_simps)
    have o1: "map_of (st_original u) a = Some o1"
      using u by (auto simp: original_account_state_def find_original_def lift_bs_def emplace_original_def
          sm_simps split: option.splits prod.splits)
    have t: "st_original t = st_original u" "st_incarnation t = st_incarnation u"
      "st_current t = AList.update a [(st_version u, slice o1)] (st_current u)"
      using run None u
      by (auto simp: current_account_state_def find_current_def put_stack_def sm_simps VersionStack_def)
    have "incs u t"
    proof (rule incsI)
      fix b stack st
      assume b: "map_of (st_current t) b = Some stack" "st \<in> entries stack" "inc_ok u"
      show "account_inc_ok u b (as_account st) \<or> account_inc_ok t b (as_account st)"
      proof (cases "b = a")
        case True
        then have "as_account st = as_account o1" using b(1,2) by (auto simp: t account_state.truncate_def)
        with True o1 show ?thesis by (auto simp: account_inc_ok_def original_inc_def)
      next
        case False
        with b show ?thesis by (auto simp: t dest: inc_okD)
      qed
    qed (simp_all add: t original_inc_def)
    then show ?thesis by (rule inr.rel_trans[OF keepsD[OF incs_original u]])
  qed
qed

lemma current_entry:
  assumes "current_account_state a s = Inr (x, t)"
  shows "\<exists>stack. map_of (st_current t) a = Some stack \<and> x \<in> entries stack"
  by (rule current_account_state_run[OF assms]) (use vs_current_entries in fastforce)

lemma incs_modify_current:
  assumes "\<And>st. as_account (f st) = as_account st"
  shows "keeps incs (modify_current a f)"
proof (rule keepsI)
  fix s x t assume run: "modify_current a f s = Inr (x, t)"
  show "incs s t"
  proof (rule incsI)
    fix b stack st
    assume b: "map_of (st_current t) b = Some stack" "st \<in> entries stack" and ok: "inc_ok s"
    obtain stack0 where s0: "map_of (st_current s) b = Some stack0"
      "stack = stack0 \<or> stack = vs_modify (st_version s) f stack0"
      using run b(1) by (auto simp: modify_current_def modifyS_def split: option.splits if_splits)
    obtain st0 where "st0 \<in> entries stack0" "as_account st = as_account st0"
      using s0(2) b(2) vs_modify_entries[of st "st_version s" f stack0] assms by metis
    then show "account_inc_ok s b (as_account st) \<or> account_inc_ok t b (as_account st)"
      using inc_okD[OF ok s0(1)] by metis
  qed (use run in \<open>auto simp: modify_current_def modifyS_def original_inc_def split: option.splits\<close>)
qed

lemma incs_set_account:
  assumes "set_account a new s = Inr (x, t)" "inc_ok s \<Longrightarrow> account_inc_ok s a new"
  shows "incs s t"
proof (rule incsI)
  fix b stack st
  assume b: "map_of (st_current t) b = Some stack" "st \<in> entries stack" and ok: "inc_ok s"
  let ?f = "\<lambda>st. st\<lparr>as_account := new\<rparr>"
  obtain stack0 where s0: "map_of (st_current s) b = Some stack0"
    "stack = stack0 \<or> b = a \<and> stack = vs_modify (st_version s) ?f stack0"
    using assms(1) b(1)
    by (auto simp: set_account_def modify_current_def modifyS_def split: option.splits if_splits)
  consider "st \<in> entries stack0" | "b = a" "as_account st = new"
    using s0(2) b(2) vs_modify_entries[of st "st_version s" ?f stack0] by auto
  then show "account_inc_ok s b (as_account st) \<or> account_inc_ok t b (as_account st)"
    using inc_okD[OF ok s0(1)] assms(2)[OF ok] by cases simp_all
qed (use assms(1) in \<open>auto simp: set_account_def modify_current_def modifyS_def original_inc_def
    split: option.splits\<close>)

text \<open>
  The common shape of the writing operations: an account is looked up, and the one written back has
  its incarnation or one of this transaction.
\<close>

lemma incs_write:
  assumes "current_account a s = Inr (account, u)" "incs u w" "set_account a new w = Inr (x, t)"
    and "\<And>acct. new = Some acct \<Longrightarrow>
      own_inc s (incarnation acct) \<or> (\<exists>old. account = Some old \<and> incarnation acct = incarnation old)"
  shows "incs s t"
proof -
  obtain st where st: "current_account_state a s = Inr (st, u)" "account = as_account st"
    using assms(1) by (auto simp: current_account_def sm_simps)
  have su: "incs s u" by (rule keepsD[OF incs_current st(1)])
  note sw = inr.rel_trans[OF su assms(2)]
  have w: "st_incarnation t = st_incarnation w" "st_original t = st_original w"
    using assms(3) by (auto simp: set_account_def modify_current_def modifyS_def split: option.splits)
  have "incs w t" if ok: "inc_ok s"
  proof (rule incs_set_account[OF assms(3)])
    have "inc_ok u" using su ok by (simp add: incs_def)
    then have "account_inc_ok u a account"
      using current_entry[OF st(1)] st(2) by (auto dest: inc_okD)
    then have "account_inc_ok w a account" by (rule account_inc_ok_mono[OF assms(2)])
    moreover have "own_inc w = own_inc s" using sw by (simp add: incs_def own_inc_def fun_eq_iff)
    ultimately show "account_inc_ok w a new" using assms(4) by (auto simp: account_inc_ok_def)
  qed
  moreover have "original_inc t = original_inc w" using w by (simp add: original_inc_def fun_eq_iff)
  ultimately show ?thesis using sw w(1) by (simp add: incs_def)
qed

text \<open>Operations that leave accounts alone, and those that write one.\<close>

lemma substate_accounts [simp]:
  "as_account (touch_substate st) = as_account st"
  "as_account (snd (access_substate st)) = as_account st"
  "as_account (snd (destruct st)) = as_account st"
  "as_account (snd (access_storage_key key st)) = as_account st"
  "as_account (snd (as_set_storage key v w st)) = as_account st"
  "as_account (as_set_transient_storage key v st) = as_account st"
  by (auto simp: touch_substate_def access_substate_def destruct_def access_storage_key_def
      as_set_storage_def zero_out_key_def set_current_value_def as_set_transient_storage_def Let_def)

lemmas incs_rules = inr.keeps_lookups incs_current incs_prims(4,5) incs_modify_current

lemma incs_substate_ops:
  "keeps incs (touch a)" "keeps incs (access_account a)" "keeps incs (set_storage a key v)"
  "keeps incs (set_transient_storage a key v)" "keeps incs (access_storage tr a key)"
  "keeps incs (update_page a key status)"
  unfolding touch_def access_account_def set_storage_def set_transient_storage_def
    access_storage_def update_page_def
  by (intro incs_rules; simp)+

lemma own_inc_intros [simp]:
  "own_inc s (st_incarnation s)" "own_inc s (last_incarnation (st_incarnation s))"
  by (simp_all add: own_inc_def)

lemma current_incarnation: "current_account a s = Inr (account, u) \<Longrightarrow> st_incarnation u = st_incarnation s"
  using keepsD[OF incs_current, of a s] by (auto simp: current_account_def sm_simps incs_def)

lemma incs_write_op:
  assumes "\<And>s account u x t. current_account a s = Inr (account, u) \<Longrightarrow>
      st_incarnation u = st_incarnation s \<Longrightarrow> f account u = Inr (x, t) \<Longrightarrow>
      incs u t \<or> (\<exists>w new y v. incs u w \<and> set_account a new w = Inr (y, v) \<and> incs v t \<and>
        (\<forall>acct. new = Some acct \<longrightarrow>
          own_inc s (incarnation acct) \<or> (\<exists>old. account = Some old \<and> incarnation acct = incarnation old)))"
  shows "keeps incs (bindS (current_account a) f)"
proof (rule keepsI)
  fix s x t assume "bindS (current_account a) f s = Inr (x, t)"
  then obtain account u where r: "current_account a s = Inr (account, u)" "f account u = Inr (x, t)"
    by (auto simp: bindS_eq_Inr)
  have "incs s u" using r(1) keepsD[OF incs_current, of a s] by (auto simp: current_account_def sm_simps)
  from assms[OF r(1) current_incarnation[OF r(1)] r(2)] show "incs s t"
  proof (elim disjE exE conjE)
    assume "incs u t"
    then show ?thesis by (rule inr.rel_trans[OF \<open>incs s u\<close>])
  next
    fix w new y v
    assume w: "incs u w" "set_account a new w = Inr (y, v)" "incs v t"
      "\<forall>acct. new = Some acct \<longrightarrow>
        own_inc s (incarnation acct) \<or> (\<exists>old. account = Some old \<and> incarnation acct = incarnation old)"
    have "incs s v" by (rule incs_write[OF r(1) w(1,2)]) (use w(4) in blast)
    then show ?thesis by (rule inr.rel_trans[OF _ w(3)])
  qed
qed

lemma incs_write_one:
  assumes "\<And>s account u x t. st_incarnation u = st_incarnation s \<Longrightarrow> f account u = Inr (x, t) \<Longrightarrow>
      \<exists>new. set_account a new u = Inr ((), t) \<and> (\<forall>acct. new = Some acct \<longrightarrow>
        own_inc s (incarnation acct) \<or> (\<exists>old. account = Some old \<and> incarnation acct = incarnation old))"
  shows "keeps incs (bindS (current_account a) f)"
  by (rule incs_write_op) (use assms inr.rel_refl in meson)

lemma incs_write_ops:
  "keeps incs (set_nonce a n)" "keeps incs (create_contract a)"
  "keeps incs (create_account_no_rollback a)" "keeps incs (set_to_state_incarnation a)"
  unfolding set_nonce_def create_contract_def create_account_no_rollback_def set_to_state_incarnation_def
  by (rule incs_write_one, auto simp: sm_simps account_or_new_def new_account_def own_inc_def
      last_incarnation_def split: option.splits)+

lemma incs_touch_then:
  assumes "modify_current a touch_substate v = Inr (y, w)" "m w = Inr (x, t)" "keeps incs m"
  shows "incs v t"
  by (rule inr.rel_trans[OF keepsD[OF incs_modify_current assms(1)] keepsD[OF assms(3,2)]]) simp

lemma own_inc_or_new:
  "st_incarnation u = st_incarnation s \<Longrightarrow>
     own_inc s (incarnation (account_or_new (st_incarnation u) account)) \<or>
     (\<exists>old. account = Some old \<and> incarnation (account_or_new (st_incarnation u) account) = incarnation old)"
  by (auto simp: account_or_new_def new_account_def own_inc_def split: option.splits)

lemma incs_transfers: "keeps incs (add_to_balance a d)" "keeps incs (subtract_from_balance a d)"
proof -
  let ?acct = "\<lambda>u account. account_or_new (st_incarnation u) account"
  show "keeps incs (add_to_balance a d)" unfolding add_to_balance_def
  proof (rule incs_write_op, goal_cases)
    case (1 s account u x t)
    then obtain v w where r: "set_account a (Some ((?acct u account)\<lparr>balance := balance (?acct u account) + d\<rparr>)) u = Inr ((), v)"
      "modify_current a touch_substate v = Inr ((), w)" "on_credit a w = Inr (x, t)"
      by (auto simp: sm_simps Let_def)
    show ?case
      by (intro disjI2 exI conjI, rule inr.rel_refl, rule r(1), rule incs_touch_then[OF r(2,3) inr.keeps_on_credit])
        (use own_inc_or_new[OF 1(2)] in simp)
  qed
  show "keeps incs (subtract_from_balance a d)" unfolding subtract_from_balance_def
  proof (rule incs_write_op, goal_cases)
    case (1 s account u x t)
    then obtain v w where r: "set_account a (Some ((?acct u account)\<lparr>balance := balance (?acct u account) - d\<rparr>)) u = Inr ((), v)"
      "modify_current a touch_substate v = Inr ((), w)" "on_debit a w = Inr (x, t)"
      by (auto simp: sm_simps Let_def)
    show ?case
      by (intro disjI2 exI conjI, rule inr.rel_refl, rule r(1), rule incs_touch_then[OF r(2,3) inr.keeps_on_debit])
        (use own_inc_or_new[OF 1(2)] in simp)
  qed
qed

lemma incs_set_code: "keeps incs (set_code kec a c)"
  unfolding set_code_def
proof (rule incs_write_op, goal_cases)
  case (1 s account u x t)
  show ?case
  proof (cases account)
    case None
    with 1 show ?thesis by (simp add: returnS_def inr.rel_refl)
  next
    case (Some acct)
    then obtain w v where "insert_code (kec c) c u = Inr ((), w)"
      "set_account a (Some (acct\<lparr>code_hash := kec c\<rparr>)) w = Inr ((), v)" "on_set_code a c v = Inr (x, t)"
      using 1(3) by (auto simp: thenS_eq_Inr Let_def)
    with Some keepsD[OF incs_prims(4)] keepsD[OF inr.keeps_on_set_code] show ?thesis
      by (intro disjI2 exI[of _ w] exI[of _ "Some (acct\<lparr>code_hash := kec c\<rparr>)"] exI[of _ "()"] exI[of _ v])
        auto
  qed
qed

lemma incs_selfdestruct: "keeps incs (selfdestruct tr a b)"
  unfolding selfdestruct_def
  by (intro incs_rules incs_transfers inr.keeps_get_balance inr.keeps_is_current_incarnation
      inr.keeps_on_debit; simp)

section \<open>Frames and the end of a transaction\<close>

lemma incs_modifyS:
  assumes "\<And>s. st_incarnation (f s) = st_incarnation s \<and> st_original (f s) = st_original s \<and>
    st_current (f s) = st_current s"
  shows "keeps incs (modifyS f)"
  using assms by (intro keepsI incs_same_current) (auto simp: modifyS_def original_inc_def)

text \<open>A step that replaces the version stacks by stacks with no new entries.\<close>

definition stack_accounts :: "account_state version_stack \<Rightarrow> account option set" where
  "stack_accounts stack = insert None (as_account ` entries stack)"

lemma stack_accounts_Cons [simp]:
  "stack_accounts ((v, x) # stack) = insert (as_account x) (stack_accounts stack)"
  by (auto simp: stack_accounts_def)

lemma incs_stacks:
  assumes "st_incarnation t = st_incarnation s" "st_original t = st_original s"
    and "\<And>a stack. map_of (st_current t) a = Some stack \<Longrightarrow>
      \<exists>stack0. map_of (st_current s) a = Some stack0 \<and> stack_accounts stack \<subseteq> stack_accounts stack0"
  shows "incs s t"
proof (rule incsI)
  fix a stack st
  assume a: "map_of (st_current t) a = Some stack" "st \<in> entries stack" and ok: "inc_ok s"
  obtain stack0 where s0: "map_of (st_current s) a = Some stack0"
    "stack_accounts stack \<subseteq> stack_accounts stack0"
    using assms(3)[OF a(1)] by blast
  then consider "as_account st = None" | st0 where "st0 \<in> entries stack0" "as_account st = as_account st0"
    using a(2) by (auto simp: stack_accounts_def)
  then show "account_inc_ok s a (as_account st) \<or> account_inc_ok t a (as_account st)"
    by cases (use inc_okD[OF ok s0(1)] in \<open>simp_all add: account_inc_ok_def\<close>)
qed (use assms(1,2) in \<open>simp_all add: original_inc_def\<close>)

lemma vs_pop_accounts:
  "vs_pop_accept n stack = Inr stack' \<Longrightarrow> stack_accounts stack' \<subseteq> stack_accounts stack"
  "vs_pop_reject n stack = Inr (e, stack') \<Longrightarrow> stack_accounts stack' \<subseteq> stack_accounts stack"
  by (cases stack; auto simp: Let_def stack_accounts_def split: list.splits if_splits)+

lemma incs_put_stack:
  assumes "map_of (st_current s) a = Some stack" "stack_accounts stack' \<subseteq> stack_accounts stack"
    and "st_current t = AList.update a stack' (st_current s)" "st_incarnation t = st_incarnation s"
    "st_original t = st_original s"
  shows "incs s t"
  using assms by (intro incs_stacks) (auto split: if_splits)

lemma incs_pop_account: "keeps incs (pop_accept_account a)" "keeps incs (pop_reject_account a)"
proof -
  show "keeps incs (pop_accept_account a)"
  proof (rule keepsI)
    fix s x t assume "pop_accept_account a s = Inr (x, t)"
    then obtain stack stack' where r: "map_of (st_current s) a = Some stack"
      "vs_pop_accept (st_version s) stack = Inr stack'"
      "t = s\<lparr>st_current := AList.update a stack' (st_current s), st_dirty := mark_dirty a (st_dirty s)\<rparr>"
      by (auto simp: pop_accept_account_def find_current_def put_stack_def sm_simps split: option.splits)
    show "incs s t" by (rule incs_put_stack[OF r(1) vs_pop_accounts(1)[OF r(2)]]) (simp_all add: r(3))
  qed
  show "keeps incs (pop_reject_account a)"
  proof (rule keepsI)
    fix s x t assume "pop_reject_account a s = Inr (x, t)"
    then obtain stack e stack' where r: "map_of (st_current s) a = Some stack"
      "vs_pop_reject (st_version s) stack = Inr (e, stack')"
      "t = s\<lparr>st_current := AList.update a stack' (st_current s)\<rparr>"
      by (auto simp: pop_reject_account_def find_current_def put_stack_def sm_simps split: option.splits)
    show "incs s t" by (rule incs_put_stack[OF r(1) vs_pop_accounts(2)[OF r(2)]]) (simp_all add: r(3))
  qed
qed

lemma incs_erase_empty: "keeps incs (erase_empty a)"
  by (rule keepsI, rule incs_stacks)
    (auto simp: erase_empty_def find_current_def sm_simps split: if_splits)

lemma incs_frames: "keeps incs push" "keeps incs pop_accept" "keeps incs pop_reject"
  unfolding push_def pop_accept_def pop_reject_def take_dirty_def
  by (intro inr.keeps_rules incs_modifyS incs_pop_account incs_erase_empty inr.keeps_on_pop_reject; simp)+

lemma destruct_accounts:
  "destruct_suicide tr inc stack = Inr stack' \<Longrightarrow> stack_accounts stack' \<subseteq> stack_accounts stack"
  "destruct_dead stack = Inr stack' \<Longrightarrow> stack_accounts stack' \<subseteq> stack_accounts stack"
proof -
  assume r: "destruct_suicide tr inc stack = Inr stack'"
  then obtain x y where xy: "stack = [(0, x)]" "stack' = [(0, y)]" using destruct_suicide_shape by blast
  have "as_account y = None \<or> y = x"
    using r unfolding xy by (auto simp: destruct_suicide_def split: if_splits option.splits)
  then show "stack_accounts stack' \<subseteq> stack_accounts stack" by (auto simp: xy stack_accounts_def)
next
  assume r: "destruct_dead stack = Inr stack'"
  then obtain x y where xy: "stack = [(0, x)]" "stack' = [(0, y)]" using destruct_dead_shape by blast
  have "as_account y = None \<or> y = x"
    using r unfolding xy by (auto simp: destruct_dead_def split: if_splits)
  then show "stack_accounts stack' \<subseteq> stack_accounts stack" by (auto simp: xy stack_accounts_def)
qed

lemma incs_map_res:
  assumes "map_res f (st_current s) = Inr m"
    and "\<And>stack stack'. f stack = Inr stack' \<Longrightarrow> stack_accounts stack' \<subseteq> stack_accounts stack"
  shows "incs s (s\<lparr>st_current := m\<rparr>)"
proof (rule incs_stacks)
  fix a stack assume "map_of (st_current (s\<lparr>st_current := m\<rparr>)) a = Some stack"
  then show "\<exists>stack0. map_of (st_current s) a = Some stack0 \<and> stack_accounts stack \<subseteq> stack_accounts stack0"
    using map_res_rel(2)[OF assms(1), of a] assms(2) by auto
qed simp_all

lemma incs_end_loops: "keeps incs (destruct_suicides tr)" "keeps incs destruct_touched_dead"
proof -
  show "keeps incs (destruct_suicides tr)"
    by (rule keepsI) (auto simp: destruct_suicides_def sm_simps 
      elim!: incs_map_res dest: destruct_accounts(1)[THEN subsetD])
  show "keeps incs destruct_touched_dead"
    by (rule keepsI) (auto simp: destruct_touched_dead_def sm_simps 
      elim!: incs_map_res dest: destruct_accounts(2)[THEN subsetD])
qed

lemma incs_exec_op: "keeps incs (exec_op kec opn)"
  by (cases opn; simp only: exec_op.simps answer_def)
    (intro inr.keeps_rules inr.keeps_reads incs_substate_ops incs_write_ops incs_transfers incs_set_code
      incs_selfdestruct incs_prims(5) incs_frames incs_end_loops incs_original inr.keeps_exact)+

lemma incs_run: "keeps incs (run kec p)"
proof (induction p)
  case (Do opn k)
  show ?case unfolding run.simps by (rule inr.keeps_bind[OF incs_exec_op]) (rule Do.IH, rule rangeI)
qed (simp_all add: inr.keeps_return, simp add: keeps_def)

lemma inc_ok_State: "inc_ok (State bs inc relaxed)"
  by (simp add: inc_ok_def State_def)

end
