(* ===== verification/Merge.thy ===== *)
theory Merge
  imports State_Ops
begin

text \<open>
  Committing a transaction to its block: \<open>BlockState::can_merge\<close>, \<open>BlockState::merge\<close> and
  \<open>BlockState::release\<close> (\<open>state2/block_state.cpp\<close>), and \<open>State::try_fix_account_mismatch\<close>
  (\<open>state3/state.cpp\<close>), the relaxed merge that adjusts balances. Transactions of a block run
  concurrently, so \<open>can_merge\<close> compares what the transaction read with the block state of the
  moment, an argument here.
\<close>

section \<open>Validation\<close>

definition set_recent_account ::
  "address \<Rightarrow> account_state version_stack \<Rightarrow> account_state \<Rightarrow> account \<Rightarrow> unit st" where
  "set_recent_account a stack recent acct =
     put_stack a (vs_store (recent\<lparr>as_account := Some acct\<rparr>) stack)"

text \<open>The block that adjusts the balance in \<open>current_\<close>.\<close>

definition adjust_current_balance :: "address \<Rightarrow> u256 \<Rightarrow> u256 \<Rightarrow> bool st" where
  "adjust_current_balance a original_balance actual_balance =
     bindS (find_current a) (\<lambda>current_it.
     case current_it of
       None \<Rightarrow> returnS True
     | Some stack \<Rightarrow>
         thenS (assertS (vs_size stack = 1))
         (bindS (liftS (vs_recent stack)) (\<lambda>recent.
          case as_account recent of
            None \<Rightarrow> returnS False
          | Some acct \<Rightarrow>
              if actual_balance > original_balance then
                thenS (set_recent_account a stack recent
                         (acct\<lparr>balance := balance acct + (actual_balance - original_balance)\<rparr>))
                  (returnS True)
              else
                thenS (assertS (balance acct \<ge> original_balance - actual_balance))
                (thenS (set_recent_account a stack recent
                          (acct\<lparr>balance := balance acct - (original_balance - actual_balance)\<rparr>))
                   (returnS True)))))"

definition try_fix_account_mismatch :: "address \<Rightarrow> account option \<Rightarrow> bool st" where
  "try_fix_account_mismatch a actual =
     bindS (find_original a) (\<lambda>original_it.
     case original_it of
       None \<Rightarrow> liftS (Inl AssertFail)
     | Some original_state \<Rightarrow>
         (case (as_account original_state, actual) of
            (Some original, Some act) \<Rightarrow>
              if is_empty original then returnS False
              else if is_empty act then returnS False
              else if code_hash original \<noteq> code_hash act then returnS False
              else if incarnation original \<noteq> incarnation act then returnS False
              else if nonce original \<noteq> nonce act then returnS False
              else
                thenS (assertS (balance original \<noteq> balance act))
                (bindS (getS st_relaxed_validation) (\<lambda>relaxed.
                 if \<not> relaxed then returnS False
                 else if validate_exact_balance original_state then returnS False
                 else if balance act < min_balance original_state then returnS False
                 else
                   bindS (adjust_current_balance a (balance original) (balance act)) (\<lambda>fixed.
                     if \<not> fixed then returnS False
                     else
                       thenS (modify_original a (\<lambda>o'. set_validate_exact_balance
                                (o'\<lparr>as_account := Some (original\<lparr>balance := balance act\<rparr>)\<rparr>)))
                         (returnS True))))
          | _ \<Rightarrow> returnS False))"

definition storage_matches :: "storage_deltas \<Rightarrow> storage_map \<Rightarrow> bool" where
  "storage_matches deltas storage =
     list_all (\<lambda>(key, value).
       case map_of deltas key of Some p \<Rightarrow> value = snd p | None \<Rightarrow> value = 0) storage"

definition can_merge_account :: "block_state \<Rightarrow> address \<Rightarrow> bool st" where
  "can_merge_account bs a =
     bindS (find_original a) (\<lambda>it.
     case (it, map_of (bs_state bs) a) of
       (Some original_state, Some d) \<Rightarrow>
         bindS (if as_account original_state \<noteq> snd (sd_account d)
                then try_fix_account_mismatch a (snd (sd_account d)) else returnS True) (\<lambda>ok.
           returnS (ok \<and> storage_matches (sd_storage d) (as_storage original_state)))
     | _ \<Rightarrow> liftS (Inl AssertFail))"

fun can_merge_accounts :: "block_state \<Rightarrow> address list \<Rightarrow> bool st" where
  "can_merge_accounts bs [] = returnS True"
| "can_merge_accounts bs (a # as) =
     bindS (can_merge_account bs a) (\<lambda>ok.
       if ok then can_merge_accounts bs as else returnS False)"

definition can_merge :: "block_state \<Rightarrow> bool st" where
  "can_merge bs = bindS (getS (\<lambda>s. keys (st_original s))) (can_merge_accounts bs)"

section \<open>Merging\<close>

fun merge_code_hashes ::
  "(address \<times> account_state version_stack) list \<Rightarrow> bytes32 list res" where
  "merge_code_hashes [] = Inr []"
| "merge_code_hashes ((a, stack) # current) =
     MONAD_ASSERT (vs_size stack = 1)
       (Try (vs_version stack) (\<lambda>v.
        MONAD_ASSERT (v = 0)
          (Try (vs_recent stack) (\<lambda>st.
           Try (merge_code_hashes current) (\<lambda>hs.
             Inr (case as_account st of
                    Some acct \<Rightarrow> set_insert (code_hash acct) hs
                  | None \<Rightarrow> hs))))))"

definition merge_code :: "code_map \<Rightarrow> bytes32 \<Rightarrow> code_map \<Rightarrow> code_map" where
  "merge_code code hash merged =
     (case map_of code hash of
        None \<Rightarrow> merged
      | Some vcode \<Rightarrow>
          (case map_of merged hash of None \<Rightarrow> AList.update hash vcode merged | Some _ \<Rightarrow> merged))"

definition merge_slot :: "bytes32 \<times> bytes32 \<Rightarrow> storage_deltas \<Rightarrow> storage_deltas" where
  "merge_slot = (\<lambda>(key, value) deltas.
     case map_of deltas key of
       Some p \<Rightarrow> AList.update key (fst p, value) deltas
     | None \<Rightarrow> AList.update key (0, value) deltas)"

definition merge_account :: "address \<Rightarrow> account_state \<Rightarrow> block_state \<Rightarrow> block_state res" where
  "merge_account a st bs =
     (case map_of (bs_state bs) a of
        None \<Rightarrow> Inl AssertFail
      | Some d \<Rightarrow>
          (case as_account st of
             Some acct \<Rightarrow>
               Inr (bs\<lparr>bs_state := AList.update a
                      \<lparr>sd_account = (fst (sd_account d), Some acct),
                       sd_storage = fold merge_slot (as_storage st) (sd_storage d)\<rparr>
                      (bs_state bs)\<rparr>)
           | None \<Rightarrow>
               Inr (bs\<lparr>bs_state := AList.update a
                      \<lparr>sd_account = (fst (sd_account d), None), sd_storage = []\<rparr> (bs_state bs),
                      bs_self_destruct_storage_reads :=
                        (if fst (sd_account d) \<noteq> None
                            \<and> map_of (bs_self_destruct_storage_reads bs) a = None
                         then AList.update a (keys (sd_storage d))
                                (bs_self_destruct_storage_reads bs)
                         else bs_self_destruct_storage_reads bs)\<rparr>)))"

fun merge_accounts ::
  "(address \<times> account_state version_stack) list \<Rightarrow> block_state \<Rightarrow> block_state res" where
  "merge_accounts [] bs = Inr bs"
| "merge_accounts ((a, stack) # current) bs =
     Try (vs_recent stack) (\<lambda>st. Try (merge_account a st bs) (merge_accounts current))"

definition merge :: "tx_state \<Rightarrow> block_state \<Rightarrow> block_state res" where
  "merge s bs =
     Try (merge_code_hashes (st_current s)) (\<lambda>hashes.
       merge_accounts (st_current s)
         (bs\<lparr>bs_code := fold (merge_code (st_code s)) hashes (bs_code bs)\<rparr>))"

text \<open>\<open>release\<close> moves the three maps out.\<close>

definition release :: "block_state \<Rightarrow> state_deltas \<times> code_map \<times> (address \<times> bytes32 list) list" where
  "release bs = (bs_state bs, bs_code bs, bs_self_destruct_storage_reads bs)"

section \<open>What merging does\<close>

lemma map_of_merge_slot_one:
  "map_of (merge_slot (k, v) deltas) x =
     (if x = k then Some (case map_of deltas k of Some p \<Rightarrow> fst p | None \<Rightarrow> 0, v)
      else map_of deltas x)"
  by (simp add: merge_slot_def split: option.split)

lemma map_of_merge_slots:
  "map_of (fold merge_slot m deltas) key =
     (case map_of (rev m) key of
        Some v \<Rightarrow> Some (case map_of deltas key of Some p \<Rightarrow> fst p | None \<Rightarrow> 0, v)
      | None \<Rightarrow> map_of deltas key)"
proof (induction m arbitrary: deltas)
  case (Cons x m)
  obtain k v where x: "x = (k, v)" by fastforce
  show ?case
    by (auto simp: Cons.IH x map_of_merge_slot_one map_add_def split: option.splits)
qed simp

lemma map_of_rev_wf:
  assumes "wf_map m"
  shows "map_of (rev m) k = map_of m k"
proof (cases "map_of m k")
  case None
  then have "k \<notin> set (keys (rev m))" unfolding map_of_eq_None by simp
  then show ?thesis using None unfolding map_of_eq_None[symmetric] by simp
next
  case (Some v)
  then have "(k, v) \<in> set (rev m)" by (simp add: in_set_map_of[OF assms])
  moreover have "wf_map (rev m)" using assms by (simp add: rev_map[symmetric])
  ultimately show ?thesis using Some in_set_map_of by metis
qed

lemma merge_account_account:
  "merge_account a st bs = Inr bs' \<Longrightarrow> bs_account bs' x = (if x = a then as_account st else bs_account bs x)"
  by (auto simp: merge_account_def bs_account_def split: option.splits)

lemma merge_account_keys:
  assumes "merge_account a st bs = Inr bs'"
  shows "set (keys (bs_state bs')) = set (keys (bs_state bs))"
proof -
  obtain d where "map_of (bs_state bs) a = Some d"
    using assms by (auto simp: merge_account_def split: option.splits)
  then have "insert a (set (keys (bs_state bs))) = set (keys (bs_state bs))"
    using map_of_in_keys by (metis insert_absorb)
  moreover obtain e where "bs_state bs' = AList.update a e (bs_state bs)"
    using assms by (auto simp: merge_account_def split: option.splits)
  ultimately show ?thesis by (simp only: keys_update)
qed

lemma merge_account_slot_other:
  assumes "merge_account a st bs = Inr bs'" "x \<noteq> a"
  shows "bs_slot bs' x inc key = bs_slot bs x inc key"
proof (rule bs_slot_cong)
  show "map_of (bs_state bs') x = map_of (bs_state bs) x" "bs_db bs' = bs_db bs"
    using assms by (auto simp: merge_account_def split: option.splits)
qed

lemma merge_account_slot_same:
  assumes "merge_account a st bs = Inr bs'" "as_account st = Some acct" "wf_map (as_storage st)"
    and "bs_account bs a = Some old" "incarnation old = incarnation acct"
  shows "bs_slot bs' a (incarnation acct) key =
    (case map_of (as_storage st) key of
       Some v \<Rightarrow> v | None \<Rightarrow> bs_slot bs a (incarnation acct) key)"
proof -
  obtain d where d: "map_of (bs_state bs) a = Some d" "snd (sd_account d) = Some old"
    using assms(1,4) by (auto simp: merge_account_def bs_account_def split: option.splits)
  have bs': "map_of (bs_state bs') a = Some \<lparr>sd_account = (fst (sd_account d), Some acct),
      sd_storage = fold merge_slot (as_storage st) (sd_storage d)\<rparr>" "bs_db bs' = bs_db bs"
    using assms(1,2) d by (auto simp: merge_account_def)
  show ?thesis
    using assms(5)
    by (auto simp: bs_slot_def bs_account_def bs' d map_of_merge_slots
        map_of_rev_wf[OF assms(3)] split: option.split)
qed

lemma merge_account_frame:
  assumes "merge_account a st bs = Inr bs'"
  shows "bs_db bs' = bs_db bs" "x \<noteq> a \<Longrightarrow> map_of (bs_state bs') x = map_of (bs_state bs) x"
  using assms by (auto simp: merge_account_def split: option.splits)

text \<open>
  Each account of \<open>current_\<close> is merged once, from the entry the block state had before, and no other
  account changes.
\<close>

lemma merge_accounts_each:
  assumes "merge_accounts cur bs = Inr bs'" "wf_map cur"
  shows "bs_db bs' = bs_db bs \<and>
    (\<forall>x. x \<notin> set (keys cur) \<longrightarrow> map_of (bs_state bs') x = map_of (bs_state bs) x) \<and>
    (\<forall>a stack. map_of cur a = Some stack \<longrightarrow> (\<exists>st b0 b1. vs_recent stack = Inr st \<and>
      merge_account a st b0 = Inr b1 \<and> map_of (bs_state b0) a = map_of (bs_state bs) a \<and>
      bs_db b0 = bs_db bs \<and> map_of (bs_state bs') a = map_of (bs_state b1) a))"
  using assms
proof (induction cur arbitrary: bs)
  case (Cons p cur)
  obtain b stk st b1 where p: "p = (b, stk)" "vs_recent stk = Inr st"
    "merge_account b st bs = Inr b1" "merge_accounts cur b1 = Inr bs'"
    using Cons.prems(1) by (cases p) auto
  note fr = merge_account_frame[OF p(3)]
  have wf: "wf_map cur" and nb: "b \<notin> set (keys cur)" using Cons.prems(2) p(1) by auto
  note IH = Cons.IH[OF p(4) wf]
  have b: "map_of (bs_state bs') b = map_of (bs_state b1) b" using IH nb by blast
  show ?case
  proof (intro conjI allI impI)
    show "bs_db bs' = bs_db bs" using IH fr(1) by simp
    show "map_of (bs_state bs') x = map_of (bs_state bs) x" if "x \<notin> set (keys (p # cur))" for x
      using IH fr(2)[of x] that p(1) by simp
    fix a stack assume a: "map_of (p # cur) a = Some stack"
    show "\<exists>st b0 b1. vs_recent stack = Inr st \<and>
      merge_account a st b0 = Inr b1 \<and> map_of (bs_state b0) a = map_of (bs_state bs) a \<and>
      bs_db b0 = bs_db bs \<and> map_of (bs_state bs') a = map_of (bs_state b1) a"
    proof (cases "a = b")
      case True
      then show ?thesis using a p b by (intro exI[of _ st] exI[of _ bs] exI[of _ b1]) auto
    next
      case False
      then have "map_of cur a = Some stack" using a p(1) by simp
      then show ?thesis
        using IH unfolding fr(1)[symmetric] fr(2)[OF False, symmetric] by blast
    qed
  qed
qed simp

lemma merge_frame:
  assumes "merge s bs = Inr bs'" "wf_map (st_current s)"
  shows "bs_db bs' = bs_db bs"
    and "map_of (st_current s) x = None \<Longrightarrow> map_of (bs_state bs') x = map_of (bs_state bs) x"
    and "map_of (st_current s) a = Some stack \<Longrightarrow> \<exists>st b0 b1. vs_recent stack = Inr st \<and>
      merge_account a st b0 = Inr b1 \<and> map_of (bs_state b0) a = map_of (bs_state bs) a \<and>
      bs_db b0 = bs_db bs \<and> map_of (bs_state bs') a = map_of (bs_state b1) a"
proof -
  obtain hs where m: "merge_accounts (st_current s)
      (bs\<lparr>bs_code := fold (merge_code (st_code s)) hs (bs_code bs)\<rparr>) = Inr bs'"
    using assms(1) by (auto simp: merge_def)
  note each = merge_accounts_each[OF m assms(2)]
  show "bs_db bs' = bs_db bs" using each by simp
  show "map_of (st_current s) x = None \<Longrightarrow> map_of (bs_state bs') x = map_of (bs_state bs) x"
    using each unfolding map_of_eq_None by simp
  show "map_of (st_current s) a = Some stack \<Longrightarrow> \<exists>st b0 b1. vs_recent stack = Inr st \<and>
      merge_account a st b0 = Inr b1 \<and> map_of (bs_state b0) a = map_of (bs_state bs) a \<and>
      bs_db b0 = bs_db bs \<and> map_of (bs_state bs') a = map_of (bs_state b1) a"
    using each by simp
qed

definition merge_example_block :: block_state where
  "merge_example_block = BlockState
     \<lparr>db_read_account = (\<lambda>_. None), db_read_storage = (\<lambda>_ _ _. 0), db_read_code = (\<lambda>_. None)\<rparr> [] None
     \<lparr>bs_state := [(5, \<lparr>sd_account = (None, Some default_account), sd_storage = [(1, (0, 8))]\<rparr>)]\<rparr>"

definition merge_example :: tx_state where
  "merge_example = (State merge_example_block (Incarnation 1 2) False)
     \<lparr>st_current := [(5, [(0, (AccountState (Some (default_account\<lparr>nonce := 3\<rparr>)))
        \<lparr>as_storage := [(2, 9)]\<rparr>)])]\<rparr>"

lemmas merge_example_defs =
  merge_example_def merge_example_block_def merge_def merge_account_def merge_code_def merge_slot_def
  State_def BlockState_def AccountState_def vs_size_def

lemma merge_example_runs: "\<exists>bs'. merge merge_example merge_example_block = Inr bs'"
  by (simp add: merge_example_defs)

lemma merge_example_wf: "wf_map (st_current merge_example)"
  by (simp add: merge_example_def)

text \<open>
  C3: merging a transaction publishes exactly its writes. Afterwards the block state shows, for
  every account the transaction has in \<open>current_\<close>, the transaction's final version of it (none if it
  was destroyed) and for every other account what it showed before.
\<close>

theorem merge_publishes_accounts:
  assumes "merge s bs = Inr bs'" and "wf_map (st_current s)"
  shows "bs_account bs' a =
    (case map_of (st_current s) a of
       None \<Rightarrow> bs_account bs a
     | Some stack \<Rightarrow> (case vs_recent stack of Inr st \<Rightarrow> as_account st | Inl _ \<Rightarrow> None))"
proof (cases "map_of (st_current s) a")
  case None
  then show ?thesis using bs_account_cong[OF merge_frame(2,1)[OF assms]] by simp
next
  case (Some stack)
  obtain st b0 b1 where m: "vs_recent stack = Inr st" "merge_account a st b0 = Inr b1"
    "map_of (bs_state bs') a = map_of (bs_state b1) a" "bs_db b0 = bs_db bs"
    using merge_frame(3)[OF assms Some] by blast
  have "bs_account bs' a = bs_account b1 a"
    by (rule bs_account_cong[OF m(3)])
      (simp add: merge_frame(1)[OF assms] merge_account_frame(1)[OF m(2)] m(4))
  then show ?thesis using merge_account_account[OF m(2), of a] Some m(1) by simp
qed

theorem merge_publishes_accounts_witness:
  "\<exists>bs'. merge merge_example merge_example_block = Inr bs' \<and>
     bs_account bs' 5 = Some (default_account\<lparr>nonce := 3\<rparr>) \<and>
     bs_account bs' 6 = bs_account merge_example_block 6"
proof -
  obtain bs' where m: "merge merge_example merge_example_block = Inr bs'"
    using merge_example_runs by blast
  show ?thesis
    using m merge_publishes_accounts[OF m merge_example_wf, of 5]
      merge_publishes_accounts[OF m merge_example_wf, of 6]
    by (simp add: merge_example_def AccountState_def)
qed

text \<open>
  C4: storage after a merge. In an account that keeps its incarnation, the slots the transaction
  wrote have their new values and all others the values they had; the storage of accounts the
  transaction did not touch is unchanged.
\<close>

theorem merge_publishes_storage:
  assumes "merge s bs = Inr bs'" and "wf_map (st_current s)"
  shows "(map_of (st_current s) a = None \<longrightarrow> bs_slot bs' a inc key = bs_slot bs a inc key) \<and>
    (\<forall>st acct old stack. map_of (st_current s) a = Some stack \<and> vs_recent stack = Inr st \<and>
       wf_map (as_storage st) \<and> as_account st = Some acct \<and> bs_account bs a = Some old \<and>
       incarnation old = incarnation acct \<longrightarrow>
       bs_slot bs' a (incarnation acct) key =
         (case map_of (as_storage st) key of
            Some v \<Rightarrow> v | None \<Rightarrow> bs_slot bs a (incarnation acct) key))"
proof (intro conjI impI allI; (elim conjE)?)
  assume "map_of (st_current s) a = None"
  then show "bs_slot bs' a inc key = bs_slot bs a inc key"
    by (intro bs_slot_cong merge_frame[OF assms])
next
  fix st acct old stack
  assume h: "map_of (st_current s) a = Some stack" "vs_recent stack = Inr st"
    "wf_map (as_storage st)" "as_account st = Some acct" "bs_account bs a = Some old"
    "incarnation old = incarnation acct"
  obtain b0 b1 where m: "merge_account a st b0 = Inr b1"
    "map_of (bs_state b0) a = map_of (bs_state bs) a" "bs_db b0 = bs_db bs"
    "map_of (bs_state bs') a = map_of (bs_state b1) a"
    using merge_frame(3)[OF assms h(1)] h(2) by auto
  have db: "bs_db bs' = bs_db b1"
    by (simp add: merge_frame(1)[OF assms] merge_account_frame(1)[OF m(1)] m(3))
  have "bs_account b0 a = Some old" using bs_account_cong[OF m(2,3)] h(5) by simp
  from merge_account_slot_same[OF m(1) h(4,3) this h(6), of key]
  show "bs_slot bs' a (incarnation acct) key =
         (case map_of (as_storage st) key of
            Some v \<Rightarrow> v | None \<Rightarrow> bs_slot bs a (incarnation acct) key)"
    unfolding bs_slot_cong[OF m(4) db] bs_slot_cong[OF m(2,3)] .
qed

theorem merge_publishes_storage_witness:
  "\<exists>bs'. merge merge_example merge_example_block = Inr bs' \<and>
     bs_slot bs' 5 (incarnation default_account) 2 = 9 \<and>
     bs_slot bs' 5 (incarnation default_account) 1 = 8"
proof -
  obtain bs' where m: "merge merge_example merge_example_block = Inr bs'"
    using merge_example_runs by blast
  have old: "bs_account merge_example_block 5 = Some default_account"
    "bs_slot merge_example_block 5 (incarnation default_account) 1 = 8"
    by (simp_all add: merge_example_block_def bs_account_def bs_slot_def BlockState_def)
  show ?thesis
    using m old merge_publishes_storage[OF m merge_example_wf, of 5 _ 2]
      merge_publishes_storage[OF m merge_example_wf, of 5 _ 1]
    by (simp add: merge_example_def AccountState_def)
qed

end
