(* ===== verification/Block_Env.thy ===== *)
theory Block_Env
  imports Tx_Incarnations Merge
begin

text \<open>
  The block state as the transactions of a block share it. While a transaction runs, the others read
  through the block state, deploy code into the cache of the virtual machine and are merged, in the
  order of the block. \<open>env_step\<close> is one such step and \<open>block_ok\<close> an invariant of the block states that
  come about. \<open>evolves\<close> is what a transaction may rely on between two moments: an incarnation that an
  address has lost does not come back, and the slots cached under an incarnation stay cached as long as
  the address has it.
\<close>

section \<open>Code\<close>

lemma map_leD: "m \<subseteq>\<^sub>m n \<Longrightarrow> m k = Some v \<Longrightarrow> n k = Some v"
  unfolding map_le_def by (metis domI)

text \<open>The code a block state can supply for a hash.\<close>

definition code_at :: "block_state \<Rightarrow> bytes32 \<Rightarrow> bytes option" where
  "code_at bs h =
     (case map_of (bs_vm bs) h of
        Some c \<Rightarrow> Some c
      | None \<Rightarrow> (case map_of (bs_code bs) h of
                  Some c \<Rightarrow> Some c
                | None \<Rightarrow> db_read_code (bs_db bs) h))"

lemma code_at_state [simp]: "code_at (b\<lparr>bs_state := d\<rparr>) = code_at b"
  by (simp add: code_at_def fun_eq_iff split: option.split)

lemma code_at_insert:
  "code_at (b\<lparr>bs_vm := snd (try_insert_varcode h c (bs_vm b))\<rparr>) =
     (if map_of (bs_vm b) h = None then (code_at b)(h \<mapsto> c) else code_at b)"
  by (auto simp: code_at_def try_insert_varcode_def fun_eq_iff split: option.split)

lemma bs_read_code_run:
  assumes "bs_read_code h b = Inr (c, b')"
  shows "code_at b h = Some c \<and> b' = b\<lparr>bs_vm := snd (try_insert_varcode h c (bs_vm b))\<rparr>"
proof (cases "map_of (bs_vm b) h")
  case None
  then show ?thesis
    using assms
    by (cases "map_of (bs_code b) h"; cases "db_read_code (bs_db b) h")
      (simp_all add: bs_read_code_def find_varcode_def code_at_def try_insert_varcode_def)
next
  case (Some v)
  then show ?thesis
    using assms
    by (simp add: bs_read_code_def find_varcode_def code_at_def try_insert_varcode_def)
qed

lemma bs_read_code_total:
  assumes "code_at b h = Some c" "h = NULL_HASH \<or> c \<noteq> []"
  shows "bs_read_code h b = Inr (c, b\<lparr>bs_vm := snd (try_insert_varcode h c (bs_vm b))\<rparr>)"
proof (cases "map_of (bs_vm b) h")
  case None
  then show ?thesis
    using assms
    by (cases "map_of (bs_code b) h"; cases "db_read_code (bs_db b) h")
      (simp_all add: bs_read_code_def find_varcode_def code_at_def try_insert_varcode_def)
next
  case (Some v)
  then show ?thesis
    using assms
    by (simp add: bs_read_code_def find_varcode_def code_at_def try_insert_varcode_def)
qed

lemma code_at_read_code: "code_at b h = Some c \<Longrightarrow>
    code_at (b\<lparr>bs_vm := snd (try_insert_varcode h c (bs_vm b))\<rparr>) = code_at b"
  by (auto simp: code_at_insert)

section \<open>Incarnations of a block\<close>

text \<open>
  The transactions of block \<open>n\<close> are merged in the order of their indices. \<open>earlier n k i\<close>: the
  incarnation \<open>i\<close> comes from another block or from a transaction before index \<open>k\<close>.
\<close>

definition earlier :: "40 word \<Rightarrow> nat \<Rightarrow> incarnation \<Rightarrow> bool" where
  "earlier n k i \<longleftrightarrow> inc_block i \<noteq> n \<or> unat (inc_tx i) < k"

lemma earlier_mono: "earlier n k i \<Longrightarrow> k \<le> k' \<Longrightarrow> earlier n k' i"
  by (auto simp: earlier_def)

lemma last_incarnation_Inc: "last_incarnation inc = Inc (inc_block inc) (- 1)"
proof -
  have m40: "(0xFFFFFFFFFF :: u64) = mask 40" by (simp add: mask_eq_exp_minus_1)
  have "(ucast (ucast (inc_block inc) AND 0xFFFFFFFFFF :: u64) :: 40 word) = inc_block inc"
    unfolding m40 by (rule bit_word_eqI) (simp add: bit_simps)
  moreover have "(ucast (LAST_TX AND 0xFFFFFF) :: 24 word) = - 1" by (simp add: LAST_TX_def)
  ultimately show ?thesis by (simp add: last_incarnation_def Incarnation_def get_block_def)
qed

lemma last_not_earlier:
  "k < 2 ^ 24 \<Longrightarrow> \<not> earlier (inc_block inc) k (last_incarnation inc)"
  by (simp add: earlier_def last_incarnation_Inc unsigned_minus_1_eq_mask mask_eq_exp_minus_1)

definition holds_inc :: "block_state \<Rightarrow> address \<Rightarrow> incarnation \<Rightarrow> bool" where
  "holds_inc b a i \<longleftrightarrow> (\<exists>acct. bs_account b a = Some acct \<and> incarnation acct = i)"

definition cached :: "block_state \<Rightarrow> address \<Rightarrow> bytes32 \<Rightarrow> bool" where
  "cached b a key \<longleftrightarrow> (\<exists>d. map_of (bs_state b) a = Some d \<and> map_of (sd_storage d) key \<noteq> None)"

text \<open>
  \<open>block_ok n k b\<close>: a block state of block \<open>n\<close> before the transaction with index \<open>k\<close>. The database
  has accounts of other blocks only, the first member of a delta is what the database has, a destroyed
  account has no slots, and an account has an incarnation from before \<open>k\<close> or the last one of the block.
\<close>

definition block_ok :: "40 word \<Rightarrow> nat \<Rightarrow> block_state \<Rightarrow> bool" where
  "block_ok n k b \<longleftrightarrow> bs_secondary_db b = None \<and>
     (\<forall>a acct. db_read_account (bs_db b) a = Some acct \<longrightarrow> inc_block (incarnation acct) \<noteq> n) \<and>
     (\<forall>a d. map_of (bs_state b) a = Some d \<longrightarrow> fst (sd_account d) = db_read_account (bs_db b) a \<and>
        (snd (sd_account d) = None \<longrightarrow> sd_storage d = [])) \<and>
     (\<forall>a i. holds_inc b a i \<longrightarrow> earlier n k i \<or> i = Inc n (- 1))"

lemma block_ok_holds: "block_ok n k b \<Longrightarrow> holds_inc b a i \<Longrightarrow> earlier n k i \<or> i = Inc n (- 1)"
  unfolding block_ok_def by blast

lemma block_ok_BlockState:
  assumes "\<And>a acct. db_read_account d a = Some acct \<Longrightarrow> inc_block (incarnation acct) \<noteq> n"
  shows "block_ok n k (BlockState d vm None)"
  using assms by (auto simp: block_ok_def BlockState_def holds_inc_def bs_account_def earlier_def)

definition evolves ::
  "(bytes32 \<Rightarrow> bytes option) \<Rightarrow> 40 word \<Rightarrow> nat \<Rightarrow> block_state \<Rightarrow> nat \<Rightarrow> block_state \<Rightarrow> bool" where
  "evolves codes n k b k' b' \<longleftrightarrow> k \<le> k' \<and> bs_db b' = bs_db b \<and> (block_ok n k b \<longrightarrow> block_ok n k' b') \<and>
     (\<forall>a i. earlier n k i \<longrightarrow> holds_inc b' a i \<longrightarrow> holds_inc b a i) \<and>
     (\<forall>a i key. earlier n k i \<longrightarrow> holds_inc b' a i \<longrightarrow> cached b a key \<longrightarrow> cached b' a key) \<and>
     (code_at b \<subseteq>\<^sub>m codes \<longrightarrow> code_at b \<subseteq>\<^sub>m code_at b' \<and> code_at b' \<subseteq>\<^sub>m codes)"

lemma evolves_block_ok: "evolves codes n k b k' b' \<Longrightarrow> block_ok n k b \<Longrightarrow> block_ok n k' b'"
  by (simp add: evolves_def)

lemma evolves_code:
  "evolves codes n k b k' b' \<Longrightarrow> code_at b \<subseteq>\<^sub>m codes \<Longrightarrow> code_at b \<subseteq>\<^sub>m code_at b' \<and> code_at b' \<subseteq>\<^sub>m codes"
  by (simp add: evolves_def)

lemma evolves_refl: "evolves codes n k b k b"
  by (simp add: evolves_def)

lemma evolves_trans:
  assumes "evolves codes n k b k' b'" "evolves codes n k' b' k'' b''"
  shows "evolves codes n k b k'' b''"
proof -
  have "earlier n k i \<Longrightarrow> earlier n k' i" for i
    using assms(1) earlier_mono by (auto simp: evolves_def)
  moreover have "code_at b \<subseteq>\<^sub>m code_at b' \<Longrightarrow> code_at b' \<subseteq>\<^sub>m code_at b'' \<Longrightarrow> code_at b \<subseteq>\<^sub>m code_at b''"
    by (rule map_le_trans)
  ultimately show ?thesis using assms unfolding evolves_def
    by (intro conjI allI impI) (simp, simp, simp, blast, blast, blast, blast)
qed

text \<open>A step that only caches.\<close>

lemma evolves_caching:
  assumes "\<And>a. bs_account b' a = bs_account b a" "bs_db b' = bs_db b"
    "bs_secondary_db b' = bs_secondary_db b" "\<And>a key. cached b a key \<Longrightarrow> cached b' a key"
    and "\<And>a d. map_of (bs_state b') a = Some d \<Longrightarrow> block_ok n k b \<Longrightarrow>
      fst (sd_account d) = db_read_account (bs_db b) a \<and> (snd (sd_account d) = None \<longrightarrow> sd_storage d = [])"
    and "code_at b \<subseteq>\<^sub>m codes \<Longrightarrow> code_at b \<subseteq>\<^sub>m code_at b' \<and> code_at b' \<subseteq>\<^sub>m codes"
  shows "evolves codes n k b k b'"
proof -
  have "holds_inc b' = holds_inc b" using assms(1) by (simp add: holds_inc_def fun_eq_iff)
  then show ?thesis using assms(2-) unfolding evolves_def block_ok_def by simp
qed

lemma evolves_read_account:
  assumes "read_account a b = (r, b')"
  shows "evolves codes n k b k b'"
  using assms
proof (rule read_accountE)
  assume new: "map_of (bs_state b) a = None" "r = db_read_account (bs_db b) a"
    "b' = b\<lparr>bs_state := AList.update a \<lparr>sd_account = (r, r), sd_storage = []\<rparr> (bs_state b)\<rparr>"
  show ?thesis
    by (rule evolves_caching)
      (use new read_account_account[OF assms] in
        \<open>auto simp: cached_def block_ok_def code_at_def split: if_splits\<close>)
qed (simp add: evolves_refl)

lemma evolves_read_storage:
  assumes "read_storage a inc key b = Inr (r, b')"
  shows "evolves codes n k b k b'"
  using assms
proof (rule read_storageE)
  fix d acct
  assume new: "map_of (bs_state b) a = Some d" "snd (sd_account d) = Some acct"
    "b' = b\<lparr>bs_state := AList.update a (d\<lparr>sd_storage := AList.update key (r, r) (sd_storage d)\<rparr>) (bs_state b)\<rparr>"
  show ?thesis
    by (rule evolves_caching)
      (use new read_storage_account[OF assms] in
        \<open>auto simp: cached_def block_ok_def code_at_def split: if_splits\<close>)
qed (simp add: evolves_refl)

lemma evolves_vm:
  assumes "code_at b \<subseteq>\<^sub>m codes \<Longrightarrow>
    code_at b \<subseteq>\<^sub>m code_at (b\<lparr>bs_vm := vm\<rparr>) \<and> code_at (b\<lparr>bs_vm := vm\<rparr>) \<subseteq>\<^sub>m codes"
  shows "evolves codes n k b k (b\<lparr>bs_vm := vm\<rparr>)"
  by (rule evolves_caching) (use assms in \<open>auto simp: cached_def block_ok_def bs_account_def split: option.split\<close>)

lemma evolves_read_code:
  assumes "bs_read_code h b = Inr (c, b')"
  shows "evolves codes n k b k b'"
  using bs_read_code_run[OF assms] by (auto simp: code_at_read_code intro!: evolves_vm)

lemma code_at_insert_le:
  assumes "codes h = Some c" "code_at b \<subseteq>\<^sub>m codes"
  shows "code_at b \<subseteq>\<^sub>m code_at (b\<lparr>bs_vm := snd (try_insert_varcode_raw h c (bs_vm b))\<rparr>) \<and>
    code_at (b\<lparr>bs_vm := snd (try_insert_varcode_raw h c (bs_vm b))\<rparr>) \<subseteq>\<^sub>m codes"
proof (cases "map_of (bs_vm b) h")
  case None
  then have "code_at (b\<lparr>bs_vm := snd (try_insert_varcode_raw h c (bs_vm b))\<rparr>) = (code_at b)(h \<mapsto> c)"
    by (simp add: try_insert_varcode_raw_def find_varcode_def code_at_insert)
  moreover have "code_at b h = None \<or> code_at b h = Some c"
    using assms map_leD[of "code_at b" codes h] by (cases "code_at b h") auto
  ultimately show ?thesis using assms by (auto simp: map_le_def)
qed (use assms(2) in \<open>simp add: try_insert_varcode_raw_def find_varcode_def\<close>)

section \<open>Strict validation\<close>

lemma try_fix_strict:
  assumes "try_fix_account_mismatch a actual t = Inr (ok, t')" "\<not> st_relaxed_validation t"
  shows "\<not> ok \<and> t' = t"
  using assms
  by (auto simp: try_fix_account_mismatch_def find_original_def sm_simps
      split: option.splits if_splits)

lemma can_merge_account_strict:
  assumes "can_merge_account bs a t = Inr (True, t')" "\<not> st_relaxed_validation t"
  shows "t' = t \<and> (\<exists>o1 d. map_of (st_original t) a = Some o1 \<and> map_of (bs_state bs) a = Some d \<and>
    as_account o1 = snd (sd_account d) \<and> storage_matches (sd_storage d) (as_storage o1))"
proof -
  obtain o1 d where o1: "map_of (st_original t) a = Some o1" "map_of (bs_state bs) a = Some d"
    using assms(1)
    by (auto simp: can_merge_account_def find_original_def sm_simps split: option.splits)
  have "as_account o1 = snd (sd_account d) \<and> t' = t \<and>
      storage_matches (sd_storage d) (as_storage o1)"
    using assms(1) o1 try_fix_strict[OF _ assms(2), of a "snd (sd_account d)"]
    by (cases "as_account o1 = snd (sd_account d)")
      (auto simp: can_merge_account_def find_original_def sm_simps)
  with o1 show ?thesis by blast
qed

lemma can_merge_accounts_strict:
  assumes "can_merge_accounts bs as t = Inr (True, t')" "\<not> st_relaxed_validation t"
  shows "t' = t \<and> (\<forall>a\<in>set as. \<exists>o1 d. map_of (st_original t) a = Some o1 \<and>
    map_of (bs_state bs) a = Some d \<and> as_account o1 = snd (sd_account d) \<and>
    storage_matches (sd_storage d) (as_storage o1))"
  using assms
proof (induction "as")
  case (Cons a "as")
  obtain ok u where u: "can_merge_account bs a t = Inr (ok, u)"
    "(if ok then can_merge_accounts bs as else returnS False) u = Inr (True, t')"
    using Cons.prems(1) by (auto simp: bindS_eq_Inr)
  then have ok: "ok" by (auto simp: returnS_def split: if_splits)
  note a = can_merge_account_strict[OF u(1)[unfolded eqTrueI[OF ok]] Cons.prems(2)]
  have "can_merge_accounts bs as t = Inr (True, t')" using u(2) ok a by simp
  from Cons.IH[OF this Cons.prems(2)] a show ?case by simp
qed (simp add: returnS_def)

lemma can_merge_strict:
  assumes "can_merge bs t = Inr (True, t')" "\<not> st_relaxed_validation t"
  shows "t' = t" "map_of (st_original t) a = Some o1 \<Longrightarrow> \<exists>d. map_of (bs_state bs) a = Some d \<and>
    as_account o1 = snd (sd_account d) \<and> storage_matches (sd_storage d) (as_storage o1)"
proof -
  have "can_merge_accounts bs (keys (st_original t)) t = Inr (True, t')"
    using assms(1) by (simp add: can_merge_def sm_simps)
  note each = can_merge_accounts_strict[OF this assms(2)]
  show "t' = t" using each by blast
  show "map_of (st_original t) a = Some o1 \<Longrightarrow> \<exists>d. map_of (bs_state bs) a = Some d \<and>
    as_account o1 = snd (sd_account d) \<and> storage_matches (sd_storage d) (as_storage o1)"
    using each map_of_in_keys by force
qed

section \<open>Merging another transaction\<close>

lemma merge_entry:
  assumes "merge s b = Inr b'" "wf_map (st_current s)" "map_of (st_current s) a = Some stack"
  obtains st d d' where "vs_recent stack = Inr st" "map_of (bs_state b) a = Some d"
    "map_of (bs_state b') a = Some d'" "sd_account d' = (fst (sd_account d), as_account st)"
    "as_account st = None \<Longrightarrow> sd_storage d' = []"
    "as_account st \<noteq> None \<Longrightarrow> (\<And>key. map_of (sd_storage d) key \<noteq> None \<Longrightarrow> map_of (sd_storage d') key \<noteq> None)"
proof -
  obtain st b0 b1 where r: "vs_recent stack = Inr st" "merge_account a st b0 = Inr b1"
    "map_of (bs_state b0) a = map_of (bs_state b) a" "map_of (bs_state b') a = map_of (bs_state b1) a"
    using merge_frame(3)[OF assms] by blast
  obtain d where d: "map_of (bs_state b) a = Some d"
    using r(2,3) by (auto simp: merge_account_def split: option.splits)
  show thesis
  proof (cases "as_account st")
    case None
    then have "map_of (bs_state b') a = Some \<lparr>sd_account = (fst (sd_account d), None), sd_storage = []\<rparr>"
      using r(2-) d by (auto simp: merge_account_def)
    from that[OF r(1) d this] None show thesis by simp
  next
    case (Some acct)
    then have "map_of (bs_state b') a = Some \<lparr>sd_account = (fst (sd_account d), Some acct),
        sd_storage = fold merge_slot (as_storage st) (sd_storage d)\<rparr>"
      using r(2-) d by (auto simp: merge_account_def)
    from that[OF r(1) d this] Some show thesis by (simp add: map_of_merge_slots split: option.split)
  qed
qed

lemma fold_merge_code:
  "map_of (fold (merge_code code) hs m) h =
     (case map_of m h of Some c \<Rightarrow> Some c | None \<Rightarrow> if h \<in> set hs then map_of code h else None)"
  by (induction hs arbitrary: m) (auto simp: merge_code_def split: option.splits)

lemma merge_account_code:
  "merge_account a st b = Inr b' \<Longrightarrow> bs_vm b' = bs_vm b \<and> bs_code b' = bs_code b \<and>
     bs_secondary_db b' = bs_secondary_db b"
  by (auto simp: merge_account_def split: option.splits)

lemma merge_accounts_code:
  "merge_accounts cur b = Inr b' \<Longrightarrow> bs_vm b' = bs_vm b \<and> bs_code b' = bs_code b \<and>
     bs_secondary_db b' = bs_secondary_db b"
proof (induction cur arbitrary: b)
  case (Cons p cur)
  obtain a stack st b1 where "p = (a, stack)" "merge_account a st b = Inr b1" "merge_accounts cur b1 = Inr b'"
    using Cons.prems by (cases p) auto
  with Cons.IH[of b1] merge_account_code show ?case by simp
qed simp

lemma merge_code_at:
  assumes "merge s b = Inr b'" "wf_map (st_current s)" "map_of (st_code s) \<subseteq>\<^sub>m codes" "code_at b \<subseteq>\<^sub>m codes"
  shows "code_at b \<subseteq>\<^sub>m code_at b' \<and> code_at b' \<subseteq>\<^sub>m codes"
proof -
  obtain hs where m: "merge_accounts (st_current s)
      (b\<lparr>bs_code := fold (merge_code (st_code s)) hs (bs_code b)\<rparr>) = Inr b'"
    using assms(1) by (auto simp: merge_def)
  have "code_at b' h = code_at b h \<or> (\<exists>c. code_at b' h = Some c \<and> codes h = Some c)" for h
  proof (cases "map_of (bs_vm b) h = None \<and> map_of (bs_code b) h = None \<and> h \<in> set hs \<and> map_of (st_code s) h \<noteq> None")
    case True
    then show ?thesis
      using merge_accounts_code[OF m] map_leD[OF assms(3)] by (auto simp: code_at_def fold_merge_code)
  next
    case False
    then show ?thesis
      using merge_accounts_code[OF m] merge_frame(1)[OF assms(1,2)]
      by (auto simp: code_at_def fold_merge_code split: option.split)
  qed
  moreover have "code_at b h = Some c \<Longrightarrow> codes h = Some c" for h c by (rule map_leD[OF assms(4)])
  ultimately show ?thesis unfolding map_le_def by (metis domD)
qed

text \<open>
  The account that a merge publishes has the incarnation it had in the block state, that of the
  merged transaction, or the last one of the block.
\<close>

lemma merge_incarnation:
  assumes "can_merge b s = Inr (True, s')" "\<not> st_relaxed_validation s" "inc_ok s"
    and "map_of (st_current s) a = Some stack" "vs_recent stack = Inr st" "as_account st = Some acct"
  shows "own_inc s (incarnation acct) \<or> holds_inc b a (incarnation acct)"
proof -
  have "st \<in> entries stack" using assms(5) by (cases stack) auto
  then have "account_inc_ok s a (as_account st)" by (rule inc_okD[OF assms(3,4)])
  then consider "own_inc s (incarnation acct)" | "original_inc s a (incarnation acct)"
    using assms(6) by (auto simp: account_inc_ok_def)
  then show ?thesis
  proof cases
    case 2
    then show ?thesis
      using can_merge_strict(2)[OF assms(1,2)] by (fastforce simp: original_inc_def holds_inc_def bs_account_def)
  qed simp
qed

lemma evolves_merge:
  assumes valid: "can_merge b s = Inr (True, s')" "\<not> st_relaxed_validation s" and "merge": "merge s b = Inr b'"
    and ok: "inc_ok s" "wf_map (st_current s)" and code: "map_of (st_code s) \<subseteq>\<^sub>m codes"
    and inc: "st_incarnation s = Inc n i" "k \<le> unat i" and i: "unat i < 2 ^ 24 - 1"
  shows "evolves codes n k b (Suc (unat i)) b'"
proof -
  note frame = merge_frame[OF "merge" ok(2)]
  have own: "own_inc s j \<longleftrightarrow> j = Inc n i \<or> j = Inc n (- 1)" for j
    by (simp add: own_inc_def inc(1) last_incarnation_Inc)
  have new: "\<not> earlier n k j" if "own_inc s j" for j
    using that inc(2) i by (auto simp: own earlier_def unsigned_minus_1_eq_mask mask_eq_exp_minus_1)
  have old: "map_of (st_current s) a = None \<Longrightarrow> holds_inc b' a = holds_inc b a \<and> cached b' a = cached b a" for a
    using bs_account_cong[OF frame(2) frame(1), of a] frame(2)[of a]
    by (simp add: holds_inc_def cached_def fun_eq_iff)
  have pub: "own_inc s j \<or> holds_inc b a j" if h: "holds_inc b' a j" for a j
  proof (cases "map_of (st_current s) a")
    case None
    with old that show ?thesis by simp
  next
    case (Some stack)
    obtain st d d' where e: "vs_recent stack = Inr st" "map_of (bs_state b) a = Some d"
      "map_of (bs_state b') a = Some d'" "sd_account d' = (fst (sd_account d), as_account st)"
      by (rule merge_entry[OF "merge" ok(2) Some])
    then obtain acct where "as_account st = Some acct" "incarnation acct = j"
      using h by (auto simp: holds_inc_def bs_account_def)
    with merge_incarnation[OF valid ok(1) Some e(1)] show ?thesis by simp
  qed
  have cache: "cached b' a key" if h: "holds_inc b' a j" and c: "cached b a key" for a j key
  proof (cases "map_of (st_current s) a")
    case None
    with old c show ?thesis by simp
  next
    case (Some stack)
    show ?thesis
      by (rule merge_entry[OF "merge" ok(2) Some])
        (use h c in \<open>auto simp: holds_inc_def cached_def bs_account_def\<close>)
  qed
  have "block_ok n (Suc (unat i)) b'" if b: "block_ok n k b"
    unfolding block_ok_def
  proof (intro conjI allI impI)
    show "bs_secondary_db b' = None"
      using b "merge" merge_accounts_code by (fastforce simp: merge_def block_ok_def)
    show "inc_block (incarnation acct) \<noteq> n" if "db_read_account (bs_db b') a = Some acct" for a acct
      using that b by (simp add: block_ok_def frame(1))
    show "fst (sd_account d) = db_read_account (bs_db b') a" "snd (sd_account d) = None \<Longrightarrow> sd_storage d = []"
      if d: "map_of (bs_state b') a = Some d" for a d
    proof -
      have "fst (sd_account d) = db_read_account (bs_db b') a \<and> (snd (sd_account d) = None \<longrightarrow> sd_storage d = [])"
      proof (cases "map_of (st_current s) a")
        case None
        with frame(2) d b show ?thesis by (simp add: block_ok_def frame(1))
      next
        case (Some stack)
        show ?thesis
          by (rule merge_entry[OF "merge" ok(2) Some]) (use d b in \<open>auto simp: block_ok_def frame(1)\<close>)
      qed
      then show "fst (sd_account d) = db_read_account (bs_db b') a"
        "snd (sd_account d) = None \<Longrightarrow> sd_storage d = []" by simp_all
    qed
    show "earlier n (Suc (unat i)) j \<or> j = Inc n (- 1)" if h: "holds_inc b' a j" for a j
    proof -
      consider "j = Inc n i" | "j = Inc n (- 1)" | "earlier n k j"
        using pub[OF h] block_ok_holds[OF b] unfolding own by blast
      then show ?thesis
      proof cases
        case 3
        have "k \<le> Suc (unat i)" using inc(2) by simp
        with 3 show ?thesis using earlier_mono by blast
      qed (simp_all add: earlier_def)
    qed
  qed
  moreover have "holds_inc b a j" if "earlier n k j" "holds_inc b' a j" for a j
    using pub[OF that(2)] new[of j] that(1) by blast
  ultimately show ?thesis
    using cache inc(2) frame(1) merge_code_at[OF "merge" ok(2) code] unfolding evolves_def by simp
qed

section \<open>The steps of the other transactions\<close>

text \<open>
  What happens to the block state while the transaction with incarnation \<open>inc\<close> runs; the number is
  the index below which all transactions have been merged. Another transaction reads an account, a
  slot or a code, inserts a deployed code into the cache, or is merged: a predecessor in the same
  block, not merged before, whose state satisfies the invariants of \<open>State\<close> and has been accepted
  under strict validation, the only mode in which blocks are executed.
\<close>

inductive env_step ::
  "(bytes32 \<Rightarrow> bytes option) \<Rightarrow> incarnation \<Rightarrow> nat \<times> block_state \<Rightarrow> nat \<times> block_state \<Rightarrow> bool"
  for codes inc where
  env_read_account: "env_step codes inc (k, b) (k, b')" if "read_account a b = (r, b')"
| env_read_storage: "env_step codes inc (k, b) (k, b')" if "read_storage a i key b = Inr (v, b')"
| env_read_code: "env_step codes inc (k, b) (k, b')" if "bs_read_code h b = Inr (c, b')"
| env_insert_code:
    "env_step codes inc (k, b) (k, b\<lparr>bs_vm := snd (try_insert_varcode_raw h c (bs_vm b))\<rparr>)"
    if "codes h = Some c"
| env_merge: "env_step codes inc (k, b) (Suc (unat i), b')"
    if "can_merge b s = Inr (True, s')" "merge s' b = Inr b'" "\<not> st_relaxed_validation s"
      "inc_ok s" "wf_map (st_current s)" "map_of (st_code s) \<subseteq>\<^sub>m codes"
      "st_incarnation s = Inc (inc_block inc) i" "k \<le> unat i" "i < inc_tx inc"

abbreviation env_steps ::
  "(bytes32 \<Rightarrow> bytes option) \<Rightarrow> incarnation \<Rightarrow> nat \<times> block_state \<Rightarrow> nat \<times> block_state \<Rightarrow> bool" where
  "env_steps codes inc \<equiv> (env_step codes inc)\<^sup>*\<^sup>*"

lemma env_step_evolves:
  assumes "env_step codes inc (k, b) (k', b')" "k \<le> unat (inc_tx inc)"
  shows "evolves codes (inc_block inc) k b k' b' \<and> k' \<le> unat (inc_tx inc)"
  using assms
proof (cases rule: env_step.cases)
  case (env_merge s s' i)
  have "unat i < unat (inc_tx inc)" using env_merge(10) by (simp add: word_less_nat_alt)
  moreover have "unat (inc_tx inc) < 2 ^ 24" using unsigned_less[of "inc_tx inc"] by simp
  moreover have "merge s b = Inr b'" using env_merge(3) can_merge_strict(1)[OF env_merge(2,4)] by simp
  ultimately show ?thesis
    using evolves_merge[OF env_merge(2,4) _ env_merge(5,6,7,8,9)] env_merge(1) by simp
next
  case (env_insert_code h c)
  then show ?thesis using evolves_vm[OF code_at_insert_le] assms(2) by simp
qed (auto intro: evolves_read_account evolves_read_storage evolves_read_code)

lemma env_steps_evolves:
  assumes "env_steps codes inc (k, b) (k', b')" "k \<le> unat (inc_tx inc)"
  shows "evolves codes (inc_block inc) k b k' b' \<and> k' \<le> unat (inc_tx inc)"
  using assms
proof (induction rule: rtranclp_induct2)
  case refl
  then show ?case by (simp add: evolves_refl)
next
  case (step k1 b1 k2 b2)
  then show ?case using env_step_evolves evolves_trans by blast
qed

end
