(* ===== verification/Optimistic.thy ===== *)
theory Optimistic
  imports Block_Env
begin

text \<open>
  Optimistic execution. A transaction runs before its predecessors in the block have been merged
  and records what it reads in \<open>original_\<close>. If \<open>can_merge\<close> accepts that record against the block
  state left by the predecessors, the result of the run is the result the transaction would have
  had if it had been started on that block state (\<open>optimistic_run_is_serial\<close>). The proof is a
  simulation between the speculative run and the serial one, carried through the operations of
  \<open>State\<close> by the rules for the monad.
\<close>

section \<open>The record of reads only grows\<close>

definition grows :: "tx_state \<Rightarrow> tx_state \<Rightarrow> bool" where
  "grows s t \<longleftrightarrow> st_relaxed_validation t = st_relaxed_validation s \<and> (\<forall>a o1. map_of (st_original s) a = Some o1 \<longrightarrow>
     (\<exists>o2. map_of (st_original t) a = Some o2 \<and> as_account o2 = as_account o1 \<and>
       (\<forall>k v. map_of (as_storage o1) k = Some v \<longrightarrow> map_of (as_storage o2) k = Some v)))"

lemma grows_refl: "grows s s"
  by (simp add: grows_def)

lemma grows_trans: "grows s t \<Longrightarrow> grows t u \<Longrightarrow> grows s u"
  unfolding grows_def by fastforce

lemma grows_same:
  "st_original t = st_original s \<Longrightarrow> st_relaxed_validation t = st_relaxed_validation s \<Longrightarrow> grows s t"
  by (simp add: grows_def)

interpretation grw: program_relation grows
  by unfold_locales (rule grows_refl, rule grows_trans)

lemma grows_prims:
  "keeps grows (lift_bs f)" "keeps grows (lift_bs_res g)" "keeps grows (modify_rb r)"
  "keeps grows (modify_current a h)" "keeps grows (put_stack a stack)"
  by (auto simp: keeps_def lift_bs_def lift_bs_res_def modify_rb_def modify_current_def
      put_stack_def modifyS_def intro!: grows_same split: prod.splits option.splits)

lemma grows_modifyS:
  "(\<And>s. st_original (f s) = st_original s \<and> st_relaxed_validation (f s) = st_relaxed_validation s) \<Longrightarrow>
   keeps grows (modifyS f)"
  by (auto simp: keeps_def modifyS_def intro: grows_same)

lemma grows_modify_original:
  assumes "\<And>o'. slice (f o') = slice o'"
  shows "keeps grows (modify_original a f)"
proof (rule keepsI)
  fix s x t assume "modify_original a f s = Inr (x, t)"
  moreover have "as_account (f o') = as_account o'" "as_storage (f o') = as_storage o'" for o'
    using assms[of o'] by (auto simp: account_state.truncate_def)
  ultimately show "grows s t"
    by (auto simp: modify_original_def modifyS_def grows_def split: option.splits)
qed

lemma grows_original: "keeps grows (original_account_state a)"
  by (rule keepsI) (auto simp: original_account_state_def find_original_def lift_bs_def
      emplace_original_def sm_simps grows_def split: option.splits prod.splits)

lemma grows_read_original_storage: "keeps grows (read_original_storage a inc key)"
  by (rule keepsI) (auto simp: read_original_storage_def find_original_def lift_bs_res_def
      modify_original_def sm_simps grows_def split: option.splits)

lemma grows_insert_code: "keeps grows (insert_code hash c)"
  unfolding insert_code_def by (intro grw.keeps_rules grows_prims grows_modifyS) simp

lemma grows_current: "keeps grows (current_account_state a)"
  unfolding current_account_state_def find_current_def
  by (intro grw.keeps_rules grows_prims grows_original grows_modifyS) simp

lemma grows_store_log: "keeps grows (store_log l)"
  unfolding store_log_def by (intro grw.keeps_rules grows_modifyS) simp

interpretation grw: state_relation grows
  by unfold_locales
    (fact grows_original grows_read_original_storage grows_prims grows_insert_code grows_current
      grows_store_log | rule grows_modify_original, assumption)+

section \<open>What a transaction does to the block state\<close>

text \<open>
  An operation changes the block state only by caching, and what it records of an account is what the
  block state has.
\<close>

definition spreads :: "(bytes32 \<Rightarrow> bytes option) \<Rightarrow> tx_state \<Rightarrow> tx_state \<Rightarrow> bool" where
  "spreads codes s t \<longleftrightarrow> (\<forall>n k. evolves codes n k (st_block_state s) k (st_block_state t)) \<and>
     (\<forall>a. bs_account (st_block_state t) a = bs_account (st_block_state s) a) \<and>
     (\<forall>a o1. map_of (st_original t) a = Some o1 \<longrightarrow>
        (\<exists>o0. map_of (st_original s) a = Some o0 \<and> as_account o0 = as_account o1) \<or>
        as_account o1 = bs_account (st_block_state s) a)"

lemma spreads_same_block:
  "st_block_state t = st_block_state s \<Longrightarrow> st_original t = st_original s \<Longrightarrow> spreads codes s t"
  by (simp add: spreads_def evolves_refl)

interpretation spr: program_relation "spreads codes" for codes
proof
  show "spreads codes s s" for s by (rule spreads_same_block) simp_all
  show "spreads codes s u" if "spreads codes s t" "spreads codes t u" for s t u
    using that evolves_trans unfolding spreads_def by (intro conjI allI impI) (blast, simp, metis)
qed

lemma spreads_prims:
  "keeps (spreads codes) (modify_rb r)" "keeps (spreads codes) (modify_current a h)"
  "keeps (spreads codes) (put_stack a stack)"
  by (auto simp: keeps_def modify_rb_def modify_current_def put_stack_def modifyS_def
      intro!: spreads_same_block split: option.splits)

lemma spreads_modifyS:
  "(\<And>s. st_original (f s) = st_original s \<and> st_block_state (f s) = st_block_state s) \<Longrightarrow>
   keeps (spreads codes) (modifyS f)"
  by (auto simp: keeps_def modifyS_def intro: spreads_same_block)

lemma spreads_original: "keeps (spreads codes) (original_account_state a)"
proof (rule keepsI)
  fix s x t assume run: "original_account_state a s = Inr (x, t)"
  show "spreads codes s t"
  proof (cases "map_of (st_original s) a")
    case (Some o1)
    then show ?thesis
      using run by (simp add: original_account_state_def find_original_def sm_simps spr.rel_refl)
  next
    case None
    obtain r b where rb: "read_account a (st_block_state s) = (r, b)" by fastforce
    have t: "st_block_state t = b" "st_original t = AList.update a (OriginalAccountState r) (st_original s)"
      using run None rb
      by (auto simp: original_account_state_def find_original_def lift_bs_def emplace_original_def sm_simps)
    show ?thesis
      using evolves_read_account[OF rb] read_account_account[OF rb] read_account_value[OF rb]
      by (auto simp: spreads_def t OriginalAccountState_def AccountState_def account_state.defs
          split: if_splits)
  qed
qed

lemma spreads_modify_original:
  assumes "\<And>o'. slice (f o') = slice o'"
  shows "keeps (spreads codes) (modify_original a f)"
proof (rule keepsI)
  fix s x t assume "modify_original a f s = Inr (x, t)"
  moreover have "as_account (f o') = as_account o'" for o'
    using assms[of o'] by (auto simp: account_state.truncate_def)
  ultimately show "spreads codes s t"
    by (auto simp: modify_original_def modifyS_def spreads_def evolves_refl split: option.splits if_splits)
qed

lemma spreads_read_original_storage: "keeps (spreads codes) (read_original_storage a inc key)"
proof (rule keepsI)
  fix s x t assume run: "read_original_storage a inc key s = Inr (x, t)"
  obtain o1 where o1: "map_of (st_original s) a = Some o1"
    using run by (auto simp: read_original_storage_def find_original_def sm_simps split: option.splits)
  show "spreads codes s t"
  proof (cases "map_of (as_storage o1) key")
    case (Some v)
    then show ?thesis
      using run o1 by (simp add: read_original_storage_def find_original_def sm_simps spr.rel_refl)
  next
    case None
    obtain b where b: "read_storage a inc key (st_block_state s) = Inr (x, b)"
      "st_block_state t = b"
      "st_original t = AList.update a (o1\<lparr>as_storage := AList.update key x (as_storage o1)\<rparr>) (st_original s)"
      using run o1 None
      by (auto simp: read_original_storage_def find_original_def lift_bs_res_def modify_original_def sm_simps)
    show ?thesis
      using evolves_read_storage[OF b(1)] read_storage_account[OF b(1)] o1
      by (auto simp: spreads_def b(2,3) split: if_splits)
  qed
qed

lemma spreads_read_code: "keeps (spreads codes) (lift_bs_res (bs_read_code hash))"
proof (rule keepsI)
  fix s x t assume "lift_bs_res (bs_read_code hash) s = Inr (x, t)"
  then obtain b where b: "bs_read_code hash (st_block_state s) = Inr (x, b)" "t = s\<lparr>st_block_state := b\<rparr>"
    by (auto simp: lift_bs_res_def)
  have "bs_account b a = bs_account (st_block_state s) a" for a
    using bs_read_code_run[OF b(1)] by (intro bs_account_cong) auto
  then show "spreads codes s t" using evolves_read_code[OF b(1)] by (simp add: spreads_def b(2))
qed

lemma spreads_current: "keeps (spreads codes) (current_account_state a)"
  unfolding current_account_state_def find_current_def
  by (intro spr.keeps_rules spreads_prims spreads_original spreads_modifyS) simp

lemma spreads_store_log: "keeps (spreads codes) (store_log l)"
  unfolding store_log_def by (intro spr.keeps_rules spreads_modifyS) simp

interpretation spr: state_write_relation "spreads codes" for codes
  by unfold_locales
    (fact spreads_original spreads_read_original_storage spreads_prims spreads_read_code spreads_current
      spreads_store_log | rule spreads_modify_original, assumption)+

text \<open>Both relations together.\<close>

definition advances :: "(bytes32 \<Rightarrow> bytes option) \<Rightarrow> tx_state \<Rightarrow> tx_state \<Rightarrow> bool" where
  "advances codes s t \<longleftrightarrow> grows s t \<and> spreads codes s t"

lemma advancesI: "keeps grows m \<Longrightarrow> keeps (spreads codes) m \<Longrightarrow> keeps (advances codes) m"
  by (simp add: keeps_def advances_def)

interpretation adv: state_write_relation "advances codes" for codes
proof
  show "advances codes s s" for s by (simp add: advances_def grows_refl spr.rel_refl)
  show "advances codes s u" if "advances codes s t" "advances codes t u" for s t u
    using that grows_trans spr.rel_trans unfolding advances_def by blast
qed (intro advancesI grw.keeps_prims spr.keeps_prims grw.keeps_original_flags spr.keeps_original_flags
    grw.keeps_writes spr.keeps_writes; assumption)+

section \<open>The block state of the serial run\<close>

text \<open>\<open>extends b b'\<close>: \<open>b'\<close> is \<open>b\<close> with more cached.\<close>

definition extends :: "block_state \<Rightarrow> block_state \<Rightarrow> bool" where
  "extends b b' \<longleftrightarrow> (\<forall>a. bs_account b' a = bs_account b a) \<and>
     (\<forall>a inc k. bs_slot b' a inc k = bs_slot b a inc k) \<and> code_at b \<subseteq>\<^sub>m code_at b' \<and>
     bs_secondary_db b' = bs_secondary_db b \<and> set (keys (bs_state b)) \<subseteq> set (keys (bs_state b'))"

lemma extends_refl: "extends b b"
  by (simp add: extends_def)

lemma extends_trans: "extends b c \<Longrightarrow> extends c d \<Longrightarrow> extends b d"
  unfolding extends_def
  by (elim conjE, intro conjI allI)
    (simp, simp, erule (1) map_le_trans, simp, erule (1) subset_trans)

lemma extends_read_account:
  assumes "read_account a b = (r, b')"
  shows "extends b b'"
proof -
  have "code_at b' = code_at b" "bs_secondary_db b' = bs_secondary_db b"
    using assms by (auto elim!: read_accountE)
  then show ?thesis
    using read_account_account[OF assms] read_account_slot[OF assms] read_account_keys[OF assms]
    by (simp add: extends_def)
qed

lemma extends_read_storage:
  assumes "read_storage a inc key b = Inr (r, b')"
  shows "extends b b'"
proof -
  have "code_at b' = code_at b" "bs_secondary_db b' = bs_secondary_db b"
    using assms by (auto elim!: read_storageE)
  then show ?thesis
    using read_storage_account[OF assms] read_storage_slot[OF assms] read_storage_keys[OF assms]
    by (simp add: extends_def)
qed

lemma extends_vm:
  assumes "code_at b \<subseteq>\<^sub>m code_at (b\<lparr>bs_vm := vm\<rparr>)"
  shows "extends b (b\<lparr>bs_vm := vm\<rparr>)"
proof -
  have "bs_account (b\<lparr>bs_vm := vm\<rparr>) a = bs_account b a" for a
    by (rule bs_account_cong) simp_all
  moreover have "bs_slot (b\<lparr>bs_vm := vm\<rparr>) a inc k = bs_slot b a inc k" for a inc k
    by (rule bs_slot_cong) simp_all
  ultimately show ?thesis using assms by (simp add: extends_def)
qed

section \<open>The simulation\<close>

text \<open>
  \<open>codes\<close> is the contract of the code store: a hash names one bytecode, non-empty unless the hash is
  that of the empty code. \<open>srel codes s b\<close> relates a speculative state to the block state of the
  serial run that has come to the same point.
\<close>

definition good_codes :: "(bytes32 \<Rightarrow> bytes option) \<Rightarrow> bool" where
  "good_codes codes \<longleftrightarrow> (\<forall>h c. codes h = Some c \<longrightarrow> h = NULL_HASH \<or> c \<noteq> [])"

definition srel :: "(bytes32 \<Rightarrow> bytes option) \<Rightarrow> tx_state \<Rightarrow> block_state \<Rightarrow> bool" where
  "srel codes s b \<longleftrightarrow> set (keys (st_original s)) \<subseteq> set (keys (bs_state b)) \<and>
     bs_secondary_db b = None \<and> good_codes codes \<and> code_at (st_block_state s) \<subseteq>\<^sub>m code_at b \<and>
     map_of (st_code s) \<subseteq>\<^sub>m code_at b \<and> code_at b \<subseteq>\<^sub>m codes"

text \<open>
  What is known at the end of the run, when \<open>can_merge\<close> has accepted it: the block \<open>hz_block\<close> is at
  the state \<open>hz_end\<close>, with the transactions before \<open>hz_end_clock\<close> merged; at the point of the
  simulation those before \<open>hz_clock\<close> are.
\<close>

record horizon =
  hz_codes :: "bytes32 \<Rightarrow> bytes option"
  hz_block :: "40 word"
  hz_clock :: nat
  hz_end_clock :: nat
  hz_end :: block_state

text \<open>\<open>can_merge\<close> compares a recorded slot with the cached one and demands zero where none is cached.\<close>

definition slot_valid :: "state_delta \<Rightarrow> bytes32 \<Rightarrow> bytes32 \<Rightarrow> bool" where
  "slot_valid d key v \<longleftrightarrow> (case map_of (sd_storage d) key of Some p \<Rightarrow> v = snd p | None \<Rightarrow> v = 0)"

definition validated :: "(address \<times> original_account_state) list \<Rightarrow> block_state \<Rightarrow> bool" where
  "validated m b \<longleftrightarrow> (\<forall>a o1. map_of m a = Some o1 \<longrightarrow>
     (\<exists>d. map_of (bs_state b) a = Some d \<and> as_account o1 = snd (sd_account d) \<and>
        (\<forall>key v. map_of (as_storage o1) key = Some v \<longrightarrow> slot_valid d key v)))"

definition concluded :: "horizon \<Rightarrow> tx_state \<Rightarrow> bool" where
  "concluded H t \<longleftrightarrow> validated (st_original t) (hz_end H) \<and>
     evolves (hz_codes H) (hz_block H) (hz_clock H) (st_block_state t) (hz_end_clock H) (hz_end H) \<and>
     block_ok (hz_block H) (hz_end_clock H) (hz_end H)"

lemma validated_grows:
  assumes "grows s t" "validated (st_original t) b"
  shows "validated (st_original s) b"
  unfolding validated_def
proof (intro allI impI)
  fix a o1 assume "map_of (st_original s) a = Some o1"
  then obtain o2 where o2: "map_of (st_original t) a = Some o2" "as_account o2 = as_account o1"
    "\<And>k v. map_of (as_storage o1) k = Some v \<Longrightarrow> map_of (as_storage o2) k = Some v"
    using assms(1) unfolding grows_def by blast
  then show "\<exists>d. map_of (bs_state b) a = Some d \<and> as_account o1 = snd (sd_account d) \<and>
      (\<forall>key v. map_of (as_storage o1) key = Some v \<longrightarrow> slot_valid d key v)"
    using assms(2) unfolding validated_def by metis
qed

lemma concluded_back: "advances (hz_codes H) s t \<Longrightarrow> concluded H t \<Longrightarrow> concluded H s"
  using validated_grows evolves_trans unfolding concluded_def advances_def spreads_def by blast

lemma validated_account: "validated m b \<Longrightarrow> map_of m a = Some o1 \<Longrightarrow> bs_account b a = as_account o1"
  unfolding validated_def by (fastforce simp: bs_account_def)

lemma concluded_account:
  "concluded H t \<Longrightarrow> extends (hz_end H) b \<Longrightarrow> map_of (st_original t) a = Some o1 \<Longrightarrow>
     bs_account b a = as_account o1"
  using validated_account unfolding concluded_def extends_def by metis

definition sim_at :: "horizon \<Rightarrow> 'a st \<Rightarrow> tx_state \<Rightarrow> bool" where
  "sim_at H m s \<longleftrightarrow> (\<forall>x t b. m s = Inr (x, t) \<longrightarrow> concluded H t \<longrightarrow> extends (hz_end H) b \<longrightarrow>
     srel (hz_codes H) s b \<longrightarrow>
     (\<exists>b'. m (s\<lparr>st_block_state := b\<rparr>) = Inr (x, t\<lparr>st_block_state := b'\<rparr>) \<and> extends b b' \<and>
        srel (hz_codes H) t b'))"

definition sim :: "horizon \<Rightarrow> 'a st \<Rightarrow> bool" where
  "sim H m \<longleftrightarrow> keeps (advances (hz_codes H)) m \<and> (\<forall>s. sim_at H m s)"

lemma sim_atI:
  assumes "\<And>x t b. m s = Inr (x, t) \<Longrightarrow> concluded H t \<Longrightarrow> extends (hz_end H) b \<Longrightarrow> srel (hz_codes H) s b \<Longrightarrow>
    \<exists>b'. m (s\<lparr>st_block_state := b\<rparr>) = Inr (x, t\<lparr>st_block_state := b'\<rparr>) \<and> extends b b' \<and> srel (hz_codes H) t b'"
  shows "sim_at H m s"
  using assms unfolding sim_at_def by blast

lemma sim_atE:
  assumes "sim_at H m s" "m s = Inr (x, t)" "concluded H t" "extends (hz_end H) b" "srel (hz_codes H) s b"
  obtains b' where "m (s\<lparr>st_block_state := b\<rparr>) = Inr (x, t\<lparr>st_block_state := b'\<rparr>)" "extends b b'"
    "srel (hz_codes H) t b'"
  using assms unfolding sim_at_def by blast

lemma simI: "keeps (advances (hz_codes H)) m \<Longrightarrow> (\<And>s. sim_at H m s) \<Longrightarrow> sim H m"
  by (simp add: sim_def)

lemma sim_advances: "sim H m \<Longrightarrow> keeps (advances (hz_codes H)) m"
  by (simp add: sim_def)

lemma sim_at: "sim H m \<Longrightarrow> sim_at H m s"
  by (simp add: sim_def)

text \<open>A step that leaves the block state alone behaves the same on any other.\<close>

lemma sim_at_pure:
  assumes "\<And>x t b. m s = Inr (x, t) \<Longrightarrow> m (s\<lparr>st_block_state := b\<rparr>) = Inr (x, t\<lparr>st_block_state := b\<rparr>)"
    and "\<And>x t. m s = Inr (x, t) \<Longrightarrow> st_block_state t = st_block_state s \<and> st_code t = st_code s \<and>
      set (keys (st_original t)) = set (keys (st_original s))"
  shows "sim_at H m s"
proof (rule sim_atI)
  fix x t b assume t: "m s = Inr (x, t)" and r: "srel (hz_codes H) s b"
  have "srel (hz_codes H) t b" using assms(2)[OF t] r unfolding srel_def by metis
  then show "\<exists>b'. m (s\<lparr>st_block_state := b\<rparr>) = Inr (x, t\<lparr>st_block_state := b'\<rparr>) \<and> extends b b' \<and>
      srel (hz_codes H) t b'"
    using assms(1)[OF t] extends_refl by blast
qed

lemma sim_at_bind:
  assumes m: "sim_at H m s" and f: "\<And>x u. m s = Inr (x, u) \<Longrightarrow> sim_at H (f x) u"
    and g: "\<And>x. keeps (advances (hz_codes H)) (f x)"
  shows "sim_at H (bindS m f) s"
proof (rule sim_atI)
  fix y t b assume run: "bindS m f s = Inr (y, t)" and c: "concluded H t" and e: "extends (hz_end H) b"
    and r: "srel (hz_codes H) s b"
  obtain x u where x: "m s = Inr (x, u)" "f x u = Inr (y, t)"
    using run unfolding bindS_eq_Inr by blast
  obtain b1 where b1: "m (s\<lparr>st_block_state := b\<rparr>) = Inr (x, u\<lparr>st_block_state := b1\<rparr>)"
    "extends b b1" "srel (hz_codes H) u b1"
    by (rule sim_atE[OF m x(1) concluded_back[OF keepsD[OF g x(2)] c] e r])
  obtain b2 where b2: "f x (u\<lparr>st_block_state := b1\<rparr>) = Inr (y, t\<lparr>st_block_state := b2\<rparr>)"
    "extends b1 b2" "srel (hz_codes H) t b2"
    by (rule sim_atE[OF f[OF x(1)] x(2) c extends_trans[OF e b1(2)] b1(3)])
  have "bindS m f (s\<lparr>st_block_state := b\<rparr>) = Inr (y, t\<lparr>st_block_state := b2\<rparr>)"
    unfolding bindS_eq_Inr using b1(1) b2(1) by blast
  then show "\<exists>b'. bindS m f (s\<lparr>st_block_state := b\<rparr>) = Inr (y, t\<lparr>st_block_state := b'\<rparr>) \<and>
      extends b b' \<and> srel (hz_codes H) t b'"
    using extends_trans[OF b1(2) b2(2)] b2(3) by blast
qed

subsection \<open>Rules for the monad\<close>

lemma sim_return: "sim H (returnS x)"
  by (rule simI[OF adv.keeps_return], rule sim_at_pure) (auto simp: returnS_def)

lemma sim_bind: "sim H m \<Longrightarrow> (\<And>x. sim H (f x)) \<Longrightarrow> sim H (bindS m f)"
  by (rule simI, rule adv.keeps_bind; (rule sim_at_bind)?) (simp_all add: sim_def)

lemma sim_then: "sim H m \<Longrightarrow> sim H k \<Longrightarrow> sim H (thenS m k)"
  unfolding thenS_def by (rule sim_bind)

lemma sim_get: "(\<And>s b. f (s\<lparr>st_block_state := b\<rparr>) = f s) \<Longrightarrow> sim H (getS f)"
  by (rule simI[OF adv.keeps_get], rule sim_at_pure) (auto simp: getS_def)

lemma sim_assert: "sim H (assertS b)"
  by (rule simI[OF adv.keeps_assert], rule sim_at_pure) (auto simp: assertS_def)

lemma sim_throw: "sim H (throwS b msg)"
  by (rule simI[OF adv.keeps_throw], rule sim_at_pure) (auto simp: throwS_def)

lemma sim_lift: "sim H (liftS m)"
  by (rule simI[OF adv.keeps_lift], rule sim_at_pure) (auto simp: liftS_def)

lemma sim_if: "sim H m \<Longrightarrow> sim H k \<Longrightarrow> sim H (if c then m else k)"
  by simp

lemma sim_case_option:
  "sim H m \<Longrightarrow> (\<And>x. sim H (f x)) \<Longrightarrow> sim H (case o' of None \<Rightarrow> m | Some x \<Rightarrow> f x)"
  by (simp split: option.split)

lemma sim_case_prod: "(\<And>x y. sim H (f x y)) \<Longrightarrow> sim H (case p of (x, y) \<Rightarrow> f x y)"
  by (simp split: prod.split)

lemma sim_case_list: "sim H m \<Longrightarrow> (\<And>x xs. sim H (f x xs)) \<Longrightarrow>
    sim H (case l of [] \<Rightarrow> m | x # xs \<Rightarrow> f x xs)"
  by (simp split: list.split)

lemma sim_Let: "(\<And>x. sim H (f x)) \<Longrightarrow> sim H (Let v f)"
  by (simp add: Let_def)

lemma sim_for: "(\<And>x. sim H (f x)) \<Longrightarrow> sim H (forS xs f)"
  by (induction xs) (auto intro: sim_return sim_then)

lemma sim_modify:
  assumes "\<And>s b. f (s\<lparr>st_block_state := b\<rparr>) = (f s)\<lparr>st_block_state := b\<rparr>"
    and "\<And>s. st_block_state (f s) = st_block_state s \<and> st_code (f s) = st_code s \<and>
      st_original (f s) = st_original s \<and> st_relaxed_validation (f s) = st_relaxed_validation s"
  shows "sim H (modifyS f)"
  using assms by (intro simI advancesI grows_modifyS spreads_modifyS sim_at_pure) (auto simp: modifyS_def)

lemmas sim_rules =
  sim_return sim_bind sim_then sim_get sim_assert sim_throw sim_lift sim_if sim_case_option
  sim_case_prod sim_case_list sim_Let sim_for sim_modify

subsection \<open>Primitives\<close>

lemma sim_original: "sim H (original_account_state a)"
proof (rule simI[OF adv.keeps_original], rule sim_atI)
  fix s x t b
  assume run: "original_account_state a s = Inr (x, t)" and c: "concluded H t"
    and e: "extends (hz_end H) b" and r: "srel (hz_codes H) s b"
  show "\<exists>b'. original_account_state a (s\<lparr>st_block_state := b\<rparr>) = Inr (x, t\<lparr>st_block_state := b'\<rparr>) \<and>
      extends b b' \<and> srel (hz_codes H) t b'"
  proof (cases "map_of (st_original s) a")
    case (Some o1)
    then have "t = s" "x = o1"
      using run by (simp_all add: original_account_state_def find_original_def sm_simps)
    with Some r show ?thesis
      by (intro exI[of _ b])
        (simp add: original_account_state_def find_original_def sm_simps extends_refl)
  next
    case None
    obtain r1 b1 where ra: "read_account a (st_block_state s) = (r1, b1)" by fastforce
    obtain r2 b2 where rb: "read_account a b = (r2, b2)" by fastforce
    have t: "x = OriginalAccountState r1" "t = s\<lparr>st_block_state := b1,
        st_original := AList.update a (OriginalAccountState r1) (st_original s)\<rparr>"
      using run None ra
      by (auto simp: original_account_state_def find_original_def lift_bs_def
          emplace_original_def sm_simps)
    have "r2 = r1"
      using concluded_account[OF c e, of a] read_account_value[OF rb] t
      by (simp add: OriginalAccountState_def AccountState_def account_state.defs)
    then have "original_account_state a (s\<lparr>st_block_state := b\<rparr>) = Inr (x, t\<lparr>st_block_state := b2\<rparr>)"
      using None rb t
      by (simp add: original_account_state_def find_original_def lift_bs_def
          emplace_original_def sm_simps)
    moreover note ext = extends_read_account[OF rb]
    moreover have "srel (hz_codes H) t b2"
    proof -
      have c: "code_at b1 = code_at (st_block_state s)" "code_at b2 = code_at b"
        using ra rb by (auto elim!: read_accountE)
      have "st_original t = AList.update a (OriginalAccountState r1) (st_original s)"
        by (simp add: t(2))
      then have "set (keys (st_original t)) \<subseteq> set (keys (bs_state b2))"
        using r read_account_present[OF rb] read_account_keys[OF rb]
        unfolding srel_def by (simp only: keys_update) blast
      then show ?thesis using r ext unfolding srel_def by (simp add: t(2) c extends_def)
    qed
    ultimately show ?thesis by blast
  qed
qed

lemma sim_modify_original:
  assumes "\<And>o'. slice (f o') = slice o'"
  shows "sim H (modify_original a f)"
proof (rule simI[OF adv.keeps_original_flags[OF assms]], rule sim_at_pure)
  fix s x t assume run: "modify_original a f s = Inr (x, t)"
  show "st_block_state t = st_block_state s \<and> st_code t = st_code s \<and>
      set (keys (st_original t)) = set (keys (st_original s))"
  proof (cases "map_of (st_original s) a")
    case None
    then show ?thesis using run by (simp add: modify_original_def modifyS_def)
  next
    case (Some o1)
    have "set (keys (AList.update a (f o1) (st_original s))) = set (keys (st_original s))"
      unfolding keys_update using map_of_in_keys[OF Some] by (rule insert_absorb)
    moreover have "t = s\<lparr>st_original := AList.update a (f o1) (st_original s)\<rparr>"
      using run Some by (simp add: modify_original_def modifyS_def)
    ultimately show ?thesis by simp
  qed
qed (auto simp: modify_original_def modifyS_def split: option.splits)

lemma sim_modify_rb: "sim H (modify_rb f)"
  unfolding modify_rb_def by (rule sim_modify) simp_all

lemma sim_put_stack: "sim H (put_stack a stack)"
  unfolding put_stack_def by (rule sim_modify) simp_all

lemma sim_modify_current: "sim H (modify_current a f)"
  unfolding modify_current_def by (rule sim_modify) (simp_all split: option.split)

lemma sim_bs_read_code: "sim H (lift_bs_res (bs_read_code h))"
proof (rule simI[OF adv.keeps_bs_code], rule sim_atI)
  fix s x t b
  assume run: "lift_bs_res (bs_read_code h) s = Inr (x, t)" and r: "srel (hz_codes H) s b"
  obtain b1 where b1: "bs_read_code h (st_block_state s) = Inr (x, b1)" "t = s\<lparr>st_block_state := b1\<rparr>"
    using run by (auto simp: lift_bs_res_def)
  have c1: "code_at (st_block_state s) h = Some x" "code_at b1 = code_at (st_block_state s)"
    using bs_read_code_run[OF b1(1)] code_at_read_code by auto
  have cb: "code_at b h = Some x"
    by (rule map_leD[where m = "code_at (st_block_state s)"]) (use r c1 in \<open>simp_all add: srel_def\<close>)
  have "hz_codes H h = Some x"
    by (rule map_leD[where m = "code_at b"]) (use r cb in \<open>simp_all add: srel_def\<close>)
  then have ne: "h = NULL_HASH \<or> x \<noteq> []" using r by (simp add: srel_def good_codes_def)
  let ?b = "b\<lparr>bs_vm := snd (try_insert_varcode h x (bs_vm b))\<rparr>"
  have cb': "code_at ?b = code_at b" by (rule code_at_read_code[OF cb])
  have "extends b ?b" by (rule extends_vm) (simp add: cb')
  moreover have "srel (hz_codes H) t ?b" using r unfolding srel_def by (simp add: cb' b1(2) c1(2))
  moreover have "lift_bs_res (bs_read_code h) (s\<lparr>st_block_state := b\<rparr>) = Inr (x, t\<lparr>st_block_state := ?b\<rparr>)"
    by (simp add: lift_bs_res_def bs_read_code_total[OF cb ne] b1(2))
  ultimately show "\<exists>b'. lift_bs_res (bs_read_code h) (s\<lparr>st_block_state := b\<rparr>) =
      Inr (x, t\<lparr>st_block_state := b'\<rparr>) \<and> extends b b' \<and> srel (hz_codes H) t b'"
    by blast
qed

lemma spreads_insert_code:
  assumes "codes h = Some c"
  shows "keeps (spreads codes) (insert_code h c)"
proof (rule keepsI)
  fix s x t assume "insert_code h c s = Inr (x, t)"
  then have t: "st_block_state t = (st_block_state s)
      \<lparr>bs_vm := snd (try_insert_varcode_raw h c (bs_vm (st_block_state s)))\<rparr>" "st_original t = st_original s"
    by (auto simp: insert_code_def lift_bs_def sm_simps split: prod.splits)
  have "bs_account (st_block_state t) a = bs_account (st_block_state s) a" for a
    by (rule bs_account_cong) (simp_all add: t)
  then show "spreads codes s t"
    using evolves_vm[OF code_at_insert_le[of codes, OF assms]] by (simp add: spreads_def t)
qed

lemma sim_insert_code:
  assumes "hz_codes H h = Some c"
  shows "sim H (insert_code h c)"
proof (rule simI[OF advancesI[OF grows_insert_code spreads_insert_code[of "hz_codes H", OF assms]]], rule sim_atI)
  fix s x t b
  assume run: "insert_code h c s = Inr (x, t)" and r: "srel (hz_codes H) s b"
  have ins: "insert_code h c u = Inr ((),
      u\<lparr>st_block_state := (st_block_state u)\<lparr>bs_vm := snd (try_insert_varcode h c (bs_vm (st_block_state u)))\<rparr>,
        st_code := AList.update h c (st_code u)\<rparr>)"
    if "\<And>v. map_of (bs_vm (st_block_state u)) h = Some v \<Longrightarrow> v = c" for u
    using that
    by (cases "map_of (bs_vm (st_block_state u)) h")
      (simp_all add: insert_code_def try_insert_varcode_raw_def find_varcode_def
        try_insert_varcode_def lift_bs_def sm_simps)
  have same: "v = c" if "map_of (bs_vm b1) h = Some v" "code_at b1 \<subseteq>\<^sub>m hz_codes H" for v b1
    using map_leD[OF that(2), of h v] that(1) assms by (simp add: code_at_def)
  have le: "code_at (st_block_state s) \<subseteq>\<^sub>m code_at b" "code_at b \<subseteq>\<^sub>m hz_codes H"
    "map_of (st_code s) \<subseteq>\<^sub>m code_at b"
    using r by (simp_all add: srel_def)
  note le1 = map_le_trans[OF le(1,2)]
  let ?ins = "\<lambda>b1. b1\<lparr>bs_vm := snd (try_insert_varcode h c (bs_vm b1))\<rparr>"
  have upd: "code_at (?ins b1) = (code_at b1)(h \<mapsto> c)" if "code_at b1 \<subseteq>\<^sub>m hz_codes H" for b1
    using same[OF _ that] by (auto simp: code_at_insert code_at_def fun_eq_iff)
  have t: "x = ()" "t = s\<lparr>st_block_state := ?ins (st_block_state s),
      st_code := AList.update h c (st_code s)\<rparr>"
    using run ins[OF same[OF _ le1]] by simp_all
  have up: "m(h \<mapsto> c) \<subseteq>\<^sub>m (code_at b)(h \<mapsto> c)" if "m \<subseteq>\<^sub>m code_at b" for m
    using that by (simp add: map_le_def)
  have to: "(code_at b)(h \<mapsto> c) \<subseteq>\<^sub>m hz_codes H" using le(2) assms by (simp add: map_le_def)
  have "code_at b \<subseteq>\<^sub>m (code_at b)(h \<mapsto> c)"
    using map_leD[OF le(2), of h] assms by (auto simp: map_le_def)
  then have "extends b (?ins b)" by (intro extends_vm) (simp only: upd[OF le(2)])
  moreover have "srel (hz_codes H) t (?ins b)"
    using r up[OF le(1)] up[OF le(3)] to unfolding srel_def
    by (simp add: t(2) upd[OF le(2)] upd[OF le1] update_conv')
  moreover have "insert_code h c (s\<lparr>st_block_state := b\<rparr>) = Inr (x, t\<lparr>st_block_state := ?ins b\<rparr>)"
    using ins[of "s\<lparr>st_block_state := b\<rparr>"] same[OF _ le(2)] by (simp add: t)
  ultimately show "\<exists>b'. insert_code h c (s\<lparr>st_block_state := b\<rparr>) =
      Inr (x, t\<lparr>st_block_state := b'\<rparr>) \<and> extends b b' \<and> srel (hz_codes H) t b'"
    by blast
qed

text \<open>
  The read of a slot goes to the block state with the incarnation of the caller's account. It is
  simulated if that is the recorded incarnation, if the block state does not have it, when the slot
  reads as zero, or if the recorded one is from before, when the run would not be accepted otherwise.
\<close>

definition slot_view :: "horizon \<Rightarrow> address \<Rightarrow> incarnation \<Rightarrow> tx_state \<Rightarrow> bool" where
  "slot_view H a inc s \<longleftrightarrow> original_inc s a inc \<or> \<not> holds_inc (st_block_state s) a inc \<or>
     (\<forall>i. original_inc s a i \<longrightarrow> earlier (hz_block H) (hz_clock H) i)"

lemma bs_slot_other: "\<not> holds_inc b a inc \<Longrightarrow> bs_slot b a inc key = 0"
  by (auto simp: bs_slot_def holds_inc_def split: option.split)

lemma read_storage_cached:
  assumes "read_storage a inc key b = Inr (v, b')" "holds_inc b a inc"
  shows "cached b' a key"
proof -
  obtain d acct where d: "map_of (bs_state b) a = Some d" "snd (sd_account d) = Some acct" "incarnation acct = inc"
    using assms by (auto simp: read_storage_def holds_inc_def bs_account_def split: option.splits)
  show ?thesis
    using assms(1) d
    by (cases "map_of (sd_storage d) key")
      (auto simp: read_storage_def read_storage_db_def cached_def Let_def split: if_splits)
qed

text \<open>The heart of the argument: the slot that the accepted run has read is the slot of the block state.\<close>

lemma accepted_slot:
  assumes read: "read_storage a inc key b1 = Inr (x, b1')" and ev: "evolves codes n k b1' k2 b2"
    and ok: "block_ok n k2 b2" and d: "map_of (bs_state b2) a = Some d" "slot_valid d key x"
    and view: "holds_inc b2 a inc \<or> \<not> holds_inc b1 a inc \<or> (\<forall>i. holds_inc b2 a i \<longrightarrow> earlier n k i)"
  shows "bs_slot b2 a inc key = x"
proof (cases "snd (sd_account d)")
  case None
  then have "sd_storage d = []" using ok d(1) by (simp add: block_ok_def)
  then show ?thesis using None d by (simp add: bs_slot_def bs_account_def slot_valid_def)
next
  case (Some acct)
  let ?i = "incarnation acct"
  have b2: "holds_inc b2 a j \<longleftrightarrow> j = ?i" for j using Some d(1) by (auto simp: holds_inc_def bs_account_def)
  have b1: "holds_inc b1' a = holds_inc b1 a"
    using read_storage_account[OF read] by (simp add: holds_inc_def fun_eq_iff)
  have prior: "holds_inc b1 a ?i" if "earlier n k ?i"
    using ev that b2 unfolding evolves_def b1[symmetric] by blast
  show ?thesis
  proof (cases "inc = ?i")
    case True
    have db: "cached b2 a key" if "fst (sd_account d) = Some orig" "incarnation orig = ?i" for orig
    proof -
      have "db_read_account (bs_db b2) a = Some orig" using ok d(1) that(1) by (simp add: block_ok_def)
      then have "inc_block (incarnation orig) \<noteq> n" using ok by (simp add: block_ok_def)
      then have e: "earlier n k ?i" using that(2) by (simp add: earlier_def)
      have "cached b1' a key" by (rule read_storage_cached[OF read]) (use prior[OF e] True in simp)
      then show ?thesis using ev e b2 unfolding evolves_def by blast
    qed
    then show ?thesis
      using True Some d
      by (auto simp: bs_slot_def bs_account_def slot_valid_def cached_def split: option.splits)
  next
    case False
    then have "bs_slot b2 a inc key = 0" using b2 by (intro bs_slot_other) simp
    moreover have "\<not> holds_inc b1 a inc" using view False b2 prior by (auto simp: holds_inc_def)
    ultimately show ?thesis using bs_slot_other read_storage_value[OF read] by simp
  qed
qed

lemma sim_at_read_original_storage:
  assumes view: "slot_view H a inc s"
  shows "sim_at H (read_original_storage a inc key) s"
proof (rule sim_atI)
  fix x t b
  assume run: "read_original_storage a inc key s = Inr (x, t)" and c: "concluded H t"
    and e: "extends (hz_end H) b" and r: "srel (hz_codes H) s b"
  obtain o1 where o1: "map_of (st_original s) a = Some o1"
    using run by (auto simp: read_original_storage_def find_original_def sm_simps split: option.splits)
  show "\<exists>b'. read_original_storage a inc key (s\<lparr>st_block_state := b\<rparr>) =
      Inr (x, t\<lparr>st_block_state := b'\<rparr>) \<and> extends b b' \<and> srel (hz_codes H) t b'"
  proof (cases "map_of (as_storage o1) key")
    case (Some v)
    then have "t = s" "x = v"
      using run o1 by (simp_all add: read_original_storage_def find_original_def sm_simps)
    with Some o1 r show ?thesis
      by (intro exI[of _ b])
        (simp add: read_original_storage_def find_original_def sm_simps extends_refl)
  next
    case None
    let ?o = "o1\<lparr>as_storage := AList.update key x (as_storage o1)\<rparr>"
    obtain b1 where b1: "read_storage a inc key (st_block_state s) = Inr (x, b1)"
      "t = s\<lparr>st_block_state := b1, st_original := AList.update a ?o (st_original s)\<rparr>"
      using run o1 None
      by (auto simp: read_original_storage_def find_original_def lift_bs_res_def
          modify_original_def sm_simps)
    obtain d where d: "map_of (bs_state (hz_end H)) a = Some d" "as_account o1 = snd (sd_account d)"
      "slot_valid d key x"
      using c by (force simp: concluded_def validated_def b1(2))
    have "original_inc s a i \<longleftrightarrow> holds_inc (hz_end H) a i" for i
      using o1 d by (simp add: original_inc_def holds_inc_def bs_account_def)
    then have "bs_slot (hz_end H) a inc key = x"
      using c view d b1(2) unfolding concluded_def slot_view_def
      by (intro accepted_slot[OF b1(1), of "hz_codes H" "hz_block H" "hz_clock H" "hz_end_clock H"]) auto
    then have x: "bs_slot b a inc key = x" using e by (simp add: extends_def)
    have "a \<in> set (keys (bs_state b))" "bs_secondary_db b = None"
      using r map_of_in_keys[OF o1] unfolding srel_def by blast+
    from read_storage_total[OF this, of inc key] x obtain b2
      where b2: "read_storage a inc key b = Inr (x, b2)" by auto
    have "read_original_storage a inc key (s\<lparr>st_block_state := b\<rparr>) = Inr (x, t\<lparr>st_block_state := b2\<rparr>)"
      using o1 None b2
      by (simp add: read_original_storage_def find_original_def lift_bs_res_def
          modify_original_def sm_simps b1(2))
    moreover note ext = extends_read_storage[OF b2]
    moreover have "srel (hz_codes H) t b2"
    proof -
      have c: "code_at b1 = code_at (st_block_state s)" "code_at b2 = code_at b"
        using b1(1) b2 by (auto elim!: read_storageE)
      have "st_original t = AList.update a ?o (st_original s)" by (simp add: b1(2))
      then have "set (keys (st_original t)) = set (keys (st_original s))"
        using map_of_in_keys[OF o1] by (simp only: keys_update insert_absorb)
      then have "set (keys (st_original t)) \<subseteq> set (keys (bs_state b2))"
        using r read_storage_keys[OF b2] unfolding srel_def by blast
      then show ?thesis using r ext unfolding srel_def by (simp add: b1(2) c extends_def)
    qed
    ultimately show ?thesis by blast
  qed
qed

subsection \<open>Operations\<close>

lemma sim_exact: "sim H (modify_original a set_validate_exact_balance)"
  by (rule sim_modify_original)
    (simp add: set_validate_exact_balance_def account_state.truncate_def)

lemma sim_pessimistic: "sim H (modify_original a (\<lambda>o'. snd (get_balance_pessimistic o')))"
  by (rule sim_modify_original)
    (simp add: get_balance_pessimistic_def set_validate_exact_balance_def
      account_state.truncate_def)

lemma sim_min_balance: "sim H (modify_original a (\<lambda>o'. o'\<lparr>min_balance := m\<rparr>))"
  by (rule sim_modify_original) (simp add: account_state.truncate_def)

lemma sim_find: "sim H (find_original a)" "sim H (find_current a)"
  unfolding find_original_def find_current_def by (rule sim_get, simp)+

lemmas sim_prims =
  sim_original sim_exact sim_pessimistic sim_min_balance sim_find sim_modify_rb sim_put_stack
  sim_modify_current sim_bs_read_code sim_rules

lemma sim_recent: "sim H (recent_account_state a)"
  unfolding recent_account_state_def by (intro sim_prims)

lemma sim_recent_account: "sim H (recent_account a)"
  unfolding recent_account_def by (intro sim_prims sim_recent)

lemma sim_current: "sim H (current_account_state a)"
  unfolding current_account_state_def by (intro sim_prims; simp)

lemma sim_current_account: "sim H (current_account a)"
  unfolding current_account_def by (intro sim_prims sim_current)

lemma sim_read_code: "sim H (read_code hash)"
  unfolding read_code_def by (intro sim_prims; simp)

lemma sim_set_account: "sim H (set_account a acct)"
  unfolding set_account_def by (rule sim_modify_current)

lemma sim_store_log: "sim H (store_log l)"
  unfolding store_log_def by (intro sim_prims; simp)

lemmas sim_basic =
  sim_recent sim_recent_account sim_current sim_current_account sim_read_code sim_set_account
  sim_store_log sim_prims

text \<open>The reads, unfolded to the basic operations.\<close>

lemma sim_reads:
  "sim H (account_exists a)" "sim H (account_is_dead a)"
  "sim H (account_has_code_or_nonce a)" "sim H (get_nonce a)" "sim H (get_balance a)"
  "sim H (get_original_balance a)" "sim H (get_code_hash a)" "sim H (is_destructed a)"
  "sim H (is_current_incarnation a)" "sim H (get_transient_storage a key)"
  "sim H (is_touched a)" "sim H (get_code a)" "sim H (get_code_size a)"
  "sim H (copy_code a offset n)" "sim H logs"
  "sim H (record_balance_constraint_for_debit a d)"
  unfolding account_exists_def account_is_dead_def account_has_code_or_nonce_def get_nonce_def
    get_balance_def get_original_balance_def get_code_hash_def is_destructed_def
    is_current_incarnation_def get_transient_storage_def is_touched_def get_code_def
    get_code_size_def copy_code_def logs_def record_balance_constraint_for_debit_def
  by (intro sim_basic; simp)+

lemma sim_is_delegated_hash: "sim H (is_delegated_hash h)"
  unfolding is_delegated_hash_def by (intro sim_basic)

lemma sim_tracker:
  "sim H (set_threshold a t)" "sim H (failed_insert a)" "sim H (failed_erase a)"
  "sim H tracking_enabled" "sim H has_violation"
  unfolding set_threshold_def failed_insert_def failed_erase_def tracking_enabled_def
    has_violation_def
  by (intro sim_basic; simp)+

lemma sim_get_threshold: "sim H (get_threshold a)"
  unfolding get_threshold_def by (intro sim_basic sim_tracker; simp)

lemma sim_check_threshold: "sim H (check_threshold a t)"
  unfolding check_threshold_def by (intro sim_basic sim_reads sim_tracker)

lemma sim_set_threshold_and_clear: "sim H (set_threshold_and_clear a)"
  unfolding set_threshold_and_clear_def by (intro sim_basic sim_tracker)

lemma sim_subject_account: "sim H (subject_account a)"
  unfolding subject_account_def by (intro sim_basic sim_reads sim_is_delegated_hash; simp)

lemma sim_pretx_reserve: "sim H (pretx_reserve a)"
  unfolding pretx_reserve_def by (intro sim_basic sim_reads; simp)

lemmas sim_tracking =
  sim_tracker sim_get_threshold sim_check_threshold sim_set_threshold_and_clear
  sim_subject_account sim_pretx_reserve sim_is_delegated_hash

lemma sim_update_violation_status: "sim H (update_violation_status a)"
  unfolding update_violation_status_def by (intro sim_basic sim_reads sim_tracking; simp)

lemma sim_callbacks:
  "sim H (on_credit a)" "sim H (on_debit a)" "sim H (on_pop_reject as)"
  "sim H (on_set_code a c)"
  unfolding on_credit_def on_debit_def on_pop_reject_def on_set_code_def
  by (intro sim_basic sim_tracking sim_update_violation_status; simp)+

lemma sim_init_from_tx: "sim H (init_from_tx tr sender tx fee i ctx)"
  unfolding init_from_tx_def by (intro sim_basic sim_reads sim_tracking)

lemma sim_any_dipped: "(\<And>p. sim H (f p)) \<Longrightarrow> sim H (any_dipped f ps)"
  by (induction ps) (auto intro!: sim_rules)

lemma sim_dipped_account: "sim H (dipped_account r sender fees i ctx p)"
  unfolding dipped_account_def by (intro sim_basic sim_reads sim_tracking)

lemma sim_revert_transaction:
  "sim H (revert_transaction tr sender tx fee i ctx)" "sim H (revert_transaction_cached tr)"
  unfolding revert_transaction_def dipped_into_reserve_def revert_transaction_cached_def
    dipped_into_reserve_cached_def
  by (intro sim_basic sim_any_dipped sim_dipped_account sim_tracking; simp)+

lemma sim_transfers: "sim H (add_to_balance a d)" "sim H (subtract_from_balance a d)"
  unfolding add_to_balance_def subtract_from_balance_def
  by (intro sim_basic sim_callbacks; simp)+

lemma sim_writes:
  "sim H (set_nonce a n)" "sim H (touch a)" "sim H (access_account a)"
  "sim H (create_contract a)" "sim H (create_account_no_rollback a)"
  "sim H (set_to_state_incarnation a)" "sim H (set_transient_storage a key v)"
  "sim H (access_storage tr a key)" "sim H (update_page a key status)"
  unfolding set_nonce_def touch_def access_account_def create_contract_def
    create_account_no_rollback_def set_to_state_incarnation_def set_transient_storage_def
    access_storage_def update_page_def
  by (intro sim_basic; simp)+

lemma sim_selfdestruct: "sim H (selfdestruct tr a b)"
  unfolding selfdestruct_def by (intro sim_basic sim_reads sim_transfers sim_callbacks)

lemma sim_set_code: "hz_codes H (kec c) = Some c \<Longrightarrow> sim H (set_code kec a c)"
  unfolding set_code_def Let_def by (intro sim_basic sim_insert_code sim_callbacks)

lemma sim_frames: "sim H push" "sim H pop_accept" "sim H pop_reject"
  unfolding push_def pop_accept_def pop_reject_def take_dirty_def pop_accept_account_def
    pop_reject_account_def erase_empty_def
  by (intro sim_basic sim_callbacks; simp)+

lemma sim_end_loops: "sim H (destruct_suicides tr)" "sim H destruct_touched_dead"
  unfolding destruct_suicides_def destruct_touched_dead_def by (intro sim_basic; simp)+

subsection \<open>Storage\<close>

lemma sim_at_case_option:
  assumes "o' = None \<Longrightarrow> sim_at H m s" "\<And>x. o' = Some x \<Longrightarrow> sim_at H (f x) s"
  shows "sim_at H (case o' of None \<Rightarrow> m | Some x \<Rightarrow> f x) s"
  using assms by (cases o') simp_all

lemma sim_at_if:
  assumes "c \<Longrightarrow> sim_at H m s" "\<not> c \<Longrightarrow> sim_at H k s"
  shows "sim_at H (if c then m else k) s"
  using assms by simp

lemma sim_at_find_original:
  assumes "sim_at H (f (map_of (st_original s) a)) s" "\<And>x. keeps (advances (hz_codes H)) (f x)"
  shows "sim_at H (bindS (find_original a) f) s"
  using assms by (intro sim_at_bind sim_at[OF sim_find(1)]) (auto simp: find_original_def getS_def)

lemma sim_at_find_current:
  assumes "sim_at H (f (map_of (st_current s) a)) s" "\<And>x. keeps (advances (hz_codes H)) (f x)"
  shows "sim_at H (bindS (find_current a) f) s"
  using assms by (intro sim_at_bind sim_at[OF sim_find(2)]) (auto simp: find_current_def getS_def)

lemma sim_at_lift:
  assumes "\<And>x. m = Inr x \<Longrightarrow> sim_at H (f x) s" "\<And>x. keeps (advances (hz_codes H)) (f x)"
  shows "sim_at H (bindS (liftS m) f) s"
  using assms by (intro sim_at_bind sim_at[OF sim_lift]) (auto simp: liftS_def)

lemmas sim_at_rules =
  sim_at_case_option sim_at_if sim_at_find_original sim_at_find_current sim_at_lift
  sim_at[OF sim_return] sim_at[OF sim_lift]

lemmas adv_storage_rules =
  adv.keeps_rules adv.keeps_original_storage adv.keeps_original adv.keeps_modify
  sim_advances[OF sim_find(1)] sim_advances[OF sim_find(2)]

lemma sim_get_storage: "sim H (get_storage a key)"
proof (rule simI[OF adv.keeps_get_storage])
  fix s
  have view: "sim_at H (read_original_storage a (incarnation acct) key) s"
    if "map_of (st_original s) a = Some o1" "as_account o1 = Some acct1"
      "incarnation acct = incarnation acct1" for o1 acct acct1
    using that by (intro sim_at_read_original_storage) (simp add: slot_view_def original_inc_def)
  show "sim_at H (get_storage a key) s"
    unfolding get_storage_def
    by (intro sim_at_rules adv_storage_rules; (rule view)?; (assumption | simp)?)
qed

text \<open>
  In \<open>set_storage\<close> the incarnation is that of the current account, which the transaction itself may
  have given to the account. What holds of a transaction while it runs speculatively: its versions have
  incarnations of its own or recorded ones, and the recorded ones are from before it.
\<close>

definition spec_ok :: "horizon \<Rightarrow> tx_state \<Rightarrow> bool" where
  "spec_ok H s \<longleftrightarrow> hz_block H = inc_block (st_incarnation s) \<and>
     hz_clock H \<le> unat (inc_tx (st_incarnation s)) \<and> inc_tx (st_incarnation s) \<noteq> - 1 \<and> inc_ok s \<and>
     block_ok (hz_block H) (hz_clock H) (st_block_state s) \<and>
     (\<forall>a i. original_inc s a i \<longrightarrow> earlier (hz_block H) (hz_clock H) i \<or> i = Inc (hz_block H) (- 1))"

lemma spec_ok_step:
  assumes "incs s t" "spreads codes s t" "spec_ok H s"
  shows "spec_ok H t"
proof -
  have "earlier (hz_block H) (hz_clock H) i \<or> i = Inc (hz_block H) (- 1)" if "original_inc t a i" for a i
  proof -
    have "original_inc s a i \<or> holds_inc (st_block_state s) a i"
      using that assms(2) unfolding spreads_def original_inc_def holds_inc_def by metis
    then show ?thesis using assms(3) block_ok_holds unfolding spec_ok_def by blast
  qed
  moreover have "block_ok (hz_block H) (hz_clock H) (st_block_state t)"
    using assms(2,3) evolves_block_ok unfolding spreads_def spec_ok_def by blast
  ultimately show ?thesis using assms(1,3) by (simp add: spec_ok_def incs_def)
qed

lemma own_slot_view:
  assumes "spec_ok H s" "own_inc s i \<or> original_inc s a i"
  shows "slot_view H a i s"
proof -
  have "\<not> holds_inc (st_block_state s) a (st_incarnation s)"
  proof
    assume "holds_inc (st_block_state s) a (st_incarnation s)"
    then have "earlier (hz_block H) (hz_clock H) (st_incarnation s) \<or> st_incarnation s = Inc (hz_block H) (- 1)"
      using assms(1) block_ok_holds unfolding spec_ok_def by blast
    then show False
    proof
      assume "st_incarnation s = Inc (hz_block H) (- 1)"
      then have "inc_tx (st_incarnation s) = - 1" by simp
      then show False using assms(1) by (simp add: spec_ok_def)
    qed (use assms(1) in \<open>simp add: spec_ok_def earlier_def\<close>)
  qed
  moreover have "i' = i \<or> earlier (hz_block H) (hz_clock H) i'"
    if "original_inc s a i'" "i = last_incarnation (st_incarnation s)" for i'
    using that assms(1) unfolding spec_ok_def last_incarnation_Inc by metis
  ultimately show ?thesis using assms(2) unfolding own_inc_def slot_view_def by blast
qed

lemma sim_at_set_storage:
  assumes ok: "spec_ok H s"
  shows "sim_at H (set_storage a key v) s"
  unfolding set_storage_def
proof (rule sim_at_bind[OF sim_at[OF sim_current]])
  fix st u assume cur: "current_account_state a s = Inr (st, u)"
  have u: "spec_ok H u" by (rule spec_ok_step[OF keepsD[OF incs_current cur] keepsD[OF spr.keeps_current cur] ok])
  have view: "slot_view H a (incarnation acct) w"
    if st: "as_account st = Some acct" and w: "original_account_state a u = Inr (o1, w)"
    for acct o1 w
  proof -
    have iw: "incs u w" by (rule keepsD[OF incs_original w])
    obtain stack where "map_of (st_current u) a = Some stack" "st \<in> entries stack"
      using current_entry[OF cur] by blast
    then have "account_inc_ok u a (Some acct)"
      using u inc_okD st unfolding spec_ok_def by metis
    then have "own_inc w (incarnation acct) \<or> original_inc w a (incarnation acct)"
      using account_inc_ok_mono[OF iw] by (auto simp: account_inc_ok_def)
    then show ?thesis
      by (rule own_slot_view[OF spec_ok_step[OF iw keepsD[OF spr.keeps_original w] u]])
  qed
  have tail: "sim_at H (thenS (modify_current a f) (returnS y)) w" for f w and y :: monad_storage_status
    by (rule sim_at) (intro sim_basic)
  show "sim_at H (case as_account st of None \<Rightarrow> liftS (Inl AssertFail)
      | Some account \<Rightarrow>
         bindS (original_account_state a) (\<lambda>orig.
         bindS (read_original_storage a (incarnation account) key) (\<lambda>original_value.
         thenS (modify_current a (\<lambda>st. snd (as_set_storage key v original_value st)))
           (returnS (fst (as_set_storage key v original_value st)))))) u"
    by (intro sim_at_case_option sim_at[OF sim_lift] sim_at_bind[OF sim_at[OF sim_original]]
        sim_at_bind[OF sim_at_read_original_storage] adv_storage_rules tail view)
qed (intro adv_storage_rules)

subsection \<open>Programs\<close>

text \<open>The contract of the hash for the code a program deploys.\<close>

definition op_ok :: "(bytes32 \<Rightarrow> bytes option) \<Rightarrow> (bytes \<Rightarrow> bytes32) \<Rightarrow> op \<Rightarrow> bool" where
  "op_ok codes kec opn = (\<forall>a c. opn = OpSetCode a c \<longrightarrow> codes (kec c) = Some c)"

lemma sim_exec_op:
  assumes "op_ok (hz_codes H) kec opn" "\<nexists>a key v. opn = OpSetStorage a key v"
  shows "sim H (exec_op kec opn)"
  using assms
  by (cases opn; simp only: exec_op.simps answer_def)
    (intro sim_rules sim_reads sim_get_storage sim_transfers sim_writes sim_selfdestruct
      sim_set_code sim_store_log sim_read_code sim_init_from_tx sim_revert_transaction sim_end_loops
      sim_frames sim_original sim_exact, (simp add: op_ok_def)?)+

lemma sim_at_exec_op:
  assumes "op_ok (hz_codes H) kec opn" "spec_ok H s"
  shows "sim_at H (exec_op kec opn) s"
proof (cases "\<exists>a key v. opn = OpSetStorage a key v")
  case True
  then show ?thesis
    using assms(2)
    by (auto simp: answer_def intro!: sim_at_bind sim_at_set_storage sim_at[OF sim_return]
        adv.keeps_rules)
next
  case False
  then show ?thesis using sim_exec_op[OF assms(1)] sim_at by blast
qed

lemma advances_exec_op:
  assumes "op_ok codes kec opn"
  shows "keeps (advances codes) (exec_op kec opn)"
proof (cases "\<exists>a key v. opn = OpSetStorage a key v")
  case True
  then show ?thesis by (auto simp: answer_def intro!: adv.keeps_rules adv.keeps_set_storage)
next
  case False
  let ?H = "\<lparr>hz_codes = codes, hz_block = 0, hz_clock = 0, hz_end_clock = 0, hz_end = undefined\<rparr>"
  show ?thesis using sim_advances[OF sim_exec_op[of ?H]] assms False by simp
qed

text \<open>
  The speculative execution of a program next to the other transactions of its block: before every
  operation they may take any number of steps. The number is the index below which all transactions
  have been merged.
\<close>

inductive spec_run :: "(bytes32 \<Rightarrow> bytes option) \<Rightarrow> (bytes \<Rightarrow> bytes32) \<Rightarrow> 'a prog \<Rightarrow>
    nat \<times> tx_state \<Rightarrow> 'a \<Rightarrow> nat \<times> tx_state \<Rightarrow> bool"
  for codes kec where
  spec_ret: "spec_run codes kec (Ret r) (k, s) r (k, s)"
| spec_do: "spec_run codes kec (Do opn f) (k, s) r (k', t)"
    if "op_ok codes kec opn" "env_steps codes (st_incarnation s) (k, st_block_state s) (k1, b1)"
      "exec_op kec opn (s\<lparr>st_block_state := b1\<rparr>) = Inr (x, u)" "spec_run codes kec (f x) (k1, u) r (k', t)"

text \<open>
  What holds throughout such a run, the horizon apart: the invariants, and that the code the block
  state has is that of the code store.
\<close>

definition running :: "(bytes32 \<Rightarrow> bytes option) \<Rightarrow> nat \<Rightarrow> tx_state \<Rightarrow> bool" where
  "running codes k s \<longleftrightarrow> code_at (st_block_state s) \<subseteq>\<^sub>m codes \<and>
     spec_ok \<lparr>hz_codes = codes, hz_block = inc_block (st_incarnation s), hz_clock = k, hz_end_clock = k,
       hz_end = st_block_state s\<rparr> s"

lemma running_spec_ok:
  "running codes k s \<Longrightarrow> hz_block H = inc_block (st_incarnation s) \<Longrightarrow> hz_clock H = k \<Longrightarrow> spec_ok H s"
  by (simp add: running_def spec_ok_def)

lemma running_clock: "running codes k s \<Longrightarrow> k \<le> unat (inc_tx (st_incarnation s))"
  by (simp add: running_def spec_ok_def)

lemma block_state_update [simp]:
  "original_inc (s\<lparr>st_block_state := b\<rparr>) = original_inc s" "inc_ok (s\<lparr>st_block_state := b\<rparr>) = inc_ok s"
  by (simp_all add: inc_ok_def account_inc_ok_def own_inc_def original_inc_def fun_eq_iff)

lemma running_env:
  assumes run: "running codes k s" and env: "env_steps codes (st_incarnation s) (k, st_block_state s) (k1, b1)"
  shows "evolves codes (inc_block (st_incarnation s)) k (st_block_state s) k1 b1"
    and "running codes k1 (s\<lparr>st_block_state := b1\<rparr>)"
proof -
  note ev = env_steps_evolves[OF env running_clock[OF run]]
  show e: "evolves codes (inc_block (st_incarnation s)) k (st_block_state s) k1 b1" using ev by simp
  have "earlier n k1 i" if "earlier n k i" for n i
    by (rule earlier_mono[OF that]) (use e in \<open>simp add: evolves_def\<close>)
  then have "original_inc s a i \<Longrightarrow> earlier (inc_block (st_incarnation s)) k1 i \<or>
      i = Inc (inc_block (st_incarnation s)) (- 1)" for a i
    using run unfolding running_def spec_ok_def by auto
  then show "running codes k1 (s\<lparr>st_block_state := b1\<rparr>)"
    using run ev evolves_block_ok[OF e] evolves_code[OF e] by (simp add: running_def spec_ok_def)
qed

lemma running_op:
  assumes run: "running codes k s" and "op_ok codes kec opn" "exec_op kec opn s = Inr (x, t)"
  shows "evolves codes (inc_block (st_incarnation s)) k (st_block_state s) k (st_block_state t)"
    and "running codes k t" and "st_incarnation t = st_incarnation s"
proof -
  have sp: "spreads codes s t"
    using keepsD[OF advances_exec_op[OF assms(2)] assms(3)] by (simp add: advances_def)
  have inc: "incs s t" by (rule keepsD[OF incs_exec_op assms(3)])
  show e: "evolves codes (inc_block (st_incarnation s)) k (st_block_state s) k (st_block_state t)"
    using sp by (simp add: spreads_def)
  show i: "st_incarnation t = st_incarnation s" using inc by (simp add: incs_def)
  have "code_at (st_block_state t) \<subseteq>\<^sub>m codes" using evolves_code[OF e] run by (simp add: running_def)
  moreover have "spec_ok \<lparr>hz_codes = codes, hz_block = inc_block (st_incarnation s), hz_clock = k,
      hz_end_clock = k, hz_end = st_block_state t\<rparr> t"
    by (rule spec_ok_step[OF inc sp]) (use run in \<open>simp add: running_def spec_ok_def\<close>)
  ultimately show "running codes k t" by (simp add: running_def i)
qed

lemma running_spec_run:
  assumes "spec_run codes kec p ks r kt" "running codes (fst ks) (snd ks)"
  shows "running codes (fst kt) (snd kt) \<and> st_incarnation (snd kt) = st_incarnation (snd ks) \<and>
    grows (snd ks) (snd kt) \<and>
    evolves codes (inc_block (st_incarnation (snd ks))) (fst ks) (st_block_state (snd ks))
      (fst kt) (st_block_state (snd kt))"
  using assms
proof (induction rule: spec_run.induct)
  case (spec_ret r k s)
  then show ?case by (simp add: grows_refl evolves_refl)
next
  case (spec_do opn s k k1 b1 x u f r k' t)
  have run: "running codes k s" using spec_do.prems by simp
  note env = running_env[OF run spec_do.hyps(2)]
  note run1 = env(2)
  note op = running_op[OF run1 spec_do.hyps(1,3)]
  have "grows s u"
    using keepsD[OF advances_exec_op[OF spec_do.hyps(1)] spec_do.hyps(3)]
    by (simp add: advances_def grows_def)
  moreover have "evolves codes (inc_block (st_incarnation s)) k (st_block_state s) k1 (st_block_state u)"
    using evolves_trans[OF env(1)] op(1) spec_do.prems by simp
  ultimately show ?case
    using spec_do.IH op(2,3) grows_trans evolves_trans by fastforce
qed

section \<open>The serial run\<close>

text \<open>
  \<open>ends codes bs2 k2 k t\<close>: the run is at the state \<open>t\<close>, the others go on until the block state is
  \<open>bs2\<close>, and \<open>can_merge\<close> has accepted the record of \<open>t\<close> there.
\<close>

definition ends :: "(bytes32 \<Rightarrow> bytes option) \<Rightarrow> block_state \<Rightarrow> nat \<Rightarrow> nat \<Rightarrow> tx_state \<Rightarrow> bool" where
  "ends codes bs2 k2 k t \<longleftrightarrow> concluded \<lparr>hz_codes = codes, hz_block = inc_block (st_incarnation t),
     hz_clock = k, hz_end_clock = k2, hz_end = bs2\<rparr> t"

lemma ends_back:
  assumes "ends codes bs2 k2 k' t" "grows s t" "st_incarnation t = st_incarnation s"
    and "evolves codes (inc_block (st_incarnation s)) k (st_block_state s) k' (st_block_state t)"
  shows "ends codes bs2 k2 k s"
  using assms validated_grows[OF assms(2)] evolves_trans[OF assms(4)] by (simp add: ends_def concluded_def)

lemma spec_run_simulates:
  assumes "spec_run codes kec p ks r kt" "running codes (fst ks) (snd ks)"
    and "ends codes bs2 k2 (fst kt) (snd kt)" "srel codes (snd ks) b" "extends bs2 b"
  shows "\<exists>b'. run kec p ((snd ks)\<lparr>st_block_state := b\<rparr>) = Inr (r, (snd kt)\<lparr>st_block_state := b'\<rparr>) \<and>
    extends bs2 b' \<and> srel codes (snd kt) b'"
  using assms
proof (induction arbitrary: b rule: spec_run.induct)
  case (spec_ret r k s)
  then show ?case by (auto simp: returnS_def)
next
  case (spec_do opn s k k1 b1 x u f r k' t)
  let ?s = "s\<lparr>st_block_state := b1\<rparr>"
  let ?H = "\<lparr>hz_codes = codes, hz_block = inc_block (st_incarnation s), hz_clock = k1,
    hz_end_clock = k2, hz_end = bs2\<rparr>"
  have run: "running codes k s" using spec_do.prems(1) by simp
  note env = running_env[OF run spec_do.hyps(2)]
  note op = running_op[OF env(2) spec_do.hyps(1,3)]
  have rest: "running codes k' t \<and> st_incarnation t = st_incarnation u \<and> grows u t \<and>
      evolves codes (inc_block (st_incarnation u)) k1 (st_block_state u) k' (st_block_state t)"
    using running_spec_run[OF spec_do.hyps(4)] op(2) by simp
  have endu: "ends codes bs2 k2 k1 u" using ends_back[of codes bs2 k2 k' t u k1] rest spec_do.prems(2) by simp
  have cu: "concluded ?H u" using endu op(3) by (simp add: ends_def)
  have g: "grows ?s u"
    using keepsD[OF advances_exec_op[OF spec_do.hyps(1)] spec_do.hyps(3)] by (simp add: advances_def)
  have "ends codes bs2 k2 k1 ?s" by (rule ends_back[OF endu g]) (use op in simp_all)
  then have ev: "evolves codes (inc_block (st_incarnation s)) k1 b1 k2 bs2"
    by (simp add: ends_def concluded_def)
  have "code_at b1 \<subseteq>\<^sub>m codes" using env(2) by (simp add: running_def)
  then have "code_at b1 \<subseteq>\<^sub>m code_at bs2" using evolves_code[OF ev] by simp
  then have "code_at b1 \<subseteq>\<^sub>m code_at b" using spec_do.prems(4) map_le_trans unfolding extends_def by blast
  then have sr: "srel codes ?s b" using spec_do.prems(3) by (simp add: srel_def)
  have ok: "spec_ok ?H ?s" by (rule running_spec_ok[OF env(2)]) simp_all
  obtain b2 where b2: "exec_op kec opn (?s\<lparr>st_block_state := b\<rparr>) = Inr (x, u\<lparr>st_block_state := b2\<rparr>)"
    "extends b b2" "srel codes u b2"
    by (rule sim_atE[OF sim_at_exec_op[OF _ ok] spec_do.hyps(3) cu])
      (use spec_do.hyps(1) spec_do.prems(4) sr in simp_all)
  from spec_do.IH[of b2] op(2) spec_do.prems(2) b2(3) extends_trans[OF spec_do.prems(4) b2(2)]
  show ?case using b2(1) by (auto simp: bindS_run)
qed

lemma original_State:
  "\<exists>b. original_account_state a (State bs inc relaxed) =
      Inr (OriginalAccountState (bs_account bs a), (State bs inc relaxed)\<lparr>st_block_state := b,
        st_original := [(a, OriginalAccountState (bs_account bs a))]\<rparr>) \<and>
    extends bs b \<and> a \<in> set (keys (bs_state b)) \<and> code_at b = code_at bs"
proof -
  obtain r b where rb: "read_account a bs = (r, b)" by fastforce
  have "code_at b = code_at bs" using rb by (auto elim!: read_accountE)
  then show ?thesis
    using rb read_account_value[OF rb] extends_read_account[OF rb] read_account_present[OF rb]
    by (intro exI[of _ b]) (simp add: State_def original_account_state_def find_original_def
        lift_bs_def emplace_original_def sm_simps)
qed

lemma set_original_nonce_State:
  assumes "set_original_nonce a n (State bs inc relaxed) = Inr (u, s)"
  shows "\<exists>b acct. s = (State bs inc relaxed)\<lparr>st_block_state := b,
      st_original := [(a, OriginalAccountState (Some (acct\<lparr>nonce := n\<rparr>)))]\<rparr> \<and> extends bs b \<and>
      code_at b = code_at bs"
proof -
  obtain r b where rb: "read_account a bs = (r, b)" by fastforce
  have "code_at b = code_at bs" using rb by (auto elim!: read_accountE)
  moreover obtain acct where "s = (State bs inc relaxed)\<lparr>st_block_state := b,
      st_original := [(a, OriginalAccountState (Some (acct\<lparr>nonce := n\<rparr>)))]\<rparr>"
    using assms rb
    by (auto simp: State_def set_original_nonce_def original_account_state_def find_original_def
        lift_bs_def emplace_original_def modify_original_def sm_simps OriginalAccountState_def
        AccountState_def account_state.defs original_account_state.defs)
  ultimately show ?thesis using extends_read_account[OF rb] by blast
qed

section \<open>Optimistic execution is serial execution\<close>

lemma validated_can_merge:
  assumes "can_merge bs t = Inr (True, t')" "\<not> st_relaxed_validation t"
  shows "t' = t \<and> validated (st_original t) bs"
proof -
  have "slot_valid d key v" if "storage_matches (sd_storage d) m" "map_of m key = Some v" for d m key v
    using that map_of_SomeD[OF that(2)] by (auto simp: storage_matches_def slot_valid_def list_all_iff)
  then show ?thesis using can_merge_strict[OF assms] unfolding validated_def by blast
qed

text \<open>The start of a speculative run, with the nonce of the sender assumed.\<close>

lemma running_start:
  assumes start: "set_original_nonce sender n (State bs inc False) = Inr (u, s)"
    and ok: "block_ok (inc_block inc) k bs" "code_at bs \<subseteq>\<^sub>m codes" "0 < k" "k \<le> unat (inc_tx inc)"
      "inc_tx inc \<noteq> - 1"
  shows "running codes k s"
proof -
  obtain r b where rb: "read_account sender bs = (r, b)" by fastforce
  let ?acct = "(case r of None \<Rightarrow> default_account | Some acct \<Rightarrow> acct)\<lparr>nonce := n\<rparr>"
  have s: "s = (State bs inc False)\<lparr>st_block_state := b,
      st_original := [(sender, OriginalAccountState (Some ?acct))]\<rparr>"
    using start rb
    by (auto simp: State_def set_original_nonce_def original_account_state_def find_original_def
        lift_bs_def emplace_original_def modify_original_def sm_simps OriginalAccountState_def
        AccountState_def account_state.defs original_account_state.defs Let_def split: option.splits)
  have e: "evolves codes (inc_block inc) k bs k b" by (rule evolves_read_account[OF rb])
  have "earlier (inc_block inc) k (incarnation ?acct) \<or> incarnation ?acct = Inc (inc_block inc) (- 1)"
  proof (cases r)
    case None
    then show ?thesis using ok(3) by (simp add: default_account_def new_account_def earlier_def)
  next
    case (Some acct)
    then have "holds_inc bs sender (incarnation acct)"
      using read_account_value[OF rb] by (simp add: holds_inc_def)
    then show ?thesis using block_ok_holds[OF ok(1)] Some by simp
  qed
  then show ?thesis
    using ok evolves_block_ok[OF e ok(1)] evolves_code[OF e ok(2)]
    by (simp add: running_def spec_ok_def s State_def inc_ok_def original_inc_def OriginalAccountState_def
        AccountState_def account_state.defs)
qed

text \<open>
  C1: serializability of optimistic execution, as blocks are executed (strict validation). The
  transaction with incarnation \<open>inc\<close> of a block runs a program speculatively: it starts from the block
  state \<open>bs1\<close> with the nonce of its sender assumed to be the one it carries, and before each of its
  operations, and after the last, its predecessors in the block may read through the block state, deploy
  code into the shared cache and be merged, any number of times; operations of the block state are
  atomic. If \<open>can_merge\<close> accepts the result against the block state \<open>bs2\<close> of the moment, then validation
  has changed nothing, and the execution of the program on \<open>bs2\<close> alone, after the account of the sender
  has been read, gives the same answer and the same transaction state: the same reads, writes, logs, code
  and reserve-balance tracking. Assumed are the invariant of the block state (it holds at the start of a
  block, and every step keeps it), that the transaction is not the one with the last index of a block,
  and of the hash that it identifies the codes involved (\<open>codes\<close>); there is no secondary database.
\<close>

theorem optimistic_run_is_serial:
  assumes start: "set_original_nonce sender n (State bs1 inc False) = Inr (u, s)"
    and block: "block_ok (inc_block inc) k bs1" "0 < k" "k \<le> unat (inc_tx inc)" "inc_tx inc \<noteq> - 1"
    and codes: "good_codes codes" "code_at bs1 \<subseteq>\<^sub>m codes"
    and spec: "spec_run codes kec p (k, s) r (k1, t)"
    and rest: "env_steps codes inc (k1, st_block_state t) (k2, bs2)"
    and valid: "can_merge bs2 t = Inr (True, t')"
  shows "t' = t \<and> (\<exists>b. thenS (original_account_state sender) (run kec p) (State bs2 inc False) =
      Inr (r, t\<lparr>st_block_state := b\<rparr>) \<and> extends bs2 b)"
proof -
  obtain b1 acct where s: "s = (State bs1 inc False)\<lparr>st_block_state := b1,
      st_original := [(sender, OriginalAccountState (Some (acct\<lparr>nonce := n\<rparr>)))]\<rparr>"
    using set_original_nonce_State[OF start] by blast
  have run: "running codes k s" by (rule running_start[OF start block(1) codes(2) block(2-4)])
  have end1: "running codes k1 t" "grows s t" "st_incarnation t = inc"
    "evolves codes (inc_block inc) k (st_block_state s) k1 (st_block_state t)"
    using running_spec_run[OF spec] run by (simp_all add: s State_def)
  note env = running_env[OF end1(1) rest[folded end1(3)]]
  have strict: "\<not> st_relaxed_validation t" using end1(2) by (simp add: grows_def s State_def)
  note val = validated_can_merge[OF valid strict]
  have ok2: "block_ok (inc_block inc) k2 bs2" "code_at bs2 \<subseteq>\<^sub>m codes"
    using env(2) end1(3) by (simp_all add: running_def spec_ok_def)
  have ends: "ends codes bs2 k2 k1 t"
    using val env(1) ok2 end1(3) by (simp add: ends_def concluded_def)
  have "validated (st_original s) bs2" using validated_grows[OF end1(2)] val by blast
  from validated_account[OF this, of sender] have "bs_account bs2 sender = Some (acct\<lparr>nonce := n\<rparr>)"
    by (simp add: s OriginalAccountState_def AccountState_def account_state.defs)
  then obtain b where b: "original_account_state sender (State bs2 inc False) =
      Inr (OriginalAccountState (bs_account bs2 sender), s\<lparr>st_block_state := b\<rparr>)"
    "extends bs2 b" "sender \<in> set (keys (bs_state b))" "code_at b = code_at bs2"
    using original_State[of sender bs2 inc False] by (auto simp: s State_def)
  have "code_at (st_block_state s) \<subseteq>\<^sub>m code_at bs2"
    using evolves_code[OF evolves_trans[OF end1(4) env(1)[unfolded end1(3)]]] run by (simp add: running_def)
  then have "srel codes s b"
    using b(2-4) codes ok2 unfolding srel_def extends_def block_ok_def by (simp add: s State_def)
  from spec_run_simulates[OF spec, where ?bs2.0 = bs2 and ?k2.0 = k2 and b = b] run ends this b(2)
  obtain b' where "run kec p (s\<lparr>st_block_state := b\<rparr>) = Inr (r, t\<lparr>st_block_state := b'\<rparr>)" "extends bs2 b'"
    by auto
  then show ?thesis using b(1) val by (auto simp: thenS_run)
qed

text \<open>
  An example: two transactions of the sender 7 in block 1. The second one starts while the nonce of
  the sender is still 0 and looks at the account 5; then the first one is merged, which writes the slot
  1 of that account; the second reads the slot.
\<close>

definition example_db :: db where
  "example_db = \<lparr>db_read_account = (\<lambda>a. if a = 5 \<or> a = 7 then Some default_account else None),
     db_read_storage = (\<lambda>_ _ _. 4), db_read_code = (\<lambda>_. None)\<rparr>"

definition example_delta :: "account \<Rightarrow> storage_deltas \<Rightarrow> state_delta" where
  "example_delta acct deltas = \<lparr>sd_account = (Some default_account, Some acct), sd_storage = deltas\<rparr>"

definition example_block :: "u64 \<Rightarrow> storage_deltas \<Rightarrow> block_state" where
  "example_block n deltas = (BlockState example_db [] None)
     \<lparr>bs_state := [(5, example_delta default_account deltas), (7, example_delta (default_account\<lparr>nonce := n\<rparr>) [])]\<rparr>"

definition example_predecessor :: tx_state where
  "example_predecessor = (State (example_block 0 [(1, (4, 4))]) (Incarnation 1 1) False)
     \<lparr>st_original := [(5, (OriginalAccountState (Some default_account))\<lparr>as_storage := [(1, 4)]\<rparr>),
        (7, OriginalAccountState (Some default_account))],
      st_current := [(5, [(0, (AccountState (Some default_account))\<lparr>as_storage := [(1, 8)]\<rparr>)]),
        (7, [(0, AccountState (Some (default_account\<lparr>nonce := 1\<rparr>)))])]\<rparr>"

definition example_program :: "bytes32 prog" where
  "example_program = bindP (state_account_exists 5) (\<lambda>_. state_get_storage 5 1)"

definition example_state :: "block_state \<Rightarrow> (address \<times> original_account_state) list \<Rightarrow> tx_state" where
  "example_state b orig = (State b (Incarnation 1 2) False)\<lparr>st_original := orig\<rparr>"

lemmas example_defs = example_state_def example_block_def example_delta_def example_db_def State_def
  BlockState_def OriginalAccountState_def AccountState_def account_state.defs original_account_state.defs
  default_account_def new_account_def

lemma example_merge:
  "can_merge (example_block 0 [(1, (4, 4))]) example_predecessor = Inr (True, example_predecessor)"
  "merge example_predecessor (example_block 0 [(1, (4, 4))]) = Inr (example_block 1 [(1, (4, 8))])"
  by (simp_all add: example_predecessor_def example_defs can_merge_def can_merge_account_def
      find_original_def storage_matches_def sm_simps merge_def merge_account_def merge_code_def
      merge_slot_def vs_size_def)

lemma example_env:
  "env_steps (\<lambda>_. None) (Incarnation 1 2) (1, example_block 0 [(1, (4, 4))]) (2, example_block 1 [(1, (4, 8))])"
proof -
  have "env_step (\<lambda>_. None) (Incarnation 1 2) (1, example_block 0 [(1, (4, 4))])
      (Suc (unat (1 :: 24 word)), example_block 1 [(1, (4, 8))])"
    by (rule env_merge[OF example_merge])
      (simp_all add: example_predecessor_def example_defs Incarnation_def inc_ok_def account_inc_ok_def
        original_inc_def split: if_splits)
  then show ?thesis by (simp add: numeral_2_eq_2 r_into_rtranclp)
qed

lemma example_block_ok: "block_ok 1 k (example_block n deltas)"
  by (auto simp: block_ok_def example_defs holds_inc_def bs_account_def earlier_def split: if_splits option.splits)

lemma example_code: "code_at (example_block n deltas) = Map.empty"
  by (simp add: code_at_def example_defs fun_eq_iff)

definition example_records :: "storage_map \<Rightarrow> (address \<times> original_account_state) list" where
  "example_records slots = [(7, OriginalAccountState (Some (default_account\<lparr>nonce := 1\<rparr>))),
     (5, (OriginalAccountState (Some default_account))\<lparr>as_storage := slots\<rparr>)]"

lemma example_ops:
  "set_original_nonce 7 1 (State (example_block 0 d) (Incarnation 1 2) False) =
     Inr ((), example_state (example_block 0 d) (take 1 (example_records [])))"
  "exec_op kec (OpAccountExists 5) (example_state (example_block 0 d) (take 1 (example_records []))) =
     Inr (ABool True, example_state (example_block 0 d) (example_records []))"
  "exec_op kec (OpGetStorage 5 1) ((example_state (example_block 0 d) (example_records []))
       \<lparr>st_block_state := example_block 1 [(1, (4, 8))]\<rparr>) =
     Inr (AU256 8, example_state (example_block 1 [(1, (4, 8))]) (example_records [(1, 8)]))"
  "can_merge (example_block 1 [(1, (4, 8))])
       (example_state (example_block 1 [(1, (4, 8))]) (example_records [(1, 8)])) =
     Inr (True, example_state (example_block 1 [(1, (4, 8))]) (example_records [(1, 8)]))"
  by (simp_all add: example_records_def example_defs set_original_nonce_def original_account_state_def
      find_original_def lift_bs_def lift_bs_res_def read_account_def read_storage_def emplace_original_def
      modify_original_def sm_simps Let_def answer_def account_exists_def recent_account_def
      recent_account_state_def find_current_def get_storage_def read_original_storage_def
      account_state.truncate_def can_merge_def can_merge_account_def storage_matches_def)

lemma example_spec_run:
  "spec_run (\<lambda>_. None) kec example_program
     (1, example_state (example_block 0 [(1, (4, 4))]) (take 1 (example_records []))) 8
     (2, example_state (example_block 1 [(1, (4, 8))]) (example_records [(1, 8)]))"
proof -
  let ?s1 = "example_state (example_block 0 [(1, (4, 4))]) (example_records [])"
  have st: "st_incarnation (example_state b orig) = Incarnation 1 2" "st_block_state (example_state b orig) = b"
    "(example_state b orig)\<lparr>st_block_state := b\<rparr> = example_state b orig" for b orig
    by (simp_all add: example_state_def State_def)
  have "spec_run (\<lambda>_. None) kec (state_get_storage 5 1) (1, ?s1) 8
      (2, example_state (example_block 1 [(1, (4, 8))]) (example_records [(1, 8)]))"
    unfolding state_calls ask_def
    by (rule spec_do[OF _ _ example_ops(3), where ?k1.0 = 2])
      (simp_all add: op_ok_def st example_env[unfolded One_nat_def] to_ans spec_ret)
  then show ?thesis
    unfolding example_program_def state_calls(1) ask_def bindP.simps
    by (intro spec_do[OF _ rtranclp.rtrancl_refl, where x = "ABool True" and u = ?s1])
      (simp_all add: op_ok_def st example_ops(2)[unfolded exec_op.simps One_nat_def] to_ans)
qed

theorem optimistic_run_is_serial_witness:
  "\<exists>s t b. set_original_nonce 7 1 (State (example_block 0 [(1, (4, 4))]) (Incarnation 1 2) False) = Inr ((), s) \<and>
     spec_run (\<lambda>_. None) (\<lambda>_. 0) example_program (1, s) 8 (2, t) \<and>
     can_merge (example_block 1 [(1, (4, 8))]) t = Inr (True, t) \<and>
     thenS (original_account_state 7) (run (\<lambda>_. 0) example_program)
       (State (example_block 1 [(1, (4, 8))]) (Incarnation 1 2) False) = Inr (8, t\<lparr>st_block_state := b\<rparr>)"
proof -
  let ?t = "example_state (example_block 1 [(1, (4, 8))]) (example_records [(1, 8)])"
  have inc: "inc_block (Incarnation 1 2) = 1" "unat (inc_tx (Incarnation 1 2)) = 2"
    "inc_tx (Incarnation 1 2) \<noteq> - 1"
    by (simp_all add: Incarnation_def)
  have rest: "env_steps (\<lambda>_. None) (Incarnation 1 2) (2, st_block_state ?t) (2, example_block 1 [(1, (4, 8))])"
    by (simp add: example_state_def State_def)
  obtain b where "thenS (original_account_state 7) (run (\<lambda>_. 0) example_program)
      (State (example_block 1 [(1, (4, 8))]) (Incarnation 1 2) False) = Inr (8, ?t\<lparr>st_block_state := b\<rparr>)"
    using optimistic_run_is_serial[OF example_ops(1) _ _ _ inc(3) _ _ example_spec_run rest example_ops(4)]
    by (auto simp: inc example_block_ok example_code good_codes_def)
  then show ?thesis using example_ops(1,4) example_spec_run by blast
qed

end
