(* ===== verification/Account_View.thy ===== *)
theory Account_View
  imports Optimistic
begin

text \<open>
  The accounts a transaction sees. \<open>st_account s a\<close> is the abstract state that \<open>State\<close> implements:
  the latest version of the account in \<open>current_\<close>, else the recorded original, else what the block
  state holds. The operations of \<open>State\<close> refine the obvious operations on this function: reading
  returns its values and changes none of them, writing updates it at one address.
\<close>

section \<open>The view\<close>

definition base_account :: "tx_state \<Rightarrow> address \<Rightarrow> account option" where
  "base_account s a =
     (case map_of (st_original s) a of
        Some o1 \<Rightarrow> as_account o1
      | None \<Rightarrow> bs_account (st_block_state s) a)"

definition st_account :: "tx_state \<Rightarrow> address \<Rightarrow> account option" where
  "st_account s a =
     (case map_of (st_current s) a of
        Some stack \<Rightarrow> (case vs_recent stack of Inr st \<Rightarrow> as_account st | Inl _ \<Rightarrow> None)
      | None \<Rightarrow> base_account s a)"

definition account_balance :: "account option \<Rightarrow> u256" where
  "account_balance account = (case account of Some acct \<Rightarrow> balance acct | None \<Rightarrow> 0)"

definition account_nonce :: "account option \<Rightarrow> u64" where
  "account_nonce account = (case account of Some acct \<Rightarrow> nonce acct | None \<Rightarrow> 0)"

definition account_code_hash :: "account option \<Rightarrow> bytes32" where
  "account_code_hash account = (case account of Some acct \<Rightarrow> code_hash acct | None \<Rightarrow> NULL_HASH)"

lemma base_account_cong:
  "st_original t = st_original s \<Longrightarrow> st_block_state t = st_block_state s \<Longrightarrow> base_account t = base_account s"
  by (simp add: base_account_def fun_eq_iff split: option.split)

definition same_accounts :: "tx_state \<Rightarrow> tx_state \<Rightarrow> bool" where
  "same_accounts s t \<longleftrightarrow> (frames_ok s \<longrightarrow>
     frames_ok t \<and> st_incarnation t = st_incarnation s \<and> st_account t = st_account s)"

lemma same_accounts_base:
  assumes "same_frames s t" "st_incarnation t = st_incarnation s" "base_account t = base_account s"
  shows "same_accounts s t"
proof -
  have "frames_ok s \<Longrightarrow> frames_ok t"
    using same_frames_framed[OF assms(1), of 0] by (simp add: framed_def)
  moreover have "st_account t = st_account s"
    using assms unfolding st_account_def same_frames_def by (simp add: fun_eq_iff split: option.split)
  ultimately show ?thesis using assms(2) by (simp add: same_accounts_def)
qed

interpretation sac: program_relation same_accounts
  by unfold_locales (auto simp: same_accounts_def)

section \<open>Reading\<close>

lemma original_account_run:
  assumes "original_account_state a s = Inr (o1, t)"
  shows "map_of (st_original t) a = Some o1"
    and "bs_account (st_block_state t) x = bs_account (st_block_state s) x"
    and "map_of (st_original s) a = Some o1 \<or> map_of (st_original s) a = None"
  using assms read_account_account
  by (auto simp: original_account_state_def find_original_def lift_bs_def emplace_original_def
      sm_simps split: option.splits prod.splits)

lemma vs_current_recent: "vs_current n stack = Inr (x, stack') \<Longrightarrow> vs_recent stack = Inr x"
  by (cases stack) (auto split: if_splits)

lemma base_account_original: "original_account_state a s = Inr (o1, t) \<Longrightarrow> base_account t = base_account s"
proof (cases "map_of (st_original s) a")
  case None
  assume run: "original_account_state a s = Inr (o1, t)"
  obtain r b where rb: "read_account a (st_block_state s) = (r, b)" by fastforce
  have "t = s\<lparr>st_block_state := b,
      st_original := AList.update a (OriginalAccountState r) (st_original s)\<rparr>"
    using run None rb
    by (auto simp: original_account_state_def find_original_def lift_bs_def emplace_original_def sm_simps)
  then show ?thesis
    using None read_account_value[OF rb] read_account_account[OF rb]
    by (auto simp: base_account_def fun_eq_iff OriginalAccountState_def AccountState_def
        account_state.defs split: option.split)
qed (simp add: original_account_state_def find_original_def sm_simps)

lemma original_account_value:
  assumes "original_account_state a s = Inr (o1, t)"
  shows "as_account o1 = base_account s a"
  using original_account_run(1)[OF assms] unfolding base_account_original[OF assms, symmetric]
  by (simp add: base_account_def)

lemma same_accounts_original: "keeps same_accounts (original_account_state a)"
proof (rule keepsI)
  fix s x t assume run: "original_account_state a s = Inr (x, t)"
  show "same_accounts s t"
  proof (rule same_accounts_base)
    show "same_frames s t" by (rule keepsD[OF same_frames_original run])
    show "base_account t = base_account s" by (rule base_account_original[OF run])
    show "st_incarnation t = st_incarnation s"
      using arg_cong[OF original_account_state_run[OF run], of st_incarnation] by simp
  qed
qed

lemma same_accounts_modify_original:
  assumes "\<And>o'. slice (f o') = slice o'"
  shows "keeps same_accounts (modify_original a f)"
proof (rule keepsI)
  fix s x t assume run: "modify_original a f s = Inr (x, t)"
  have f: "as_account (f o') = as_account o'" for o'
    using assms[of o'] by (auto simp: account_state.truncate_def)
  show "same_accounts s t"
    by (rule same_accounts_base[OF keepsD[OF same_frames_prims(3) run]])
      (use run f in \<open>auto simp: modify_original_def modifyS_def base_account_def fun_eq_iff
        split: option.splits if_splits\<close>)
qed

lemma same_accounts_original_storage: "keeps same_accounts (read_original_storage a inc key)"
proof (rule keepsI)
  fix s x t assume run: "read_original_storage a inc key s = Inr (x, t)"
  obtain o1 where o1: "map_of (st_original s) a = Some o1"
    using run by (auto simp: read_original_storage_def find_original_def sm_simps split: option.splits)
  show "same_accounts s t"
  proof (cases "map_of (as_storage o1) key")
    case None
    then obtain b1 where b1: "read_storage a inc key (st_block_state s) = Inr (x, b1)"
      "t = s\<lparr>st_block_state := b1, st_original := AList.update a
         (o1\<lparr>as_storage := AList.update key x (as_storage o1)\<rparr>) (st_original s)\<rparr>"
      using run o1
      by (auto simp: read_original_storage_def find_original_def lift_bs_res_def
          modify_original_def sm_simps)
    show ?thesis
      by (rule same_accounts_base)
        (use o1 read_storage_account[OF b1(1)] in \<open>auto simp: same_frames_def b1(2) base_account_def
          fun_eq_iff split: option.split\<close>)
  next
    case (Some v)
    then show ?thesis
      using run o1 sac.rel_refl
      by (simp add: read_original_storage_def find_original_def sm_simps)
  qed
qed

lemma same_accounts_bs:
  assumes "\<And>b x b' y. f b = Inr (x, b') \<Longrightarrow> bs_account b' y = bs_account b y"
  shows "keeps same_accounts (lift_bs_res f)"
proof (rule keepsI)
  fix s x t assume run: "lift_bs_res f s = Inr (x, t)"
  then obtain b where b: "f (st_block_state s) = Inr (x, b)" "t = s\<lparr>st_block_state := b\<rparr>"
    by (auto simp: lift_bs_res_def)
  show "same_accounts s t"
    by (rule same_accounts_base)
      (use assms[OF b(1)] in \<open>auto simp: same_frames_def b(2) base_account_def fun_eq_iff split: option.split\<close>)
qed

lemma bs_account_vm: "bs_account (b\<lparr>bs_vm := vm\<rparr>) y = bs_account b y"
  by (rule bs_account_cong) simp_all

lemma same_accounts_rb: "keeps same_accounts (modify_rb f)"
  by (rule keepsI, rule same_accounts_base[OF keepsD[OF same_frames_prims(5)]])
    (auto simp: modify_rb_def modifyS_def base_account_def fun_eq_iff split: option.split)

interpretation sac: state_read_relation same_accounts
proof (unfold_locales, goal_cases)
  case (4 hash)
  show ?case
    by (rule same_accounts_bs) (auto dest!: bs_read_code_run simp: bs_account_vm)
qed (rule same_accounts_original same_accounts_modify_original same_accounts_original_storage
    same_accounts_rb, assumption?)+

text \<open>What the reading operations return.\<close>

lemma recent_account_value: "recent_account a s = Inr (x, t) \<Longrightarrow> x = st_account s a"
  using original_account_value
  by (auto simp: recent_account_def recent_account_state_def find_current_def st_account_def
      sm_simps account_state.truncate_def split: option.splits)

lemma get_nonce_value: "get_nonce a s = Inr (x, t) \<Longrightarrow> x = account_nonce (st_account s a)"
  by (auto simp: get_nonce_def sm_simps account_nonce_def dest!: recent_account_value)

lemma get_balance_value: "get_balance a s = Inr (x, t) \<Longrightarrow> x = account_balance (st_account s a)"
  by (auto simp: get_balance_def sm_simps account_balance_def dest!: recent_account_value)

lemma get_code_hash_value:
  "get_code_hash a s = Inr (x, t) \<Longrightarrow> x = account_code_hash (st_account s a)"
  by (auto simp: get_code_hash_def sm_simps account_code_hash_def dest!: recent_account_value)

lemma account_exists_value: "account_exists a s = Inr (x, t) \<Longrightarrow> x = (st_account s a \<noteq> None)"
  by (auto simp: account_exists_def sm_simps dest!: recent_account_value)

lemma account_is_dead_value: "account_is_dead a s = Inr (x, t) \<Longrightarrow> x = is_dead (st_account s a)"
  by (auto simp: account_is_dead_def sm_simps dest!: recent_account_value)

lemma has_code_or_nonce_value:
  "account_has_code_or_nonce a s = Inr (x, t) \<Longrightarrow>
     x = (account_nonce (st_account s a) > 0 \<or> account_code_hash (st_account s a) \<noteq> NULL_HASH)"
  by (auto simp: account_has_code_or_nonce_def sm_simps account_nonce_def account_code_hash_def
      split: option.splits dest!: recent_account_value)

lemma constraint_value:
  "record_balance_constraint_for_debit a d s = Inr (x, t) \<Longrightarrow>
     x = (d \<le> account_balance (st_account s a))"
  by (auto simp: record_balance_constraint_for_debit_def sm_simps account_balance_def Let_def
      split: option.splits if_splits dest!: recent_account_value)

lemmas read_values =
  recent_account_value get_nonce_value get_balance_value get_code_hash_value
  account_exists_value account_is_dead_value has_code_or_nonce_value constraint_value

text \<open>Reading an account never fails.\<close>

lemma original_account_total: "\<exists>o1 t. original_account_state a s = Inr (o1, t)"
  by (cases "map_of (st_original s) a")
    (auto simp: original_account_state_def find_original_def lift_bs_def emplace_original_def
      sm_simps split: prod.split)

lemma recent_account_total:
  assumes "frames_ok s"
  shows "\<exists>t. recent_account a s = Inr (st_account s a, t)"
proof -
  have "\<exists>x t. recent_account a s = Inr (x, t)"
  proof (cases "map_of (st_current s) a")
    case None
    then show ?thesis
      using original_account_total[of a s]
      by (auto simp: recent_account_def recent_account_state_def find_current_def sm_simps)
  next
    case (Some stack)
    then have "vs_ok (st_version s) stack" using assms by (simp add: frames_ok_def)
    then obtain st where "vs_recent stack = Inr st" using vs_recent_ok by blast
    with Some show ?thesis
      by (auto simp: recent_account_def recent_account_state_def find_current_def sm_simps)
  qed
  then show ?thesis using recent_account_value by blast
qed

section \<open>Code\<close>

text \<open>The code a transaction sees under a hash: its own deployments before those of the block.\<close>

definition st_code_at :: "tx_state \<Rightarrow> bytes32 \<Rightarrow> bytes option" where
  "st_code_at s h =
     (case map_of (st_code s) h of Some c \<Rightarrow> Some c | None \<Rightarrow> code_at (st_block_state s) h)"

definition same_code :: "tx_state \<Rightarrow> tx_state \<Rightarrow> bool" where
  "same_code s t \<longleftrightarrow> st_code_at t = st_code_at s"

lemma same_codeI:
  "st_code t = st_code s \<Longrightarrow> code_at (st_block_state t) = code_at (st_block_state s) \<Longrightarrow> same_code s t"
  by (simp add: same_code_def st_code_at_def fun_eq_iff split: option.split)

interpretation sco: state_read_relation same_code
proof (unfold_locales, goal_cases)
  case 1 show ?case by (simp add: same_code_def)
next
  case 2 then show ?case by (simp add: same_code_def)
next
  case (3 a)
  show ?case
    by (rule keepsI, rule same_codeI)
      (auto simp: original_account_state_def find_original_def lift_bs_def emplace_original_def
        sm_simps split: option.splits prod.splits elim!: read_accountE)
next
  case (4 f a)
  show ?case
    by (rule keepsI, rule same_codeI)
      (auto simp: modify_original_def modifyS_def split: option.splits)
next
  case (5 a inc key)
  show ?case
    by (rule keepsI, rule same_codeI)
      (auto simp: read_original_storage_def find_original_def lift_bs_res_def modify_original_def
        sm_simps split: option.splits elim!: read_storageE)
next
  case (6 hash)
  show ?case
    by (rule keepsI, rule same_codeI)
      (auto simp: lift_bs_res_def code_at_read_code dest!: bs_read_code_run)
next
  case (7 g)
  show ?case by (rule keepsI, rule same_codeI) (auto simp: modify_rb_def modifyS_def)
qed

lemma read_code_value: "read_code h s = Inr (c, t) \<Longrightarrow> st_code_at s h = Some c"
  by (auto simp: read_code_def st_code_at_def sm_simps lift_bs_res_def split: option.splits
      dest!: bs_read_code_run)

section \<open>Writing\<close>

definition at_top :: "address \<Rightarrow> tx_state \<Rightarrow> bool" where
  "at_top a s \<longleftrightarrow> (\<exists>x rest. map_of (st_current s) a = Some ((st_version s, x) # rest))"

text \<open>\<open>writes a acct s t\<close>: the step from \<open>s\<close> to \<open>t\<close> replaces the account of \<open>a\<close> and no other.\<close>

definition writes :: "address \<Rightarrow> account option \<Rightarrow> tx_state \<Rightarrow> tx_state \<Rightarrow> bool" where
  "writes a acct s t \<longleftrightarrow> (frames_ok s \<longrightarrow>
     frames_ok t \<and> st_incarnation t = st_incarnation s \<and> st_account t = (st_account s)(a := acct))"

lemma writes_then_same: "writes a acct s t \<Longrightarrow> same_accounts t u \<Longrightarrow> writes a acct s u"
  by (simp add: writes_def same_accounts_def)

lemma same_then_writes: "same_accounts s t \<Longrightarrow> writes a acct t u \<Longrightarrow> writes a acct s u"
  by (simp add: writes_def same_accounts_def)

lemma current_account_effect:
  assumes "current_account a s = Inr (x, t)" "frames_ok s"
  shows "x = st_account s a \<and> same_accounts s t \<and> at_top a t"
proof -
  obtain st where st: "current_account_state a s = Inr (st, t)" "x = as_account st"
    using assms(1) by (auto simp: current_account_def sm_simps)
  from st(1) obtain bs O' stack stack' where
    t: "t = s\<lparr>st_block_state := bs, st_original := O', st_dirty := mark_dirty a (st_dirty s),
           st_current := AList.update a stack' (st_current s)\<rparr>"
    and cur: "vs_current (st_version s) stack = Inr (st, stack')"
    and stk: "map_of (st_current s) a = Some stack \<or>
     (map_of (st_current s) a = None \<and> (\<exists>y. stack = VersionStack y (st_version s)))"
    by (rule current_account_state_run)
  have ok: "frames_ok t" using keepsD[OF framed_current st(1), of 0] assms(2) by (simp add: framed_def)
  have vok: "vs_ok (st_version s) stack" using stk assms(2) by (auto simp: frames_ok_def)
  have top: "\<exists>rest. stack' = (st_version s, st) # rest"
    using cur vok by (cases stack) (auto split: if_splits)
  have base: "base_account t = base_account s"
    and x: "st_account s a = as_account st"
  proof -
    show "st_account s a = as_account st"
    proof (cases "map_of (st_current s) a")
      case None
      obtain o1 u where u: "original_account_state a s = Inr (o1, u)"
        using original_account_total by blast
      have "st = slice o1"
        using st(1) None u
        by (auto simp: current_account_state_def find_current_def sm_simps VersionStack_def)
      then show ?thesis
        using None original_account_value[OF u] by (simp add: st_account_def account_state.truncate_def)
    next
      case (Some stack2)
      then show ?thesis using stk vs_current_recent[OF cur] by (auto simp: st_account_def)
    qed
    show "base_account t = base_account s"
    proof (cases "map_of (st_current s) a")
      case None
      obtain o1 u where u: "original_account_state a s = Inr (o1, u)"
        using original_account_total by blast
      have "st_original t = st_original u" "st_block_state t = st_block_state u"
        using st(1) None u
        by (auto simp: current_account_state_def find_current_def put_stack_def sm_simps VersionStack_def)
      then show ?thesis using base_account_original[OF u] base_account_cong by metis
    next
      case (Some stack2)
      then have "st_original t = st_original s" "st_block_state t = st_block_state s"
        using st(1) by (auto simp: current_account_state_def find_current_def put_stack_def sm_simps)
      then show ?thesis by (rule base_account_cong)
    qed
  qed
  have "st_account t y = st_account s y" for y
  proof (cases "y = a")
    case True
    then show ?thesis using top x by (auto simp: st_account_def t)
  next
    case False
    then have "map_of (st_current t) y = map_of (st_current s) y" by (simp add: t)
    then show ?thesis using base by (simp add: st_account_def split: option.split)
  qed
  then show ?thesis
    using ok top x st(2) by (auto simp: same_accounts_def at_top_def t)
qed

lemma modify_current_effect:
  assumes "modify_current a f s = Inr (x, t)" "frames_ok s" "at_top a s"
  shows "frames_ok t \<and> at_top a t \<and> st_incarnation t = st_incarnation s \<and>
    (\<exists>st. st_account s a = as_account st \<and> st_account t = (st_account s)(a := as_account (f st)))"
proof -
  obtain st rest where top: "map_of (st_current s) a = Some ((st_version s, st) # rest)"
    using assms(3) by (auto simp: at_top_def)
  have t: "t = s\<lparr>st_current := AList.update a ((st_version s, f st) # rest) (st_current s)\<rparr>"
    using assms(1) top by (simp add: modify_current_def sm_simps)
  have "frames_ok t"
    using keepsD[OF framed_modify_current assms(1), of 0] assms(2) by (simp add: framed_def)
  moreover have "base_account t = base_account s" by (rule base_account_cong) (simp_all add: t)
  ultimately show ?thesis
    using top by (auto simp: t at_top_def st_account_def fun_eq_iff split: option.split)
qed

lemma same_accounts_current: "keeps same_accounts (current_account_state a)"
proof (rule keepsI)
  fix s x t assume run: "current_account_state a s = Inr (x, t)"
  then have "current_account a s = Inr (as_account x, t)" by (simp add: current_account_def sm_simps)
  from current_account_effect[OF this] show "same_accounts s t"
    by (cases "frames_ok s") (simp_all add: same_accounts_def)
qed

lemma vs_recent_modify: "(\<And>st. as_account (f st) = as_account st) \<Longrightarrow>
    (case vs_recent (vs_modify n f stack) of Inr st \<Rightarrow> as_account st | Inl _ \<Rightarrow> None) =
    (case vs_recent stack of Inr st \<Rightarrow> as_account st | Inl _ \<Rightarrow> None)"
  by (cases stack) auto

lemma same_accounts_modify:
  assumes "\<And>st. as_account (f st) = as_account st"
  shows "keeps same_accounts (modify_current a f)"
proof (rule keepsI)
  fix s x t assume run: "modify_current a f s = Inr (x, t)"
  have "frames_ok s \<Longrightarrow> frames_ok t"
    using keepsD[OF framed_modify_current run, of 0] by (simp add: framed_def)
  moreover have "st_account t = st_account s" "st_incarnation t = st_incarnation s"
  proof -
    have "base_account t = base_account s" "st_incarnation t = st_incarnation s"
      using run by (auto simp: modify_current_def sm_simps intro!: base_account_cong split: option.splits)
    then show "st_account t = st_account s" "st_incarnation t = st_incarnation s"
      using run assms
      by (auto simp: modify_current_def sm_simps st_account_def fun_eq_iff vs_recent_modify
          split: option.splits if_splits)
  qed
  ultimately show "same_accounts s t" by (simp add: same_accounts_def)
qed

lemma same_accounts_insert_code: "keeps same_accounts (insert_code h c)"
  by (rule keepsI, rule same_accounts_base[OF keepsD[OF same_frames_insert_code]])
    (auto simp: insert_code_def lift_bs_def sm_simps base_account_def fun_eq_iff bs_account_vm
      split: option.splits prod.splits)

lemma same_accounts_store_log: "keeps same_accounts (store_log l)"
proof (rule keepsI)
  fix s x t assume run: "store_log l s = Inr (x, t)"
  have "base_account t = base_account s" "st_incarnation t = st_incarnation s" "st_current t = st_current s"
    using run by (auto simp: store_log_def sm_simps intro!: base_account_cong)
  then have "st_account t = st_account s" "st_incarnation t = st_incarnation s"
    by (simp_all add: st_account_def fun_eq_iff split: option.split)
  moreover have "frames_ok s \<Longrightarrow> frames_ok t"
    using keepsD[OF framed_store_log run, of 0] by (simp add: framed_def)
  ultimately show "same_accounts s t" by (simp add: same_accounts_def)
qed

lemma same_accounts_writes:
  "keeps same_accounts (touch a)" "keeps same_accounts (access_account a)"
  "keeps same_accounts (set_storage a key v)" "keeps same_accounts (set_transient_storage a key v)"
  "keeps same_accounts (access_storage tr a key)" "keeps same_accounts (update_page a key status)"
  unfolding touch_def access_account_def set_storage_def set_transient_storage_def
    access_storage_def update_page_def
  by (intro sac.keeps_lookups same_accounts_current same_accounts_modify; simp)+

lemma set_account_effect:
  assumes "set_account a acct s = Inr (x, t)" "frames_ok s" "at_top a s"
  shows "writes a acct s t \<and> frames_ok t \<and> at_top a t"
  using modify_current_effect[OF assms(1)[unfolded set_account_def] assms(2,3)]
  by (auto simp: writes_def)

lemma set_account_total: "\<exists>t. set_account a acct s = Inr ((), t)"
  by (simp add: set_account_def modify_current_def sm_simps)

lemma current_account_total:
  assumes "frames_ok s"
  shows "\<exists>t. current_account a s = Inr (st_account s a, t)"
proof -
  have "\<exists>x t. current_account a s = Inr (x, t)"
  proof (cases "map_of (st_current s) a")
    case None
    obtain o1 u where u: "original_account_state a s = Inr (o1, u)"
      using original_account_total by blast
    then show ?thesis
      using None by (auto simp: current_account_def current_account_state_def find_current_def
          put_stack_def sm_simps VersionStack_def)
  next
    case (Some stack)
    then have "vs_ok (st_version s) stack" using assms by (simp add: frames_ok_def)
    then obtain x stack' where "vs_current (st_version s) stack = Inr (x, stack')"
      by (rule vs_current_ok)
    with Some show ?thesis
      by (auto simp: current_account_def current_account_state_def find_current_def put_stack_def sm_simps)
  qed
  then show ?thesis using current_account_effect assms by blast
qed

lemma set_nonce_effect:
  assumes "frames_ok s"
  shows "\<exists>t. set_nonce a n s = Inr ((), t) \<and> frames_ok t \<and>
    writes a (Some ((account_or_new (st_incarnation s) (st_account s a))\<lparr>nonce := n\<rparr>)) s t"
proof -
  obtain u where u: "current_account a s = Inr (st_account s a, u)"
    using current_account_total[OF assms] by blast
  note cur = current_account_effect[OF u assms]
  then have ok: "frames_ok u" "at_top a u" "st_incarnation u = st_incarnation s"
    using assms by (auto simp: same_accounts_def)
  let ?acct = "Some ((account_or_new (st_incarnation s) (st_account s a))\<lparr>nonce := n\<rparr>)"
  obtain t where t: "set_account a ?acct u = Inr ((), t)" using set_account_total by blast
  note eff = set_account_effect[OF t ok(1,2)]
  have "writes a ?acct s t" by (rule same_then_writes[of s u]) (use cur eff in simp_all)
  then show ?thesis using u t eff ok(3) by (auto simp: set_nonce_def sm_simps)
qed

lemma add_to_balance_effect:
  assumes "add_to_balance a d s = Inr (x, t)" "frames_ok s"
  defines "acct \<equiv> account_or_new (st_incarnation s) (st_account s a)"
  shows "unat (balance acct) + unat d < 2 ^ 256 \<and> frames_ok t \<and>
    writes a (Some (acct\<lparr>balance := balance acct + d\<rparr>)) s t"
proof -
  obtain account u v w where r: "current_account a s = Inr (account, u)"
    "set_account a (Some ((account_or_new (st_incarnation u) account)
       \<lparr>balance := balance (account_or_new (st_incarnation u) account) + d\<rparr>)) u = Inr ((), v)"
    "modify_current a touch_substate v = Inr ((), w)" "on_credit a w = Inr (x, t)"
    "balance (account_or_new (st_incarnation u) account) \<le> - 1 - d"
    using assms(1) by (auto simp: add_to_balance_def sm_simps Let_def)
  note cur = current_account_effect[OF r(1) assms(2)]
  then have ok: "frames_ok u" "at_top a u" "st_incarnation u = st_incarnation s" "account = st_account s a"
    using assms(2) by (auto simp: same_accounts_def)
  note eff = set_account_effect[OF r(2)[unfolded ok(3,4), folded acct_def] ok(1,2)]
  have same: "same_accounts v t"
    using sac.rel_trans[OF keepsD[OF same_accounts_modify r(3)] keepsD[OF sac.keeps_on_credit r(4)]]
    by simp
  have "writes a (Some (acct\<lparr>balance := balance acct + d\<rparr>)) s t"
    by (rule same_then_writes[of s u], use cur in simp, rule writes_then_same[OF _ same], use eff in simp)
  then show ?thesis
    using r(5)[unfolded max_word_minus] assms(2) by (simp add: writes_def ok(3,4) acct_def)
qed

lemma subtract_from_balance_effect:
  assumes "subtract_from_balance a d s = Inr (x, t)" "frames_ok s"
  defines "acct \<equiv> account_or_new (st_incarnation s) (st_account s a)"
  shows "d \<le> balance acct \<and> frames_ok t \<and> writes a (Some (acct\<lparr>balance := balance acct - d\<rparr>)) s t"
proof -
  obtain account u v w where r: "current_account a s = Inr (account, u)"
    "set_account a (Some ((account_or_new (st_incarnation u) account)
       \<lparr>balance := balance (account_or_new (st_incarnation u) account) - d\<rparr>)) u = Inr ((), v)"
    "modify_current a touch_substate v = Inr ((), w)" "on_debit a w = Inr (x, t)"
    "d \<le> balance (account_or_new (st_incarnation u) account)"
    using assms(1) by (auto simp: subtract_from_balance_def sm_simps Let_def)
  note cur = current_account_effect[OF r(1) assms(2)]
  then have ok: "frames_ok u" "at_top a u" "st_incarnation u = st_incarnation s" "account = st_account s a"
    using assms(2) by (auto simp: same_accounts_def)
  note eff = set_account_effect[OF r(2)[unfolded ok(3,4), folded acct_def] ok(1,2)]
  have same: "same_accounts v t"
    using sac.rel_trans[OF keepsD[OF same_accounts_modify r(3)] keepsD[OF sac.keeps_on_debit r(4)]]
    by simp
  have "writes a (Some (acct\<lparr>balance := balance acct - d\<rparr>)) s t"
    by (rule same_then_writes[of s u], use cur in simp, rule writes_then_same[OF _ same], use eff in simp)
  then show ?thesis
    using r(5) assms(2) by (simp add: writes_def ok(3,4) acct_def)
qed

section \<open>Balances\<close>

definition bal :: "tx_state \<Rightarrow> address \<Rightarrow> nat" where
  "bal s a = unat (account_balance (st_account s a))"

lemma balance_or_new: "balance (account_or_new inc account) = account_balance account"
  by (simp add: account_or_new_def account_balance_def new_account_def split: option.split)

lemma add_to_balance_bal:
  assumes "add_to_balance a d s = Inr (x, t)" "frames_ok s"
  shows "frames_ok t \<and> bal t = (bal s)(a := bal s a + unat d)"
  using add_to_balance_effect[OF assms] assms(2)
  by (auto simp: writes_def bal_def fun_eq_iff balance_or_new account_balance_def unat_add_no_overflow)

lemma subtract_from_balance_bal:
  assumes "subtract_from_balance a d s = Inr (x, t)" "frames_ok s"
  shows "frames_ok t \<and> unat d \<le> bal s a \<and> bal t = (bal s)(a := bal s a - unat d)"
  using subtract_from_balance_effect[OF assms] assms(2)
  by (auto simp: writes_def bal_def fun_eq_iff balance_or_new account_balance_def
      unat_sub_no_underflow word_le_nat_alt)

lemma same_accounts_bal: "same_accounts s t \<Longrightarrow> frames_ok s \<Longrightarrow> bal t = bal s"
  by (simp add: same_accounts_def bal_def fun_eq_iff)

text \<open>Moving value between accounts.\<close>

lemma transfer_bal:
  assumes "subtract_from_balance a v s = Inr (x, u)" "add_to_balance b v u = Inr (y, t)" "frames_ok s"
  shows "frames_ok t \<and> unat v \<le> bal s a \<and>
    bal t = (bal s)(a := bal s a - unat v, b := (if b = a then bal s a else bal s b + unat v))"
proof -
  note sub = subtract_from_balance_bal[OF assms(1,3)]
  have "frames_ok t \<and> bal t = (bal u)(b := bal u b + unat v)"
    by (rule add_to_balance_bal[OF assms(2)]) (use sub in simp)
  with sub show ?thesis by (auto simp: fun_eq_iff)
qed

lemma transfer_sum:
  assumes "finite A" "a \<in> A" "b \<in> A" "v \<le> f a"
    "g = f(a := f a - v, b := (if b = a then f a else f b + v))"
  shows "(\<Sum>x\<in>A. g x) = (\<Sum>x\<in>A. (f x :: nat))"
proof (cases "a = b")
  case False
  have "(\<Sum>x\<in>A. h x) = h a + (h b + (\<Sum>x\<in>A - {a} - {b}. h x))" for h :: "_ \<Rightarrow> nat"
    using assms(1-3) False by (simp add: sum.remove[of A a] sum.remove[of "A - {a}" b])
  moreover have "(\<Sum>x\<in>A - {a} - {b}. g x) = (\<Sum>x\<in>A - {a} - {b}. f x)"
    by (rule sum.cong) (simp_all add: assms(5))
  ultimately show ?thesis using assms(4) False by (simp add: assms(5))
qed (use assms in \<open>auto intro!: sum.cong\<close>)

end
