(* ===== verification/Validate_Tx.thy ===== *)
theory Validate_Tx
  imports Account_View
begin

text \<open>
  Validation of transactions: the checks that need no state (\<open>validate_transaction.cpp\<close>), those
  against the state of the sender (\<open>validate_transaction.hpp\<close>, \<open>monad/validate_monad_transaction.cpp\<close>)
  and those of system transactions (\<open>monad/validate_system_transaction.cpp\<close>). Every early return is
  a value of \<open>result\<close>; the blob base fee is computed by a loop, so the static checks have the
  outer \<open>option\<close> of \<open>fake_exponential\<close>.
\<close>

section \<open>Static validation\<close>

definition tx_type_supported :: "traits \<Rightarrow> TransactionType \<Rightarrow> bool" where
  "tx_type_supported tr ty =
     (if evm_rev tr < MONAD_ETH_LONDON then ty \<in> {legacy, eip2930}
      else if evm_rev tr < MONAD_ETH_CANCUN then ty \<in> {legacy, eip2930, eip1559}
      else if evm_rev tr < MONAD_ETH_PRAGUE then ty \<in> {legacy, eip2930, eip1559, eip4844}
      else ty \<in> {legacy, eip2930, eip1559, eip4844, eip7702})"

definition VERSIONED_HASH_VERSION_KZG :: bytes32 where
  "VERSIONED_HASH_VERSION_KZG = 1"

text \<open>The last block of the checks, for blob transactions from Cancun on.\<close>

definition validate_blobs ::
  "traits \<Rightarrow> transaction \<Rightarrow> u64 option \<Rightarrow> blob_schedule \<Rightarrow> unit result option" where
  "validate_blobs tr tx excess bsch =
     (if evm_rev tr \<ge> MONAD_ETH_CANCUN \<and> tx_type tx = eip4844 then
        if blob_versioned_hashes tx = [] then Some (Inl (TransactionError InvalidBlobHash))
        else if list_ex (\<lambda>h. drop_bit 248 h \<noteq> VERSIONED_HASH_VERSION_KZG) (blob_versioned_hashes tx)
        then Some (Inl (TransactionError InvalidBlobHash))
        else
          (case get_base_fee_per_blob_gas (value_or excess 0) bsch of
             None \<Rightarrow> None
           | Some fee \<Rightarrow>
               if max_fee_per_blob_gas tx < fee then Some (Inl (TransactionError GasLimitOverflow))
               else Some (Inr ()))
      else Some (Inr ()))"

definition static_validate_transaction ::
  "traits \<Rightarrow> transaction \<Rightarrow> u256 option \<Rightarrow> u64 option \<Rightarrow> u256 \<Rightarrow> blob_schedule \<Rightarrow>
     unit result option" where
  "static_validate_transaction tr tx base_fee excess chain_id bsch =
     (if (case sc_chain_id (tx_sc tx) of Some c \<Rightarrow> c \<noteq> chain_id | None \<Rightarrow> False)
      then Some (Inl (TransactionError WrongChainId))
      else if \<not> eip_4844_active tr \<and> tx_type tx = eip4844
      then Some (Inl (TransactionError TypeNotSupported))
      else if \<not> tx_type_supported tr (tx_type tx) then Some (Inl (TransactionError TypeNotSupported))
      else if max_fee_per_gas tx < value_or base_fee 0
      then Some (Inl (TransactionError MaxFeeLessThanBase))
      else if max_priority_fee_per_gas tx > max_fee_per_gas tx
      then Some (Inl (TransactionError PriorityFeeGreaterThanMax))
      else if evm_rev tr \<ge> MONAD_ETH_SHANGHAI \<and> tx_to tx = None
              \<and> length (tx_data tx) > 2 * max_code_size tr
      then Some (Inl (TransactionError InitCodeLimitExceeded))
      else if intrinsic_gas tr tx > tx_gas_limit tx
      then Some (Inl (TransactionError IntrinsicGasGreaterThanLimit))
      else if evm_rev tr \<ge> MONAD_ETH_PRAGUE \<and> floor_data_gas tr tx > tx_gas_limit tx
      then Some (Inl (TransactionError IntrinsicGasGreaterThanLimit))
      else if evm_rev tr \<ge> MONAD_ETH_PRAGUE \<and> tx_type tx = eip7702 \<and> authorization_list tx = []
      then Some (Inl (TransactionError EmptyAuthorizationList))
      else if tx_nonce tx \<ge> - 1 then Some (Inl (TransactionError NonceExceedsMax))
      else if isl (max_gas_cost (tx_gas_limit tx) (max_fee_per_gas tx))
      then Some (Inl (TransactionError GasLimitOverflow))
      else if \<not> sig_is_valid (signature (tx_sc tx))
      then Some (Inl (TransactionError InvalidSignature))
      else validate_blobs tr tx excess bsch)"

section \<open>Validation against the state\<close>

text \<open>The lambda that computes \<open>v0\<close>.\<close>

definition tx_total_cost :: "transaction \<Rightarrow> u256 result" where
  "tx_total_cost tx =
     Try (max_gas_cost (tx_gas_limit tx) (max_fee_per_gas tx)) (\<lambda>gas_fee.
     Try (checked_add (tx_value tx) gas_fee) (\<lambda>base_cost.
       if tx_type tx = eip4844 then
         Try (checked_mul (ucast (get_total_blob_gas tx)) (max_fee_per_blob_gas tx)) (\<lambda>blob_cost.
           checked_add base_cost blob_cost)
       else Inr base_cost))"

definition validate_ethereum_transaction ::
  "traits \<Rightarrow> transaction \<Rightarrow> address \<Rightarrow> unit result prog" where
  "validate_ethereum_transaction tr tx sender =
     (case tx_total_cost tx of
        Inl _ \<Rightarrow> Ret (Inl (TransactionError InsufficientBalance))
      | Inr v0 \<Rightarrow>
          bindP (state_account_exists sender) (\<lambda>exists.
          if \<not> exists then
            (if tx_nonce tx \<noteq> 0 then Ret (Inl (TransactionError BadNonce))
             else if v0 \<noteq> 0 then Ret (Inl (TransactionError InsufficientBalance))
             else Ret (Inr ()))
          else
            bindP (state_get_code_hash sender) (\<lambda>hash.
            bindP (if evm_rev tr \<ge> MONAD_ETH_PRAGUE
                   then bindP (state_read_code hash) (\<lambda>icode. Ret (hash = NULL_HASH \<or> is_delegated icode))
                   else Ret (hash = NULL_HASH)) (\<lambda>sender_is_eoa.
            if \<not> sender_is_eoa then Ret (Inl (TransactionError SenderNotEoa))
            else
              bindP (state_get_nonce sender) (\<lambda>n.
              if n \<noteq> tx_nonce tx then Ret (Inl (TransactionError BadNonce))
              else
                bindP (state_get_balance sender) (\<lambda>b.
                if b < v0 then Ret (Inl (TransactionError InsufficientBalance))
                else Ret (Inr ())))))))"

definition SYSTEM_SENDER :: address where
  "SYSTEM_SENDER = 0x6f49a8F621353f12378d0046E7d7e4b9B249DC9e"

text \<open>The two instantiations of \<open>validate_transaction\<close>, for EVM and for Monad traits.\<close>

definition validate_transaction ::
  "traits \<Rightarrow> transaction \<Rightarrow> address \<Rightarrow> u256 \<Rightarrow> address option list \<Rightarrow> unit result prog" where
  "validate_transaction tr tx sender base_fee auths =
     bindP (validate_ethereum_transaction tr tx sender) (\<lambda>res.
     if monad_rev_ge tr MONAD_FOUR then
       (if (case res of Inl e \<Rightarrow> e \<noteq> TransactionError InsufficientBalance | Inr _ \<Rightarrow> False)
        then Ret res
        else
          bindP (liftP (gas_price tr tx base_fee)) (\<lambda>price.
          bindP (state_get_balance sender) (\<lambda>b.
          if b < ucast (tx_gas_limit tx) * price
          then Ret (Inl (MonadTransactionError InsufficientBalanceForFee))
          else if Some SYSTEM_SENDER \<in> set auths
          then Ret (Inl (MonadTransactionError SystemTransactionSenderIsAuthority))
          else Ret (Inr ()))))
     else Ret res)"

section \<open>System transactions\<close>

definition static_validate_system_transaction ::
  "traits \<Rightarrow> transaction \<Rightarrow> address \<Rightarrow> unit result" where
  "static_validate_system_transaction tr tx sender =
     (if \<not> monad_rev_ge tr MONAD_FOUR then Inl (SystemTransactionError SystemTxnBeforeFork)
      else if sender \<noteq> SYSTEM_SENDER then Inl (SystemTransactionError BadSender)
      else if tx_type tx \<noteq> legacy then Inl (SystemTransactionError TypeNotLegacy)
      else if tx_to tx = None then Inl (SystemTransactionError MissingTo)
      else if tx_to tx \<noteq> Some STAKING_CA then Inl (SystemTransactionError InvalidSystemContract)
      else if tx_gas_limit tx \<noteq> 0 then Inl (SystemTransactionError GasNonZero)
      else if max_fee_per_gas tx \<noteq> 0 then Inl (SystemTransactionError GasNonZero)
      else if max_priority_fee_per_gas tx \<noteq> 0 then Inl (SystemTransactionError GasNonZero)
      else if authorization_list tx \<noteq> []
      then Inl (SystemTransactionError NonEmptyAuthorizationList)
      else Inr ())"

definition validate_system_transaction :: "transaction \<Rightarrow> address \<Rightarrow> unit result prog" where
  "validate_system_transaction tx sender =
     bindP (state_account_exists sender) (\<lambda>exists.
     if \<not> exists then
       (if tx_nonce tx \<noteq> 0 then Ret (Inl (TransactionError BadNonce)) else Ret (Inr ()))
     else
       bindP (state_get_nonce sender) (\<lambda>n.
       if n \<noteq> tx_nonce tx then Ret (Inl (TransactionError BadNonce)) else Ret (Inr ())))"

section \<open>Validation as a transformer of the state\<close>

lemma run_validate_ethereum_transaction:
  "run kec (validate_ethereum_transaction tr tx sender) =
     (case tx_total_cost tx of
        Inl _ \<Rightarrow> returnS (Inl (TransactionError InsufficientBalance))
      | Inr v0 \<Rightarrow>
          bindS (account_exists sender) (\<lambda>exists.
          if \<not> exists then
            (if tx_nonce tx \<noteq> 0 then returnS (Inl (TransactionError BadNonce))
             else if v0 \<noteq> 0 then returnS (Inl (TransactionError InsufficientBalance))
             else returnS (Inr ()))
          else
            bindS (get_code_hash sender) (\<lambda>hash.
            bindS (if evm_rev tr \<ge> MONAD_ETH_PRAGUE
                   then bindS (read_code hash) (\<lambda>icode. returnS (hash = NULL_HASH \<or> is_delegated icode))
                   else returnS (hash = NULL_HASH)) (\<lambda>sender_is_eoa.
            if \<not> sender_is_eoa then returnS (Inl (TransactionError SenderNotEoa))
            else
              bindS (get_nonce sender) (\<lambda>n.
              if n \<noteq> tx_nonce tx then returnS (Inl (TransactionError BadNonce))
              else
                bindS (get_balance sender) (\<lambda>b.
                if b < v0 then returnS (Inl (TransactionError InsufficientBalance))
                else returnS (Inr ())))))))"
  by (simp only: validate_ethereum_transaction_def run_prog)

lemma run_validate_transaction:
  "run kec (validate_transaction tr tx sender base_fee auths) =
     bindS (run kec (validate_ethereum_transaction tr tx sender)) (\<lambda>res.
     if monad_rev_ge tr MONAD_FOUR then
       (if (case res of Inl e \<Rightarrow> e \<noteq> TransactionError InsufficientBalance | Inr _ \<Rightarrow> False)
        then returnS res
        else
          bindS (liftS (gas_price tr tx base_fee)) (\<lambda>price.
          bindS (get_balance sender) (\<lambda>b.
          if b < ucast (tx_gas_limit tx) * price
          then returnS (Inl (MonadTransactionError InsufficientBalanceForFee))
          else if Some SYSTEM_SENDER \<in> set auths
          then returnS (Inl (MonadTransactionError SystemTransactionSenderIsAuthority))
          else returnS (Inr ()))))
     else returnS res)"
  by (simp only: validate_transaction_def run_prog)

section \<open>What static validation establishes\<close>

lemma max_gas_cost_exact:
  "max_gas_cost g fee = (if unat g * unat fee < 2 ^ 256 then Inr (ucast g * fee) else Inl (MathError Overflow))"
  unfolding max_gas_cost_def checked_mul_exact by (simp add: unat_ucast_up)

lemma gas_cost_no_overflow:
  assumes "unat g * unat fee < 2 ^ 256" "p \<le> fee"
  shows "unat ((ucast (g :: u64) :: u256) * p) = unat g * unat p"
proof -
  have "unat p \<le> unat fee" using assms(2) by (simp add: word_le_nat_alt)
  from le_less_trans[OF mult_le_mono2[OF this] assms(1)]
  have "unat (ucast g :: u256) * unat p < 2 ^ LENGTH(256)" by (simp add: unat_ucast_up)
  from unat_mult_no_overflow[OF this] show ?thesis by (simp add: unat_ucast_up)
qed





definition example_tx :: transaction where
  "example_tx = \<lparr>tx_sc = \<lparr>signature = \<lparr>sig_r = 1, sig_s = 1, y_parity = 0\<rparr>, sc_chain_id = None\<rparr>,
     tx_nonce = 3, max_fee_per_gas = 10, tx_gas_limit = 21000, tx_value = 5, tx_to = Some 9,
     tx_type = legacy, tx_data = [], access_list = [], max_priority_fee_per_gas = 2,
     max_fee_per_blob_gas = 0, blob_versioned_hashes = [], authorization_list = []\<rparr>"

lemmas static_eval =
  static_validate_transaction_def tx_type_supported_def intrinsic_gas_def g_data_def
  tokens_in_calldata_def g_txn_create_def g_access_and_storage_def g_extra_cost_init_def
  g_authorization_def g_access_list_data_def floor_data_gas_def max_gas_cost_exact
  sig_is_valid_def has_valid_range_def has_upper_s_def secp256k1_order_half_def secp256k1_order_def
  validate_blobs_def value_or_def MonadTraits_def MonadTraits_evm_rev_def Let_def

lemma example_tx_static:
  "static_validate_transaction (MonadTraits MONAD_FOUR) (example_tx\<lparr>tx_value := v\<rparr>) (Some 7) None 1
     MONAD_BLOB_SCHEDULE = Some (Inr ())"
  by (simp add: static_eval example_tx_def) (simp add: word_le_nat_alt unat_max_word)


section \<open>What validation against the state establishes\<close>

text \<open>The exact cost of a transaction and who counts as externally owned.\<close>

definition exact_cost :: "transaction \<Rightarrow> nat" where
  "exact_cost tx = unat (tx_value tx) + unat (tx_gas_limit tx) * unat (max_fee_per_gas tx) +
     (if tx_type tx = eip4844 then unat (get_total_blob_gas tx) * unat (max_fee_per_blob_gas tx) else 0)"

lemma tx_total_cost_exact:
  "tx_total_cost tx = Inr v0 \<Longrightarrow> unat v0 = exact_cost tx"
  "exact_cost tx < 2 ^ 256 \<Longrightarrow> \<exists>v0. tx_total_cost tx = Inr v0"
proof -
  let ?g = "unat (tx_gas_limit tx) * unat (max_fee_per_gas tx)"
  let ?b = "unat (get_total_blob_gas tx) * unat (max_fee_per_blob_gas tx)"
  let ?blob = "(ucast (get_total_blob_gas tx) :: u256) * max_fee_per_blob_gas tx"
  let ?gas = "(ucast (tx_gas_limit tx) :: u256) * max_fee_per_gas tx"
  have g: "unat ?gas = ?g" if "?g < 2 ^ 256"
    by (rule gas_cost_no_overflow[OF that]) simp
  have b: "unat ?blob = ?b" if "?b < 2 ^ 256"
    by (rule gas_cost_no_overflow[OF that]) simp
  have plus: "unat (x + y) = unat x + unat y" if "unat x + unat y < 2 ^ 256" for x y :: u256
    by (rule unat_add_no_overflow) (use that in simp)
  show "tx_total_cost tx = Inr v0 \<Longrightarrow> unat v0 = exact_cost tx"
    using g b
    by (auto simp: tx_total_cost_def max_gas_cost_exact checked_add_exact checked_mul_exact plus
        exact_cost_def unat_ucast_up split: if_splits)
  show "\<exists>v0. tx_total_cost tx = Inr v0" if "exact_cost tx < 2 ^ 256"
  proof -
    have g2: "?g < 2 ^ 256" and v: "unat (tx_value tx) + ?g < 2 ^ 256"
      using that by (simp_all add: exact_cost_def)
    have b2: "?b < 2 ^ 256" "unat (tx_value tx) + ?g + ?b < 2 ^ 256" if "tx_type tx = eip4844"
      using \<open>exact_cost tx < 2 ^ 256\<close> that by (simp_all add: exact_cost_def)
    show ?thesis
      using g2 v b2 g b
      by (auto simp: tx_total_cost_def max_gas_cost_exact checked_add_exact checked_mul_exact plus
          unat_ucast_up)
  qed
qed

text \<open>
  The checks of \<open>validate_ethereum_transaction\<close> that concern who sends: the nonce is the account's
  and the account is externally owned, which from Prague on includes delegated accounts.
\<close>

definition sender_ok :: "traits \<Rightarrow> transaction \<Rightarrow> address \<Rightarrow> tx_state \<Rightarrow> bool" where
  "sender_ok tr tx sender s \<longleftrightarrow>
     account_nonce (st_account s sender) = tx_nonce tx \<and>
     (account_code_hash (st_account s sender) = NULL_HASH \<or>
      evm_rev tr \<ge> MONAD_ETH_PRAGUE \<and>
      (\<exists>c. st_code_at s (account_code_hash (st_account s sender)) = Some c \<and> is_delegated c))"

lemma same_accounts_validate_ethereum: "keeps same_accounts (run kec (validate_ethereum_transaction tr tx sender))"
  unfolding run_validate_ethereum_transaction
  by (cases "tx_total_cost tx") (auto intro!: sac.keeps_rules sac.keeps_reads)

lemma validate_ethereum_ok:
  assumes run: "run kec (validate_ethereum_transaction tr tx sender) s = Inr (res, t)" and ok: "frames_ok s"
    and cost: "exact_cost tx < 2 ^ 256"
  shows "res = Inr () \<Longrightarrow> sender_ok tr tx sender s \<and> exact_cost tx \<le> bal s sender"
    and "res = Inl (TransactionError InsufficientBalance) \<Longrightarrow>
      sender_ok tr tx sender s \<and> bal s sender < exact_cost tx"
proof -
  obtain v0 where v0: "tx_total_cost tx = Inr v0" "unat v0 = exact_cost tx"
    using tx_total_cost_exact cost by blast
  have pos: "v0 \<noteq> 0 \<longleftrightarrow> 0 < exact_cost tx" unfolding v0(2)[symmetric] by (simp add: unat_gt_0)
  obtain ex s1 where s1: "account_exists sender s = Inr (ex, s1)"
    using run v0(1) by (auto simp: run_validate_ethereum_transaction bindS_eq_Inr)
  have ex: "ex = (st_account s sender \<noteq> None)" by (rule account_exists_value[OF s1])
  have a1: "frames_ok s1" "st_account s1 = st_account s"
    using keepsD[OF sac.keeps_account_exists s1] ok by (auto simp: same_accounts_def)
  have "(res = Inr () \<longrightarrow> sender_ok tr tx sender s \<and> exact_cost tx \<le> bal s sender) \<and>
    (res = Inl (TransactionError InsufficientBalance) \<longrightarrow>
      sender_ok tr tx sender s \<and> bal s sender < exact_cost tx)"
  proof (cases ex)
    case False
    then have "st_account s sender = None" using ex by simp
    then show ?thesis
      using run v0 s1 False pos
      by (auto simp: run_validate_ethereum_transaction sm_simps sender_ok_def account_nonce_def
          account_code_hash_def bal_def account_balance_def unat_gt_0 split: if_splits)
  next
    case True
    obtain h s2 where s2: "get_code_hash sender s1 = Inr (h, s2)"
      using run v0(1) s1 True by (auto simp: run_validate_ethereum_transaction bindS_eq_Inr)
    have h: "h = account_code_hash (st_account s sender)" using get_code_hash_value[OF s2] a1 by simp
    have a2: "frames_ok s2" "st_account s2 = st_account s"
      using keepsD[OF sac.keeps_get_code_hash s2] a1 by (auto simp: same_accounts_def)
    have c2: "st_code_at s2 = st_code_at s"
      using keepsD[OF sco.keeps_account_exists s1] keepsD[OF sco.keeps_get_code_hash s2]
      by (simp add: same_code_def)
    let ?eoa = "if evm_rev tr \<ge> MONAD_ETH_PRAGUE
        then bindS (read_code h) (\<lambda>icode. returnS (h = NULL_HASH \<or> is_delegated icode))
        else returnS (h = NULL_HASH)"
    obtain eoa s3 where s3: "?eoa s2 = Inr (eoa, s3)"
      using run v0(1) s1 s2 True by (auto simp: run_validate_ethereum_transaction bindS_eq_Inr)
    have "keeps same_accounts ?eoa" by (intro sac.keeps_rules sac.keeps_reads)
    from keepsD[OF this s3] have a3: "frames_ok s3" "st_account s3 = st_account s"
      using a2 by (auto simp: same_accounts_def)
    have eoa: "eoa \<Longrightarrow> h = NULL_HASH \<or> evm_rev tr \<ge> MONAD_ETH_PRAGUE \<and>
        (\<exists>c. st_code_at s h = Some c \<and> is_delegated c)"
      using s3 c2 read_code_value by (fastforce simp: bindS_eq_Inr returnS_def split: if_splits)
    have rest: "(if \<not> eoa then returnS (Inl (TransactionError SenderNotEoa))
        else bindS (get_nonce sender) (\<lambda>n.
              if n \<noteq> tx_nonce tx then returnS (Inl (TransactionError BadNonce))
              else
                bindS (get_balance sender) (\<lambda>b.
                if b < v0 then returnS (Inl (TransactionError InsufficientBalance))
                else returnS (Inr ())))) s3 = Inr (res, t)"
      using run v0(1) s1 s2 s3 True by (simp add: run_validate_ethereum_transaction bindS_run)
    show ?thesis
    proof (cases eoa)
      case True
      then obtain n s4 where s4: "get_nonce sender s3 = Inr (n, s4)"
        using rest by (auto simp: bindS_eq_Inr)
      have n: "n = account_nonce (st_account s sender)" using get_nonce_value[OF s4] a3 by simp
      have a4: "st_account s4 = st_account s"
        using keepsD[OF sac.keeps_get_nonce s4] a3 by (auto simp: same_accounts_def)
      have b: "b = account_balance (st_account s sender)" if "get_balance sender s4 = Inr (b, s5)" for b s5
        using get_balance_value[OF that] a4 by simp
      show ?thesis
        using rest s4 n b eoa[OF True] h True v0(2)
        by (auto simp: bindS_eq_Inr returnS_def sender_ok_def bal_def word_less_nat_alt split: if_splits)
    qed (use rest in \<open>auto simp: returnS_def\<close>)
  qed
  then show "res = Inr () \<Longrightarrow> sender_ok tr tx sender s \<and> exact_cost tx \<le> bal s sender"
    and "res = Inl (TransactionError InsufficientBalance) \<Longrightarrow>
      sender_ok tr tx sender s \<and> bal s sender < exact_cost tx"
    by blast+
qed

text \<open>
  C6: soundness of validation against the state, for a transaction whose total cost fits into 256
  bits. If it is accepted, the nonce is the sender's, the sender is externally owned and no account
  has changed; before the reserve-balance fork the sender can pay the total cost, from then on at
  least the gas.
\<close>

theorem validate_transaction_sound:
  assumes run: "run kec (validate_transaction tr tx sender base_fee auths) s = Inr (Inr (), t)"
    and ok: "frames_ok s" and cost: "exact_cost tx < 2 ^ 256"
  shows "sender_ok tr tx sender s \<and> st_account t = st_account s \<and>
    (if monad_rev_ge tr MONAD_FOUR
     then \<exists>p. gas_price tr tx base_fee = Inr p \<and>
       ucast (tx_gas_limit tx) * p \<le> account_balance (st_account s sender)
     else exact_cost tx \<le> bal s sender)"
proof -
  obtain res u where u: "run kec (validate_ethereum_transaction tr tx sender) s = Inr (res, u)"
    using run by (auto simp: run_validate_transaction bindS_eq_Inr)
  have a: "frames_ok u" "st_account u = st_account s"
    using keepsD[OF same_accounts_validate_ethereum u] ok by (auto simp: same_accounts_def)
  note eth = validate_ethereum_ok[OF u ok cost]
  show ?thesis
  proof (cases "monad_rev_ge tr MONAD_FOUR")
    case False
    then show ?thesis using run u a eth(1) by (auto simp: run_validate_transaction sm_simps)
  next
    case True
    then have res: "res = Inr () \<or> res = Inl (TransactionError InsufficientBalance)"
      using run u by (auto simp: run_validate_transaction sm_simps split: sum.splits if_splits)
    then obtain p b where p: "gas_price tr tx base_fee = Inr p" "get_balance sender u = Inr (b, t)"
      "\<not> b < ucast (tx_gas_limit tx) * p"
      using run u True by (auto simp: run_validate_transaction sm_simps split: if_splits)
    have "b = account_balance (st_account s sender)" using get_balance_value[OF p(2)] a by simp
    moreover have "st_account t = st_account s"
      using keepsD[OF sac.keeps_get_balance p(2)] a by (simp add: same_accounts_def)
    ultimately show ?thesis using True p res eth by auto
  qed
qed

text \<open>
  An account that can pay, and a state that holds it.
\<close>

definition rich_db :: "u64 \<Rightarrow> db" where
  "rich_db n = \<lparr>db_read_account = (\<lambda>a. if a = 7 then Some (default_account\<lparr>balance := 1000000, nonce := n\<rparr>)
       else None),
     db_read_storage = (\<lambda>_ _ _. 0), db_read_code = (\<lambda>h. if h = NULL_HASH then Some [] else None)\<rparr>"

definition rich_state :: "u64 \<Rightarrow> tx_state" where
  "rich_state n = State (BlockState (rich_db n) [] None) (Incarnation 1 2) False"

lemmas validate_eval =
  run_validate_transaction run_validate_ethereum_transaction account_exists_def get_code_hash_def
  get_nonce_def get_balance_def recent_account_def recent_account_state_def read_code_def
  original_account_state_def find_original_def find_current_def lift_bs_def lift_bs_res_def
  emplace_original_def modify_original_def set_validate_exact_balance_def bs_read_code_def
  find_varcode_def try_insert_varcode_def read_account_def rich_state_def rich_db_def State_def
  BlockState_def OriginalAccountState_def AccountState_def account_state.defs
  original_account_state.defs default_account_def new_account_def Let_def sm_simps tx_total_cost_def
  max_gas_cost_exact checked_add_exact gas_price_def priority_fee_per_gas_def monad_rev_ge_def
  MonadTraits_def MonadTraits_evm_rev_def

lemma frames_ok_rich: "frames_ok (rich_state n)"
  unfolding rich_state_def by (rule frames_ok_State)

lemma rich_state_validates:
  "\<exists>t. run (\<lambda>_. 0) (validate_transaction (MonadTraits MONAD_FOUR) example_tx 7 7 []) (rich_state 3) = Inr (Inr (), t)"
  by (simp add: validate_eval example_tx_def del: Try_eq_Inr)

theorem validate_transaction_sound_witness:
  "(\<exists>t. run (\<lambda>_. 0) (validate_transaction (MonadTraits MONAD_FOUR) example_tx 7 7 []) (rich_state 3) = Inr (Inr (), t)) \<and>
   sender_ok (MonadTraits MONAD_FOUR) example_tx 7 (rich_state 3)"
proof -
  obtain t where t: "run (\<lambda>_. 0) (validate_transaction (MonadTraits MONAD_FOUR) example_tx 7 7 []) (rich_state 3) =
      Inr (Inr (), t)"
    using rich_state_validates by blast
  have "exact_cost example_tx < 2 ^ 256" by (simp add: exact_cost_def example_tx_def)
  from validate_transaction_sound[OF t frames_ok_rich this] t show ?thesis by blast
qed

text \<open>
  C7: the early exit of \<open>validate_ethereum_transaction\<close> on an overflowing total cost skips the checks
  of the sender, and the Monad instantiation tolerates exactly the error it returns. From the
  reserve-balance fork on, a transaction whose value and fee together exceed 256 bits is accepted
  whatever its nonce and whatever code the sender has, if the sender can pay the gas.
\<close>

theorem overflowing_cost_skips_nonce_check:
  assumes "monad_rev_ge tr MONAD_FOUR" and "exact_cost tx \<ge> 2 ^ 256"
    and "gas_price tr tx base_fee = Inr p" and "frames_ok s"
    and "ucast (tx_gas_limit tx) * p \<le> account_balance (st_account s sender)"
    and "Some SYSTEM_SENDER \<notin> set auths"
  shows "\<exists>t. run kec (validate_transaction tr tx sender base_fee auths) s = Inr (Inr (), t)"
proof -
  obtain e where e: "tx_total_cost tx = Inl e"
  proof (cases "tx_total_cost tx")
    case (Inr v0)
    have "exact_cost tx < 2 ^ LENGTH(256)"
      unfolding tx_total_cost_exact(1)[OF Inr, symmetric] by (rule unsigned_less)
    then show thesis using assms(2) by simp
  qed
  obtain u where u: "recent_account sender s = Inr (st_account s sender, u)"
    using recent_account_total[OF assms(4)] by blast
  obtain o1 v where v: "original_account_state sender u = Inr (o1, v)"
    using original_account_total by blast
  have "get_balance sender s = Inr (account_balance (st_account s sender),
      snd (projr (modify_original sender set_validate_exact_balance v)))"
    using u v by (simp add: get_balance_def sm_simps account_balance_def modify_original_def)
  then show ?thesis
    using assms e by (simp add: run_validate_transaction run_validate_ethereum_transaction sm_simps)
qed

theorem overflowing_cost_skips_nonce_check_witness:
  "let tx = example_tx\<lparr>tx_value := - 1\<rparr> in
     static_validate_transaction (MonadTraits MONAD_FOUR) tx (Some 7) None 1 MONAD_BLOB_SCHEDULE
       = Some (Inr ()) \<and>
     account_nonce (st_account (rich_state 100) 7) \<noteq> tx_nonce tx \<and>
     (\<exists>t. run (\<lambda>_. 0) (validate_transaction (MonadTraits MONAD_FOUR) tx 7 7 []) (rich_state 100) = Inr (Inr (), t))"
proof -
  let ?tx = "example_tx\<lparr>tx_value := - 1\<rparr>"
  have acct: "st_account (rich_state 100) 7 = Some (default_account\<lparr>balance := 1000000, nonce := 100\<rparr>)"
    by (simp add: rich_state_def rich_db_def st_account_def base_account_def bs_account_def State_def
        BlockState_def)
  have "\<exists>t. run (\<lambda>_. 0) (validate_transaction (MonadTraits MONAD_FOUR) ?tx 7 7 []) (rich_state 100) = Inr (Inr (), t)"
  proof (rule overflowing_cost_skips_nonce_check)
    show "frames_ok (rich_state 100)" by (rule frames_ok_rich)
    show "exact_cost ?tx \<ge> 2 ^ 256"
      by (simp add: exact_cost_def example_tx_def unat_max_word)
    show "gas_price (MonadTraits MONAD_FOUR) ?tx 7 = Inr 10"
      by (simp add: gas_price_def priority_fee_per_gas_def MonadTraits_def MonadTraits_evm_rev_def
          example_tx_def Let_def)
    show "ucast (tx_gas_limit ?tx) * 10 \<le> account_balance (st_account (rich_state 100) 7)"
      by (simp add: acct account_balance_def example_tx_def)
  qed (simp_all add: monad_rev_ge_def MonadTraits_def Let_def)
  moreover have "account_nonce (st_account (rich_state 100) 7) \<noteq> tx_nonce ?tx"
    by (simp add: acct account_nonce_def example_tx_def)
  ultimately show ?thesis using example_tx_static by (simp add: Let_def)
qed

end
