(* ===== verification/Rlp_Core.thy ===== *)
theory Rlp_Core
  imports Core_Types
begin

text \<open>
  Recursive length prefix encoding: \<open>category/execution/ethereum/rlp/encode2.hpp\<close>, \<open>decode.hpp\<close>,
  and the integer codec \<open>core/rlp/int_rlp.hpp\<close>. A \<open>byte_string_view\<close> that a decoder advances is the byte list it
  still has to read, returned next to the result. \<open>size_t\<close> values are natural numbers, with the
  places where the code narrows or may wrap written out.
\<close>

section \<open>Failure of a decoder\<close>

datatype decode_error =
    TypeUnexpected | DecodeOverflow | InputTooLong | InputTooShort | ArrayLengthUnexpected
  | InvalidTxnType | LeadingZero | PathTooShort | PathTooLong | NonCanonical

text \<open>An error value, or a failed \<open>MONAD_ASSERT\<close>.\<close>

datatype rlp_fail = DecodeError decode_error | RlpAbort

type_synonym 'a decoder = "bytes \<Rightarrow> rlp_fail + 'a \<times> bytes"

section \<open>Big-endian numbers\<close>

primrec be_bytes :: "nat \<Rightarrow> nat \<Rightarrow> bytes" where
  "be_bytes 0 n = []"
| "be_bytes (Suc k) n = be_bytes k (n div 256) @ [of_nat (n mod 256)]"

definition be_value :: "bytes \<Rightarrow> nat" where
  "be_value bs = foldl (\<lambda>acc b. acc * 256 + unat b) 0 bs"

definition zeroless_view :: "bytes \<Rightarrow> bytes" where
  "zeroless_view bs = dropWhile (\<lambda>b. b = 0) bs"

text \<open>\<open>sizeof(n)\<close> is the width of the word in bytes.\<close>

definition to_big_compact :: "'a::len word \<Rightarrow> bytes" where
  "to_big_compact w = zeroless_view (be_bytes (LENGTH('a) div 8) (unat w))"

section \<open>Encoding\<close>

text \<open>
  \<open>encode_string2\<close> narrows the size to 32 bits. The assertions \<open>size_str.size() <= 8u\<close> of both
  encoders hold by the width of the size (\<open>length_to_big_compact\<close>).
\<close>

definition encode_string2 :: "bytes \<Rightarrow> bytes" where
  "encode_string2 s =
     (let size = of_nat (length s) :: u32 in
      if size = 1 \<and> hd s \<le> 0x7f then s
      else if size > 55 then
        (let size_str = to_big_compact size
         in [0xb7 + of_nat (length size_str)] @ size_str @ s)
      else [0x80 + ucast size] @ s)"

definition encode_list2 :: "bytes list \<Rightarrow> bytes" where
  "encode_list2 args =
     (let size = of_nat (sum_list (map length args)) :: u64 in
      (if size > 55 then
         (let size_str = to_big_compact size
          in [0xf7 + of_nat (length size_str)] @ size_str)
       else [0xc0 + ucast size]) @ concat args)"

definition encode_unsigned :: "'a::len word \<Rightarrow> bytes" where
  "encode_unsigned n = encode_string2 (to_big_compact n)"

section \<open>Decoding\<close>

definition decode_raw_num :: "bytes \<Rightarrow> rlp_fail + 'a::len word" where
  "decode_raw_num enc =
     (if length enc > LENGTH('a) div 8 then Inl (DecodeError DecodeOverflow)
      else if enc = [] then Inr 0
      else if hd enc = 0 then Inl (DecodeError LeadingZero)
      else Inr (of_nat (be_value enc)))"

definition decode_length :: "bytes \<Rightarrow> rlp_fail + nat" where
  "decode_length enc = Try (decode_raw_num enc) (\<lambda>n. Inr (unat (n :: u64)))"

text \<open>
  \<open>i + length\<close> is computed in 64 bits; \<open>end < i\<close> detects the wrap. \<open>keep\<close> is the option
  \<open>KeepRlpHeader\<close>.
\<close>

definition extract_payload :: "bool \<Rightarrow> bytes \<Rightarrow> nat \<Rightarrow> nat \<Rightarrow> rlp_fail + bytes \<times> bytes" where
  "extract_payload keep enc i len =
     (let e = (i + len) mod 2 ^ 64 in
      if e > length enc \<or> e < i then Inl (DecodeError InputTooShort)
      else Inr (if keep then take e enc else take len (drop i enc), drop e enc))"

text \<open>The common part of the long forms: the length after the header byte.\<close>

definition parse_long_length :: "bytes \<Rightarrow> nat \<Rightarrow> rlp_fail + nat" where
  "parse_long_length enc length_of_length =
     (if 1 + length_of_length \<ge> length enc then Inl (DecodeError InputTooShort)
      else
        Try (decode_length (take length_of_length (drop 1 enc))) (\<lambda>len.
          if len < 56 then Inl (DecodeError TypeUnexpected) else Inr len))"

definition detail_parse_string_metadata :: "bytes decoder" where
  "detail_parse_string_metadata enc =
     (if hd enc < 0x80 then extract_payload False enc 0 1
      else if hd enc < 0xb8 then
        (let len = unat (hd enc - 0x80) in
         if len = 1 \<and> length enc < 2 then Inl (DecodeError InputTooShort)
         else if len = 1 \<and> enc ! 1 < 0x80 then Inl (DecodeError TypeUnexpected)
         else extract_payload False enc 1 len)
      else
        (let length_of_length = unat (hd enc - 0xb7) in
         Try (parse_long_length enc length_of_length) (\<lambda>len.
           extract_payload False enc (1 + length_of_length) len)))"

definition detail_parse_list_metadata :: "bool \<Rightarrow> bytes decoder" where
  "detail_parse_list_metadata keep enc =
     (if hd enc < 0xf8 then extract_payload keep enc 1 (unat (hd enc - 0xc0))
      else
        (let length_of_length = unat (hd enc - 0xf7) in
         Try (parse_long_length enc length_of_length) (\<lambda>len.
           extract_payload keep enc (1 + length_of_length) len)))"

definition parse_string_metadata :: "bytes decoder" where
  "parse_string_metadata enc =
     (if enc = [] then Inl (DecodeError InputTooShort)
      else if hd enc \<ge> 0xc0 then Inl (DecodeError TypeUnexpected)
      else detail_parse_string_metadata enc)"

definition parse_list_metadata :: "bytes decoder" where
  "parse_list_metadata enc =
     (if enc = [] then Inl (DecodeError InputTooShort)
      else if hd enc < 0xc0 then Inl (DecodeError TypeUnexpected)
      else detail_parse_list_metadata False enc)"

definition parse_list_metadata_raw :: "bytes decoder" where
  "parse_list_metadata_raw enc =
     (if enc = [] then Inl (DecodeError InputTooShort)
      else if hd enc < 0xc0 then Inl (DecodeError TypeUnexpected)
      else detail_parse_list_metadata True enc)"

datatype RlpType = RlpString | RlpList

definition parse_metadata :: "(RlpType \<times> bytes) decoder" where
  "parse_metadata enc =
     (if enc = [] then Inl (DecodeError InputTooShort)
      else if hd enc < 0xc0
      then Try (detail_parse_string_metadata enc) (\<lambda>(p, r). Inr ((RlpString, p), r))
      else Try (detail_parse_list_metadata False enc) (\<lambda>(p, r). Inr ((RlpList, p), r)))"

definition decode_string :: "bytes decoder" where
  "decode_string enc = parse_string_metadata enc"

definition decode_byte_string_fixed :: "nat \<Rightarrow> bytes decoder" where
  "decode_byte_string_fixed N enc =
     Try (parse_string_metadata enc) (\<lambda>(payload, rest).
       if length payload \<noteq> N then Inl (DecodeError ArrayLengthUnexpected) else Inr (payload, rest))"

definition decode_unsigned :: "'a::len word decoder" where
  "decode_unsigned enc =
     Try (parse_string_metadata enc) (\<lambda>(payload, rest).
     Try (decode_raw_num payload) (\<lambda>n. Inr (n, rest)))"

definition decode_bool :: "bool decoder" where
  "decode_bool enc =
     Try (decode_unsigned enc) (\<lambda>(i, rest).
       if (i :: u64) > 1 then Inl (DecodeError DecodeOverflow) else Inr (i \<noteq> 0, rest))"

section \<open>Numbers in bytes\<close>

lemma length_be_bytes [simp]: "length (be_bytes k n) = k"
  by (induction k arbitrary: n) simp_all

lemma be_value_Nil [simp]: "be_value [] = 0"
  by (simp add: be_value_def)

lemma be_value_snoc [simp]: "be_value (bs @ [b]) = be_value bs * 256 + unat b"
  by (simp add: be_value_def)

lemma unat_byte: "unat (b :: u8) < 256"
  using unsigned_less[of b, where ?'a = nat] by simp

lemma be_value_bound: "be_value bs < 256 ^ length bs"
proof (induction bs rule: rev_induct)
  case (snoc b bs)
  then have "be_value bs * 256 + unat b < (be_value bs + 1) * 256" "be_value bs + 1 \<le> 256 ^ length bs"
    using unat_byte[of b] by simp_all
  then have "be_value bs * 256 + unat b < 256 ^ length bs * 256"
    using mult_le_mono1[of "be_value bs + 1" "256 ^ length bs" 256] by linarith
  then show ?case by simp
qed simp

lemma be_value_be_bytes: "n < 256 ^ k \<Longrightarrow> be_value (be_bytes k n) = n"
proof (induction k arbitrary: n)
  case (Suc k)
  then have "n div 256 < 256 ^ k" by (simp add: less_mult_imp_div_less mult.commute)
  moreover have "unat (of_nat (n mod 256) :: u8) = n mod 256" by (simp add: unat_of_nat)
  ultimately show ?case using Suc.IH by simp
qed simp

lemma be_bytes_pad: "be_bytes (m + length bs) (be_value bs) = replicate m 0 @ bs"
proof (induction bs rule: rev_induct)
  case Nil
  show ?case by (induction m) (simp_all add: replicate_append_same)
next
  case (snoc b bs)
  have "(be_value bs * 256 + unat b) div 256 = be_value bs"
    "(be_value bs * 256 + unat b) mod 256 = unat b"
    using unat_byte[of b] by simp_all
  then show ?case using snoc by simp
qed

lemma be_bytes_be_value: "length b = k \<Longrightarrow> be_bytes k (be_value b) = b"
  using be_bytes_pad[of 0 b] by simp

lemma be_value_zeroless [simp]: "be_value (zeroless_view bs) = be_value bs"
proof (induction bs)
  case (Cons b bs)
  have "be_value (0 # bs) = be_value bs" by (simp add: be_value_def)
  then show ?case using Cons by (simp add: zeroless_view_def)
qed (simp add: zeroless_view_def)

lemma zeroless_pad: "bs = [] \<or> hd bs \<noteq> 0 \<Longrightarrow> zeroless_view (replicate m 0 @ bs) = bs"
  by (induction m) (cases bs; simp add: zeroless_view_def)+

lemma zeroless_hd: "zeroless_view bs \<noteq> [] \<Longrightarrow> hd (zeroless_view bs) \<noteq> 0"
  unfolding zeroless_view_def using hd_dropWhile by blast

lemma length_zeroless: "length (zeroless_view bs) \<le> length bs"
  by (simp add: zeroless_view_def length_dropWhile_le)

text \<open>The words of the code have a whole number of bytes.\<close>

lemma length_to_big_compact: "length (to_big_compact (w :: 'a::len word)) \<le> LENGTH('a) div 8"
  using length_zeroless[of "be_bytes (LENGTH('a) div 8) (unat w)"] by (simp add: to_big_compact_def)

lemma byte_power: "8 dvd k \<Longrightarrow> (256 :: nat) ^ (k div 8) = 2 ^ k"
  using power_mult[of "2 :: nat" 8 "k div 8"] by simp

lemma be_value_to_big_compact:
  assumes "8 dvd LENGTH('a)"
  shows "be_value (to_big_compact (w :: 'a::len word)) = unat w"
proof -
  have "unat w < 256 ^ (LENGTH('a) div 8)" unfolding byte_power[OF assms] by (rule unsigned_less)
  then show ?thesis by (simp add: to_big_compact_def be_value_be_bytes)
qed

lemma to_big_compact_hd: "to_big_compact w \<noteq> [] \<Longrightarrow> hd (to_big_compact w) \<noteq> 0"
  unfolding to_big_compact_def by (rule zeroless_hd)

lemma to_big_compact_unique:
  assumes "length bs \<le> LENGTH('a) div 8" "bs = [] \<or> hd bs \<noteq> 0" "be_value bs = unat (w :: 'a::len word)"
  shows "to_big_compact w = bs"
proof -
  have "be_bytes (LENGTH('a) div 8 - length bs + length bs) (be_value bs) =
      replicate (LENGTH('a) div 8 - length bs) 0 @ bs"
    by (rule be_bytes_pad)
  then show ?thesis
    using assms zeroless_pad[OF assms(2)] by (simp add: to_big_compact_def)
qed

lemma to_big_compact_Nil:
  assumes "8 dvd LENGTH('a)"
  shows "to_big_compact (w :: 'a::len word) = [] \<longleftrightarrow> w = 0"
proof
  assume "to_big_compact w = []"
  then have "unat w = 0" using be_value_to_big_compact[OF assms, of w] by simp
  then show "w = 0" by (simp only: unsigned_eq_0_iff)
next
  assume "w = 0"
  then show "to_big_compact w = []" by (intro to_big_compact_unique) simp_all
qed

lemma decode_raw_num_exact:
  assumes "8 dvd LENGTH('a)"
  shows "decode_raw_num bs = Inr (w :: 'a::len word) \<longleftrightarrow> bs = to_big_compact w"
proof
  assume r: "decode_raw_num bs = Inr w"
  show "bs = to_big_compact w"
  proof (cases "bs = []")
    case True
    then show ?thesis using r to_big_compact_Nil[OF assms, of w] by (auto simp: decode_raw_num_def)
  next
    case False
    then have l: "length bs \<le> LENGTH('a) div 8" and h: "hd bs \<noteq> 0" and w: "w = of_nat (be_value bs)"
      using r by (auto simp: decode_raw_num_def split: if_splits)
    have "be_value bs < 256 ^ (LENGTH('a) div 8)"
      by (rule less_le_trans[OF be_value_bound]) (use l in simp)
    also note byte_power[OF assms]
    finally have "unat w = be_value bs" by (simp add: w unat_of_nat)
    then show ?thesis using l h by (intro to_big_compact_unique[symmetric]) simp_all
  qed
next
  assume bs: "bs = to_big_compact w"
  have "w = of_nat (be_value (to_big_compact w))" by (simp add: be_value_to_big_compact[OF assms])
  then show "decode_raw_num bs = Inr w"
    using length_to_big_compact[of w] to_big_compact_hd[of w] to_big_compact_Nil[OF assms, of w]
    by (auto simp: decode_raw_num_def bs)
qed

section \<open>Headers\<close>

lemma unat_of_nat_lt: "n < 2 ^ LENGTH('a) \<Longrightarrow> unat (of_nat n :: 'a::len word) = n"
  by (simp add: unat_of_nat)

lemma byte_sub: "c \<le> h \<Longrightarrow> unat (h - c :: u8) = unat h - unat c"
  by (rule unat_sub_no_underflow)

lemma byte_add: "unat (c :: u8) + n < 256 \<Longrightarrow> unat (c + of_nat n) = unat c + n"
  by (subst unat_add_no_overflow) (simp_all add: unat_of_nat)

lemma to_big_compact_width:
  assumes "8 dvd LENGTH('a)" "LENGTH('a) \<le> LENGTH('b)" "unat (v :: 'b::len word) = unat (w :: 'a::len word)"
  shows "to_big_compact v = to_big_compact w"
proof (rule to_big_compact_unique)
  show "length (to_big_compact w) \<le> LENGTH('b) div 8"
    using length_to_big_compact[of w] div_le_mono[OF assms(2), of 8] by simp
  show "to_big_compact w = [] \<or> hd (to_big_compact w) \<noteq> 0" using to_big_compact_hd by blast
  show "be_value (to_big_compact w) = unat v" by (simp add: be_value_to_big_compact assms)
qed

lemma decode_length_exact:
  "decode_length bs = Inr n \<longleftrightarrow> n < 2 ^ 64 \<and> bs = to_big_compact (of_nat n :: u64)"
proof
  assume "decode_length bs = Inr n"
  then obtain w :: u64 where "decode_raw_num bs = Inr w" "n = unat w"
    by (auto simp: decode_length_def)
  moreover have "unat w < 2 ^ LENGTH(64)" by (rule unsigned_less)
  ultimately show "n < 2 ^ 64 \<and> bs = to_big_compact (of_nat n :: u64)"
    by (simp add: decode_raw_num_exact)
next
  assume "n < 2 ^ 64 \<and> bs = to_big_compact (of_nat n :: u64)"
  then have "decode_raw_num bs = Inr (of_nat n :: u64)" "unat (of_nat n :: u64) = n"
    by (simp_all add: decode_raw_num_exact unat_of_nat)
  then show "decode_length bs = Inr n" by (simp add: decode_length_def)
qed

lemma parse_long_exact:
  "parse_long_length (h # t) l = Inr n \<longleftrightarrow>
     l < length t \<and> 56 \<le> n \<and> n < 2 ^ 64 \<and> take l t = to_big_compact (of_nat n :: u64)"
  by (auto simp: parse_long_length_def decode_length_exact not_less)

lemma extract_payload_exact:
  assumes "i \<le> 9" "len < 2 ^ 64"
  shows "extract_payload False enc i len = Inr (p, rest) \<longleftrightarrow>
    i + len \<le> length enc \<and> i + len < 2 ^ 64 \<and> p = take len (drop i enc) \<and> rest = drop (i + len) enc"
proof (cases "i + len < 2 ^ 64")
  case True
  then show ?thesis by (auto simp: extract_payload_def Let_def)
next
  case False
  then have "(i + len) mod 2 ^ 64 = i + len - 2 ^ 64" "i + len - 2 ^ 64 < i"
    using assms by (auto simp: mod_if)
  then show ?thesis using False by (simp add: extract_payload_def Let_def)
qed

lemma size_str_bounds:
  assumes "56 \<le> n" "n < 2 ^ 64"
  shows "1 \<le> length (to_big_compact (of_nat n :: u64))" "length (to_big_compact (of_nat n :: u64)) \<le> 8"
proof -
  have "unat (of_nat n :: u64) = n" using assms(2) by (simp add: unat_of_nat)
  then have "(of_nat n :: u64) \<noteq> 0" using assms(1) by auto
  then show "1 \<le> length (to_big_compact (of_nat n :: u64))"
    using to_big_compact_Nil[of "of_nat n :: u64"] by (simp add: Suc_le_eq)
  show "length (to_big_compact (of_nat n :: u64)) \<le> 8"
    using length_to_big_compact[of "of_nat n :: u64"] by simp
qed

text \<open>
  The shape of a long header: after \<open>base + L\<close> come the \<open>L\<close> bytes of the length and the payload.
\<close>

lemma long_form_exact:
  fixes base :: u8
  assumes "unat base + 8 < 256" "unat h = unat base + l" "1 \<le> l" "l \<le> 8"
  shows "Try (parse_long_length (h # t) l) (\<lambda>len. extract_payload False (h # t) (1 + l) len) = Inr (p, rest)
    \<longleftrightarrow> (let n = length p in 56 \<le> n \<and> n + l + 1 < 2 ^ 64 \<and> l = length (to_big_compact (of_nat n :: u64)) \<and>
         t = to_big_compact (of_nat n :: u64) @ p @ rest)"
proof
  assume "Try (parse_long_length (h # t) l) (\<lambda>len. extract_payload False (h # t) (1 + l) len) = Inr (p, rest)"
  then obtain n where n: "l < length t" "56 \<le> n" "n < 2 ^ 64" "take l t = to_big_compact (of_nat n :: u64)"
    and "extract_payload False (h # t) (1 + l) n = Inr (p, rest)"
    by (auto simp: parse_long_exact)
  then have e: "1 + l + n \<le> length (h # t)" "1 + l + n < 2 ^ 64" "p = take n (drop l t)" "rest = drop (l + n) t"
    using assms by (simp_all add: extract_payload_exact)
  have len: "length p = n" using e by simp
  have "t = take l t @ take n (drop l t) @ drop (l + n) t"
    by (metis append_take_drop_id drop_drop add.commute)
  moreover have "l = length (to_big_compact (of_nat n :: u64))"
    using n(1,4) by (metis length_take min.absorb4)
  ultimately show "let n = length p in 56 \<le> n \<and> n + l + 1 < 2 ^ 64 \<and>
      l = length (to_big_compact (of_nat n :: u64)) \<and> t = to_big_compact (of_nat n :: u64) @ p @ rest"
    using n e len by (simp add: Let_def)
next
  assume "let n = length p in 56 \<le> n \<and> n + l + 1 < 2 ^ 64 \<and> l = length (to_big_compact (of_nat n :: u64)) \<and>
         t = to_big_compact (of_nat n :: u64) @ p @ rest"
  then have n: "56 \<le> length p" "length p + l + 1 < 2 ^ 64"
    and l: "l = length (to_big_compact (of_nat (length p) :: u64))"
    and t: "t = to_big_compact (of_nat (length p) :: u64) @ p @ rest"
    by (simp_all add: Let_def)
  have "parse_long_length (h # t) l = Inr (length p)"
    unfolding parse_long_exact using n l t by (cases p) auto
  moreover have "extract_payload False (h # t) (1 + l) (length p) = Inr (p, rest)"
    using n assms(4) l t by (subst extract_payload_exact) simp_all
  ultimately show "Try (parse_long_length (h # t) l) (\<lambda>len. extract_payload False (h # t) (1 + l) len) =
      Inr (p, rest)"
    by simp
qed

section \<open>Strings and lists round trip, canonically\<close>

text \<open>The encodings by the size of the payload.\<close>

lemma encode_string2_eq:
  assumes "length s < 2 ^ 32"
  shows "encode_string2 s =
    (if length s = 1 \<and> hd s \<le> 0x7f then s
     else if length s > 55
     then [0xb7 + of_nat (length (to_big_compact (of_nat (length s) :: u64)))] @
       to_big_compact (of_nat (length s) :: u64) @ s
     else [0x80 + of_nat (length s)] @ s)"
proof -
  let ?n = "length s" and ?w = "of_nat (length s) :: u32"
  have w: "unat ?w = ?n" using assms by (simp add: unat_of_nat)
  have one: "?w = 1 \<longleftrightarrow> ?n = 1" using w by (metis unsigned_1 of_nat_1)
  have big: "?w > 55 \<longleftrightarrow> ?n > 55" by (simp add: word_less_nat_alt w)
  have "unat (of_nat ?n :: u64) = ?n" using assms by (simp add: unat_of_nat)
  then have str: "to_big_compact ?w = to_big_compact (of_nat ?n :: u64)"
    using w by (intro to_big_compact_width[symmetric]) simp_all
  have uc: "(ucast ?w :: u8) = of_nat ?n" unfolding ucast_of_unat w by (rule refl)
  show ?thesis unfolding encode_string2_def Let_def one big str uc by (rule refl)
qed

lemma encode_list2_eq:
  assumes "length (concat args) < 2 ^ 64"
  shows "encode_list2 args =
    (let n = length (concat args) in
     (if n > 55
      then [0xf7 + of_nat (length (to_big_compact (of_nat n :: u64)))] @ to_big_compact (of_nat n :: u64)
      else [0xc0 + of_nat n]) @ concat args)"
proof -
  let ?n = "sum_list (map length args)"
  have n: "length (concat args) = ?n" by (simp add: length_concat)
  have w: "unat (of_nat ?n :: u64) = ?n" using assms n by (simp add: unat_of_nat)
  then have "(of_nat ?n :: u64) > 55 \<longleftrightarrow> ?n > 55" by (simp add: word_less_nat_alt)
  moreover have "(ucast (of_nat ?n :: u64) :: u8) = of_nat ?n" unfolding ucast_of_unat w by (rule refl)
  ultimately show ?thesis unfolding encode_list2_def Let_def n by simp
qed

lemma header_eq:
  assumes "unat (base :: u8) + n < 256"
  shows "h = base + of_nat n \<longleftrightarrow> unat h = unat base + n"
  using byte_add[OF assms] by (metis word_unat_eq_iff)

lemma parse_string_exact:
  assumes s: "length s < 2 ^ 32"
  shows "parse_string_metadata enc = Inr (s, rest) \<longleftrightarrow> enc = encode_string2 s @ rest"
proof (cases enc)
  case Nil
  have "encode_string2 s \<noteq> []" by (auto simp: encode_string2_eq[OF s])
  then show ?thesis using Nil by (simp add: parse_string_metadata_def)
next
  case (Cons h t)
  have hb: "unat h < 256" by (rule unat_byte)
  consider "unat h < 0x80" | "0x80 \<le> unat h" "unat h < 0xb8" | "0xb8 \<le> unat h" "unat h < 0xc0" | "0xc0 \<le> unat h"
    by linarith
  then show ?thesis
  proof cases
    case 1
    then have "parse_string_metadata enc = Inr ([h], t)"
      by (simp add: Cons parse_string_metadata_def detail_parse_string_metadata_def word_less_nat_alt
          word_le_nat_alt extract_payload_def)
    moreover have "enc = encode_string2 s @ rest \<longleftrightarrow> s = [h] \<and> rest = t"
    proof -
      have "h \<noteq> 0x80 + of_nat (length s)" if "length s \<le> 55"
        using that 1 by (subst header_eq) simp_all
      moreover have "h \<noteq> 0xb7 + of_nat (length (to_big_compact (of_nat (length s) :: u64)))"
        using 1 length_to_big_compact[of "of_nat (length s) :: u64"] by (subst header_eq) simp_all
      ultimately have ne: "\<not> (length s = 1 \<and> hd s \<le> 0x7f) \<Longrightarrow> enc \<noteq> encode_string2 s @ rest"
        by (auto simp: Cons encode_string2_eq[OF s])
      show ?thesis
      proof (cases "length s = 1 \<and> hd s \<le> 0x7f")
        case True
        then obtain x where "s = [x]" by (cases s) auto
        moreover from True have "encode_string2 s = s" by (simp add: encode_string2_eq[OF s])
        ultimately show ?thesis by (auto simp: Cons)
      next
        case False
        then have "s \<noteq> [h]" using 1 by (auto simp: word_le_nat_alt)
        then show ?thesis using ne[OF False] by simp
      qed
    qed
    ultimately show ?thesis by auto
  next
    case 2
    let ?n = "unat h - 0x80"
    have n: "unat (h - 0x80) = ?n" using 2 by (subst byte_sub) (simp_all add: word_le_nat_alt)
    have parse: "parse_string_metadata enc = Inr (s, rest) \<longleftrightarrow>
        \<not> (?n = 1 \<and> t = []) \<and> \<not> (?n = 1 \<and> hd t < 0x80) \<and> ?n \<le> length t \<and> s = take ?n t \<and> rest = drop ?n t"
      using 2 by (cases t)
        (auto simp: Cons parse_string_metadata_def detail_parse_string_metadata_def word_less_nat_alt
          word_le_nat_alt n Let_def extract_payload_exact)
    have hd: "h = 0x80 + of_nat (length s) \<longleftrightarrow> length s = ?n" if "length s \<le> 55"
      using that 2 by (subst header_eq) auto
    have nl: "h \<noteq> 0xb7 + of_nat (length (to_big_compact (of_nat (length s) :: u64)))" if "length s > 55"
      using 2 that size_str_bounds[of "length s"] s by (subst header_eq) simp_all
    have single: "enc \<noteq> s @ rest" if "length s = 1" "hd s \<le> 0x7f"
      using that 2 by (cases s) (auto simp: Cons word_le_nat_alt)
    have "enc = encode_string2 s @ rest \<longleftrightarrow>
        \<not> (length s = 1 \<and> hd s \<le> 0x7f) \<and> length s = ?n \<and> t = s @ rest"
      using single nl hd 2 by (auto simp: encode_string2_eq[OF s] Cons)
    also have "\<dots> \<longleftrightarrow> parse_string_metadata enc = Inr (s, rest)"
    proof -
      have "hd s = hd t" if "s = take ?n t" "?n = 1" using that by (cases t) auto
      then show ?thesis unfolding parse
        by (cases "?n = 1")
          (auto simp: word_le_nat_alt word_less_nat_alt not_less hd_append)
    qed
    finally show ?thesis by simp
  next
    case 3
    let ?l = "unat h - 0xb7"
    have l: "unat (h - 0xb7) = ?l" using 3 by (subst byte_sub) (simp_all add: word_le_nat_alt)
    have "parse_string_metadata enc = Inr (s, rest) \<longleftrightarrow>
        Try (parse_long_length (h # t) ?l) (\<lambda>len. extract_payload False (h # t) (1 + ?l) len) = Inr (s, rest)"
      using 3 by (simp add: Cons parse_string_metadata_def detail_parse_string_metadata_def
          word_less_nat_alt word_le_nat_alt l Let_def)
    also have "\<dots> \<longleftrightarrow> 56 \<le> length s \<and> ?l = length (to_big_compact (of_nat (length s) :: u64)) \<and>
         t = to_big_compact (of_nat (length s) :: u64) @ s @ rest"
      using 3 s by (subst long_form_exact[where base = "0xb7"]) (auto simp: Let_def)
    also have "\<dots> \<longleftrightarrow> enc = encode_string2 s @ rest"
    proof -
      have "h = 0xb7 + of_nat (length (to_big_compact (of_nat (length s) :: u64))) \<longleftrightarrow>
          ?l = length (to_big_compact (of_nat (length s) :: u64))"
        using 3 length_to_big_compact[of "of_nat (length s) :: u64"] by (subst header_eq) auto
      moreover have "h \<noteq> 0x80 + of_nat (length s)" if "length s \<le> 55"
        using that 3 by (subst header_eq) simp_all
      moreover have "enc \<noteq> s @ rest" if "length s = 1" "hd s \<le> 0x7f"
        using that 3 by (cases s) (auto simp: Cons word_le_nat_alt)
      ultimately show ?thesis by (auto simp: Cons encode_string2_eq[OF s])
    qed
    finally show ?thesis .
  next
    case 4
    have "h \<noteq> 0x80 + of_nat (length s)" if "length s \<le> 55"
      using that 4 by (subst header_eq) simp_all
    moreover have "h \<noteq> 0xb7 + of_nat (length (to_big_compact (of_nat (length s) :: u64)))"
      using 4 length_to_big_compact[of "of_nat (length s) :: u64"] by (subst header_eq) simp_all
    moreover have "enc \<noteq> s @ rest" if "length s = 1" "hd s \<le> 0x7f"
      using that 4 by (cases s) (auto simp: Cons word_le_nat_alt)
    ultimately show ?thesis
      using 4 by (auto simp: Cons parse_string_metadata_def word_le_nat_alt encode_string2_eq[OF s])
  qed
qed

lemma parse_list_exact:
  assumes p: "length p + 9 < 2 ^ 64"
  shows "parse_list_metadata enc = Inr (p, rest) \<longleftrightarrow> enc = encode_list2 [p] @ rest"
proof (cases enc)
  case Nil
  have "encode_list2 [p] \<noteq> []" using p by (simp add: encode_list2_eq Let_def)
  then show ?thesis using Nil by (simp add: parse_list_metadata_def)
next
  case (Cons h t)
  have hb: "unat h < 256" by (rule unat_byte)
  have enc: "encode_list2 [p] = (if length p > 55
      then [0xf7 + of_nat (length (to_big_compact (of_nat (length p) :: u64)))] @
        to_big_compact (of_nat (length p) :: u64)
      else [0xc0 + of_nat (length p)]) @ p"
    using p by (simp add: encode_list2_eq Let_def)
  consider "unat h < 0xc0" | "0xc0 \<le> unat h" "unat h < 0xf8" | "0xf8 \<le> unat h"
    by linarith
  then show ?thesis
  proof cases
    case 1
    have "h \<noteq> 0xc0 + of_nat (length p)" if "length p \<le> 55"
      using that 1 by (subst header_eq) simp_all
    moreover have "h \<noteq> 0xf7 + of_nat (length (to_big_compact (of_nat (length p) :: u64)))"
      using 1 length_to_big_compact[of "of_nat (length p) :: u64"] by (subst header_eq) simp_all
    ultimately show ?thesis
      using 1 by (auto simp: Cons parse_list_metadata_def word_less_nat_alt enc)
  next
    case 2
    let ?n = "unat h - 0xc0"
    have n: "unat (h - 0xc0) = ?n" using 2 by (subst byte_sub) (simp_all add: word_le_nat_alt)
    have parse: "parse_list_metadata enc = Inr (p, rest) \<longleftrightarrow> ?n \<le> length t \<and> p = take ?n t \<and> rest = drop ?n t"
      using 2 by (auto simp: Cons parse_list_metadata_def detail_parse_list_metadata_def word_less_nat_alt
          n extract_payload_exact)
    have "h = 0xc0 + of_nat (length p) \<longleftrightarrow> length p = ?n" if "length p \<le> 55"
      using that 2 by (subst header_eq) auto
    moreover have "h \<noteq> 0xf7 + of_nat (length (to_big_compact (of_nat (length p) :: u64)))" if "length p > 55"
      using 2 that size_str_bounds[of "length p"] p by (subst header_eq) simp_all
    ultimately have "enc = encode_list2 [p] @ rest \<longleftrightarrow> length p = ?n \<and> t = p @ rest"
      using 2 by (auto simp: Cons enc)
    then show ?thesis unfolding parse by auto
  next
    case 3
    let ?l = "unat h - 0xf7"
    have l: "unat (h - 0xf7) = ?l" using 3 by (subst byte_sub) (simp_all add: word_le_nat_alt)
    have b: "?l \<le> 8" using hb by simp
    have "parse_list_metadata enc = Inr (p, rest) \<longleftrightarrow>
        Try (parse_long_length (h # t) ?l) (\<lambda>len. extract_payload False (h # t) (1 + ?l) len) = Inr (p, rest)"
      using 3 by (simp add: Cons parse_list_metadata_def detail_parse_list_metadata_def
          word_less_nat_alt l Let_def)
    also have "\<dots> \<longleftrightarrow> 56 \<le> length p \<and> ?l = length (to_big_compact (of_nat (length p) :: u64)) \<and>
         t = to_big_compact (of_nat (length p) :: u64) @ p @ rest"
      using 3 p b by (subst long_form_exact[where base = "0xf7"]) (auto simp: Let_def)
    also have "\<dots> \<longleftrightarrow> enc = encode_list2 [p] @ rest"
    proof -
      have "h = 0xf7 + of_nat (length (to_big_compact (of_nat (length p) :: u64))) \<longleftrightarrow>
          ?l = length (to_big_compact (of_nat (length p) :: u64))"
        using 3 length_to_big_compact[of "of_nat (length p) :: u64"] by (subst header_eq) auto
      moreover have "h \<noteq> 0xc0 + of_nat (length p)" if "length p \<le> 55"
        using that 3 by (subst header_eq) simp_all
      ultimately show ?thesis by (auto simp: Cons enc)
    qed
    finally show ?thesis .
  qed
qed

lemma parse_list_encode:
  assumes "length (concat args) + 9 < 2 ^ 64"
  shows "parse_list_metadata (encode_list2 args @ rest) = Inr (concat args, rest)"
proof -
  have "encode_list2 args = encode_list2 [concat args]" using assms by (simp add: encode_list2_eq)
  then show ?thesis using parse_list_exact[OF assms] by simp
qed

lemma encode_list2_concat: "encode_list2 args = encode_list2 [concat args]"
  by (simp add: encode_list2_def length_concat)

lemma length_encode_list2: "length (concat args) \<le> length (encode_list2 args)"
  by (simp add: encode_list2_def Let_def)

lemma length_encode_list2_le: "length (encode_list2 args) \<le> length (concat args) + 9"
  using length_to_big_compact[of "of_nat (sum_list (map length args)) :: u64"]
  by (simp add: encode_list2_def Let_def length_concat)

lemma length_encode_string2: "length s \<le> length (encode_string2 s)"
  by (simp add: encode_string2_def Let_def)

lemma length_encode_string2_le: "length (encode_string2 s) \<le> length s + 9"
  using length_to_big_compact[of "of_nat (length s) :: u32"] by (simp add: encode_string2_def Let_def)

lemma encode_list2_hd:
  assumes "length (concat args) < 2 ^ 64"
  shows "encode_list2 args \<noteq> [] \<and> hd (encode_list2 args) \<ge> 0xc0"
proof -
  have "length (to_big_compact (of_nat n :: u64)) < 9" for n
    using length_to_big_compact[of "of_nat n :: u64"] by simp
  then have "unat (0xf7 + of_nat (length (to_big_compact (of_nat n :: u64))) :: u8) \<ge> 0xc0" for n
    by (subst byte_add) simp_all
  moreover have "unat (0xc0 + of_nat n :: u8) \<ge> 0xc0" if "n \<le> 55" for n
    using that by (subst byte_add) auto
  ultimately show ?thesis
    using assms by (auto simp: encode_list2_eq Let_def word_le_nat_alt)
qed

text \<open>A successful read consumes at least the header.\<close>

lemma extract_payload_consumes:
  "extract_payload keep enc i len = Inr (p, rest) \<Longrightarrow> 0 < i \<or> i = 0 \<and> len = 1 \<Longrightarrow> enc \<noteq> [] \<Longrightarrow> length rest < length enc"
  by (cases enc) (auto simp: extract_payload_def Let_def split: if_splits)

lemma parse_string_consumes:
  "parse_string_metadata enc = Inr (p, rest) \<Longrightarrow> length rest < length enc"
  by (auto simp: parse_string_metadata_def detail_parse_string_metadata_def Let_def split: if_splits
      elim!: extract_payload_consumes)

lemma parse_list_consumes:
  "parse_list_metadata enc = Inr (p, rest) \<Longrightarrow> length rest < length enc"
  by (auto simp: parse_list_metadata_def detail_parse_list_metadata_def Let_def split: if_splits
      elim!: extract_payload_consumes)

lemma decode_unsigned_exact:
  fixes w :: "'a::len word"
  assumes "8 dvd LENGTH('a)" "LENGTH('a) \<le> 256"
  shows "decode_unsigned enc = Inr (w, rest) \<longleftrightarrow> enc = encode_unsigned w @ rest"
proof -
  have "length (to_big_compact w) \<le> 32"
    using length_to_big_compact[of w] div_le_mono[OF assms(2), of 8] by simp
  then have "parse_string_metadata enc = Inr (to_big_compact w, rest) \<longleftrightarrow> enc = encode_unsigned w @ rest"
    unfolding encode_unsigned_def by (intro parse_string_exact) simp
  then show ?thesis
    by (auto simp: decode_unsigned_def decode_raw_num_exact[OF assms(1)])
qed

text \<open>
  C8: strings round trip and the decoder accepts only the canonical encoding. For strings of less
  than \<open>2 ^ 32\<close> bytes, \<open>decode_string\<close> succeeds on an input with result \<open>s\<close> exactly if the input
  starts with the encoding of \<open>s\<close>, and leaves exactly what follows it.
\<close>

theorem decode_string_inverts_encode:
  assumes "length s < 2 ^ 32"
  shows "decode_string enc = Inr (s, rest) \<longleftrightarrow> enc = encode_string2 s @ rest"
  unfolding decode_string_def by (rule parse_string_exact[OF assms])

theorem decode_string_inverts_encode_witness:
  "decode_string [0x83, 1, 2, 3, 9] = Inr ([1, 2, 3], [9]) \<and> encode_string2 [1, 2, 3] = [0x83, 1, 2, 3]"
proof -
  have e: "encode_string2 [1, 2, 3] = [0x83, 1, 2, 3]" by (simp add: encode_string2_def Let_def)
  have "decode_string [0x83, 1, 2, 3, 9] = Inr ([1, 2, 3], [9]) \<longleftrightarrow>
      [0x83, 1, 2, 3, 9] = encode_string2 [1, 2, 3] @ [9]"
    by (rule decode_string_inverts_encode) simp
  then show ?thesis using e by simp
qed

text \<open>
  C9: integers round trip and the decoder accepts only the shortest form, for every unsigned type
  of a whole number of bytes up to 32 (\<open>uint8_t\<close> to \<open>uint256_t\<close>).
\<close>

theorem decode_unsigned_inverts_encode:
  fixes w :: "'a::len word"
  assumes "8 dvd LENGTH('a)" "LENGTH('a) \<le> 256"
  shows "decode_unsigned enc = Inr (w, rest) \<longleftrightarrow> enc = encode_unsigned w @ rest"
  by (rule decode_unsigned_exact[OF assms])

theorem decode_unsigned_inverts_encode_witness:
  "decode_unsigned [0x82, 4, 0] = Inr (1024 :: u64, [])"
proof -
  have "unat (1024 :: u64) = 1024" by simp
  then have "to_big_compact (1024 :: u64) = [4, 0]"
    by (intro to_big_compact_unique) (simp_all add: be_value_def)
  then have "encode_unsigned (1024 :: u64) = [0x82, 4, 0]"
    by (simp add: encode_unsigned_def encode_string2_def Let_def)
  then show ?thesis
    using decode_unsigned_inverts_encode[of "[0x82, 4, 0]" "1024 :: u64" "[]"] by simp
qed

text \<open>
  C10: the bound of the string encoding is sharp. \<open>encode_string2\<close> narrows the size to 32 bits, so a
  string of \<open>2 ^ 32\<close> bytes gets the header of the empty string and does not decode to itself.
\<close>

theorem encode_string_truncates_size:
  assumes "length s = 2 ^ 32"
  shows "encode_string2 s = 0x80 # s \<and> decode_string (encode_string2 s) = Inr ([], s)"
proof -
  have "(of_nat (2 ^ 32) :: u32) = 0" by simp
  then have e: "encode_string2 s = 0x80 # s"
    unfolding encode_string2_def assms by simp
  moreover have "encode_string2 [] = [0x80]" by (simp add: encode_string2_def)
  ultimately show ?thesis
    using parse_string_exact[of "[]" "0x80 # s" s] by (simp add: decode_string_def)
qed

theorem encode_string_truncates_size_witness:
  "decode_string (encode_string2 (replicate (2 ^ 32) 0)) = Inr ([], replicate (2 ^ 32) 0)"
proof -
  have "length (replicate (2 ^ 32) (0 :: u8)) = 2 ^ 32" by (rule length_replicate)
  from encode_string_truncates_size[OF this] show ?thesis by (rule conjunct2)
qed

end
