(* ===== verification/Rlp_Types.thy ===== *)
theory Rlp_Types
  imports Rlp_Core
begin

text \<open>
  The RLP codecs of \<open>category/execution/ethereum/core/rlp/\<close>: hashes and addresses, accounts,
  withdrawals, and receipts with their logs. A loop over the items of a
  list runs with the length of the payload as fuel; every item decoder consumes at least a byte, so
  this fuel is always enough (\<open>decode_items_unfold\<close>). \<open>reserve\<close> calls are left out.
\<close>

section \<open>Hashes and addresses\<close>

definition bytes32_bytes :: "bytes32 \<Rightarrow> bytes" where
  "bytes32_bytes h = be_bytes 32 (unat h)"

definition address_bytes :: "address \<Rightarrow> bytes" where
  "address_bytes a = be_bytes 20 (unat a)"

definition encode_bytes32 :: "bytes32 \<Rightarrow> bytes" where
  "encode_bytes32 h = encode_string2 (bytes32_bytes h)"

definition encode_bytes32_compact :: "bytes32 \<Rightarrow> bytes" where
  "encode_bytes32_compact h = encode_string2 (zeroless_view (bytes32_bytes h))"

definition decode_bytes32 :: "bytes32 decoder" where
  "decode_bytes32 enc =
     Try (decode_byte_string_fixed 32 enc) (\<lambda>(b, rest). Inr (of_nat (be_value b), rest))"

definition decode_bytes32_compact :: "bytes32 decoder" where
  "decode_bytes32_compact enc =
     Try (decode_string enc) (\<lambda>(b, rest).
       if length b > 32 then Inl (DecodeError InputTooLong)
       else if b \<noteq> [] \<and> hd b = 0 then Inl (DecodeError NonCanonical)
       else Inr (of_nat (be_value b), rest))"

definition encode_address :: "address option \<Rightarrow> bytes" where
  "encode_address a =
     (case a of None \<Rightarrow> [0x80] | Some a \<Rightarrow> encode_string2 (address_bytes a))"

definition decode_address :: "address decoder" where
  "decode_address enc =
     Try (decode_byte_string_fixed 20 enc) (\<lambda>(b, rest). Inr (of_nat (be_value b), rest))"

definition decode_optional_address :: "address option decoder" where
  "decode_optional_address enc =
     Try (parse_string_metadata enc) (\<lambda>(payload, rest).
       if length payload = 20 then Inr (Some (of_nat (be_value payload)), rest)
       else if length payload > 20 then Inl (DecodeError InputTooLong)
       else if payload \<noteq> [] then Inl (DecodeError InputTooShort)
       else Inr (None, rest))"

section \<open>Loops over the items of a list\<close>

primrec decode_loop :: "nat \<Rightarrow> 'a decoder \<Rightarrow> bytes \<Rightarrow> rlp_fail + 'a list" where
  "decode_loop 0 dec payload = (if payload = [] then Inr [] else Inl RlpAbort)"
| "decode_loop (Suc n) dec payload =
     (if payload = [] then Inr []
      else Try (dec payload) (\<lambda>(x, r). Try (decode_loop n dec r) (\<lambda>xs. Inr (x # xs))))"

definition decode_items :: "'a decoder \<Rightarrow> bytes \<Rightarrow> rlp_fail + 'a list" where
  "decode_items dec payload = decode_loop (length payload) dec payload"

text \<open>\<open>if (!payload.empty()) return DecodeError::InputTooLong\<close>, the end of every record.\<close>

definition expect_end :: "bytes \<Rightarrow> 'a \<Rightarrow> bytes \<Rightarrow> rlp_fail + 'a \<times> bytes" where
  "expect_end payload x rest =
     (if payload \<noteq> [] then Inl (DecodeError InputTooLong) else Inr (x, rest))"

section \<open>Accounts and withdrawals\<close>

definition encode_account :: "account \<Rightarrow> bytes32 \<Rightarrow> bytes" where
  "encode_account account storage_root =
     encode_list2 [encode_unsigned (nonce account), encode_unsigned (balance account),
       encode_bytes32 storage_root, encode_bytes32 (code_hash account)]"

text \<open>\<open>storage_root\<close> is an out parameter, the second component of the result.\<close>

definition decode_account :: "(account \<times> bytes32) decoder" where
  "decode_account enc =
     Try (parse_list_metadata enc) (\<lambda>(payload, rest).
     Try (decode_unsigned payload) (\<lambda>(n, payload).
     Try (decode_unsigned payload) (\<lambda>(b, payload).
     Try (decode_bytes32 payload) (\<lambda>(root, payload).
     Try (decode_bytes32 payload) (\<lambda>(h, payload).
       expect_end payload (default_account\<lparr>nonce := n, balance := b, code_hash := h\<rparr>, root) rest)))))"

definition encode_withdrawal :: "withdrawal \<Rightarrow> bytes" where
  "encode_withdrawal w =
     encode_list2 [encode_unsigned (w_index w), encode_unsigned (w_validator_index w),
       encode_address (Some (w_recipient w)), encode_unsigned (w_amount w)]"

definition decode_withdrawal :: "withdrawal decoder" where
  "decode_withdrawal enc =
     (if length enc = 0
      then Inr (\<lparr>w_index = 0, w_validator_index = 0, w_amount = 0, w_recipient = 0\<rparr>, enc)
      else
        Try (parse_list_metadata enc) (\<lambda>(payload, rest).
        Try (decode_unsigned payload) (\<lambda>(i, payload).
        Try (decode_unsigned payload) (\<lambda>(v, payload).
        Try (decode_address payload) (\<lambda>(r, payload).
        Try (decode_unsigned payload) (\<lambda>(a, payload).
          expect_end payload
            \<lparr>w_index = i, w_validator_index = v, w_amount = a, w_recipient = r\<rparr> rest))))))"

definition decode_withdrawal_list :: "withdrawal list decoder" where
  "decode_withdrawal_list enc =
     Try (parse_list_metadata enc) (\<lambda>(payload, rest).
     Try (decode_items decode_withdrawal payload) (\<lambda>ws. Inr (ws, rest)))"

section \<open>Receipts\<close>

definition encode_topics :: "bytes32 list \<Rightarrow> bytes" where
  "encode_topics topics = encode_list2 [concat (map encode_bytes32 topics)]"

definition encode_log :: "log \<Rightarrow> bytes" where
  "encode_log l =
     encode_list2 [encode_address (Some (log_address l)), encode_topics (log_topics l),
       encode_string2 (log_data l)]"

definition encode_bloom :: "bytes \<Rightarrow> bytes" where
  "encode_bloom bloom = encode_string2 bloom"

text \<open>The underlying \<open>char\<close> of the enumeration.\<close>

primrec tx_type_byte :: "TransactionType \<Rightarrow> u8" where
  "tx_type_byte legacy = 0"
| "tx_type_byte eip2930 = 1"
| "tx_type_byte eip1559 = 2"
| "tx_type_byte eip4844 = 3"
| "tx_type_byte eip7702 = 4"

definition encode_receipt :: "receipt \<Rightarrow> bytes" where
  "encode_receipt r =
     (let log_result = concat (map encode_log (r_logs r));
          receipt_bytes = encode_list2 [encode_unsigned (r_status r), encode_unsigned (r_gas_used r),
            encode_bloom (r_bloom r), encode_list2 [log_result]]
      in if r_type r = eip1559 \<or> r_type r = eip2930 \<or> r_type r = eip4844 \<or> r_type r = eip7702
         then tx_type_byte (r_type r) # receipt_bytes
         else receipt_bytes)"

definition decode_bloom :: "bytes decoder" where
  "decode_bloom enc = decode_byte_string_fixed 256 enc"

definition decode_topics :: "bytes32 list decoder" where
  "decode_topics enc =
     Try (parse_list_metadata enc) (\<lambda>(payload, rest).
     Try (decode_items decode_bytes32 payload) (\<lambda>topics. Inr (topics, rest)))"

definition decode_log :: "log decoder" where
  "decode_log enc =
     Try (parse_list_metadata enc) (\<lambda>(payload, rest).
     Try (decode_address payload) (\<lambda>(a, payload).
     Try (decode_topics payload) (\<lambda>(topics, payload).
     Try (decode_string payload) (\<lambda>(d, payload).
       expect_end payload \<lparr>log_data = d, log_topics = topics, log_address = a\<rparr> rest))))"

definition decode_logs :: "log list decoder" where
  "decode_logs enc =
     Try (parse_list_metadata enc) (\<lambda>(payload, rest).
     Try (decode_items decode_log payload) (\<lambda>ls. Inr (ls, rest)))"

definition decode_untyped_receipt :: "receipt decoder" where
  "decode_untyped_receipt enc =
     Try (parse_list_metadata enc) (\<lambda>(payload, rest).
     Try (decode_unsigned payload) (\<lambda>(status, payload).
     Try (decode_unsigned payload) (\<lambda>(used, payload).
     Try (decode_bloom payload) (\<lambda>(bloom, payload).
     Try (decode_logs payload) (\<lambda>(ls, payload).
       expect_end payload
         \<lparr>r_bloom = bloom, r_status = status, r_gas_used = used, r_type = legacy, r_logs = ls\<rparr> rest)))))"

definition decode_receipt :: "receipt decoder" where
  "decode_receipt enc =
     (if enc = [] then Inl (DecodeError InputTooShort)
      else
        (let first = hd enc in
         if first < 0xc0 then
           Try (decode_untyped_receipt (drop 1 enc)) (\<lambda>(r, rest).
             if first = 1 then Inr (r\<lparr>r_type := eip2930\<rparr>, rest)
             else if first = 2 then Inr (r\<lparr>r_type := eip1559\<rparr>, rest)
             else if first = 3 then Inr (r\<lparr>r_type := eip4844\<rparr>, rest)
             else if first = 4 then Inr (r\<lparr>r_type := eip7702\<rparr>, rest)
             else Inl (DecodeError InvalidTxnType))
         else
           Try (decode_untyped_receipt enc) (\<lambda>(r, rest). Inr (r\<lparr>r_type := legacy\<rparr>, rest))))"

section \<open>Exact decoders\<close>

text \<open>
  A decoder that makes progress: the loops over the items of a list terminate, and the payload's
  length is enough fuel.
\<close>

locale consuming =
  fixes dec :: "'a decoder"
  assumes consumes: "dec bs = Inr (x, rest) \<Longrightarrow> bs \<noteq> [] \<Longrightarrow> length rest < length bs"
begin

lemma decode_loop_fuel:
  "length p \<le> n \<Longrightarrow> length p \<le> m \<Longrightarrow> decode_loop n dec p = decode_loop m dec p"
proof (induction n arbitrary: m p)
  case 0
  then show ?case by (cases m) simp_all
next
  case (Suc n)
  show ?case
  proof (cases m)
    case 0
    then show ?thesis using Suc.prems by simp
  next
    case (Suc m')
    have "decode_loop n dec r = decode_loop m' dec r" if "dec p = Inr (x, r)" "p \<noteq> []" for x r
      using consumes[OF that] Suc.prems Suc by (intro Suc.IH) simp_all
    then show ?thesis using Suc by (cases "dec p") auto
  qed
qed

lemma decode_items_unfold:
  "decode_items dec p =
     (if p = [] then Inr []
      else Try (dec p) (\<lambda>(x, r). Try (decode_items dec r) (\<lambda>xs. Inr (x # xs))))"
proof (cases p)
  case (Cons b bs)
  have "decode_loop (length bs) dec r = decode_items dec r" if "dec p = Inr (x, r)" for x r
    using consumes[OF that] Cons unfolding decode_items_def by (intro decode_loop_fuel) simp_all
  then show ?thesis using Cons by (cases "dec p") (auto simp: decode_items_def)
qed (simp add: decode_items_def)

text \<open>A loop fails only with an error of its item decoder, so the fuel never runs out.\<close>

lemma decode_items_error:
  assumes "\<And>bs. bs \<noteq> [] \<Longrightarrow> dec bs \<noteq> Inl e"
  shows "decode_items dec p \<noteq> Inl e"
proof (induction p rule: length_induct)
  case (1 p)
  show ?case
  proof
    assume "decode_items dec p = Inl e"
    then have "p \<noteq> []" and r: "\<exists>x r. dec p = Inr (x, r) \<and> decode_items dec r = Inl e"
      using assms[of p] by (subst (asm) decode_items_unfold, auto simp: Try_eq_Inl split: if_splits)+
    then show False using 1 consumes by blast
  qed
qed

end

text \<open>A codec whose decoder inverts the encoder on the values that \<open>ok\<close> describes.\<close>

locale round_trip_codec = consuming dec for dec :: "'a decoder" +
  fixes enc :: "'a \<Rightarrow> bytes" and ok :: "'a \<Rightarrow> bool"
  assumes decode_encode: "ok x \<Longrightarrow> dec (enc x @ rest) = Inr (x, rest)"
    and encode_nonempty: "ok x \<Longrightarrow> enc x \<noteq> []"
begin

lemma decode_items_encode: "list_all ok xs \<Longrightarrow> decode_items dec (concat (map enc xs)) = Inr xs"
proof (induction xs)
  case Nil
  show ?case by (subst decode_items_unfold) simp
next
  case (Cons x xs)
  then show ?case by (subst decode_items_unfold) (simp add: decode_encode encode_nonempty)
qed

lemma list_round_trip:
  assumes "list_all ok xs" "length (concat (map enc xs)) + 9 < 2 ^ 64"
  shows "Try (parse_list_metadata (encode_list2 [concat (map enc xs)] @ rest))
      (\<lambda>(p, r). Try (decode_items dec p) (\<lambda>xs. Inr (xs, r))) = Inr (xs, rest)"
  using decode_items_encode[OF assms(1)] parse_list_exact[OF assms(2)] by auto

end

text \<open>
  A codec whose decoder inverts the encoder and accepts nothing but encodings, on the values that
  \<open>ok\<close> describes. A loop over items then is exact on lists of such values.
\<close>

locale exact_codec = consuming dec for dec :: "'a decoder" +
  fixes enc :: "'a \<Rightarrow> bytes" and ok :: "'a \<Rightarrow> bool"
  assumes exact: "ok x \<Longrightarrow> bs \<noteq> [] \<Longrightarrow> dec bs = Inr (x, rest) \<longleftrightarrow> bs = enc x @ rest"
    and nonempty: "ok x \<Longrightarrow> enc x \<noteq> []"
begin

lemma decode_items_exact:
  "list_all ok xs \<Longrightarrow> decode_items dec p = Inr xs \<longleftrightarrow> p = concat (map enc xs)"
proof (induction xs arbitrary: p)
  case Nil
  show ?case by (subst decode_items_unfold) auto
next
  case (Cons x xs)
  then have "decode_items dec p = Inr (x # xs) \<longleftrightarrow> p \<noteq> [] \<and> (\<exists>r. dec p = Inr (x, r) \<and> decode_items dec r = Inr xs)"
    by (subst decode_items_unfold) auto
  also have "\<dots> \<longleftrightarrow> p = concat (map enc (x # xs))"
    using Cons exact[of x p] nonempty[of x] by auto
  finally show ?case .
qed

lemma list_exact:
  assumes "list_all ok xs" "length (concat (map enc xs)) + 9 < 2 ^ 64"
  shows "Try (parse_list_metadata bs) (\<lambda>(p, r). Try (decode_items dec p) (\<lambda>xs. Inr (xs, r))) = Inr (xs, rest)
    \<longleftrightarrow> bs = encode_list2 [concat (map enc xs)] @ rest"
proof -
  have "Try (parse_list_metadata bs) (\<lambda>(p, r). Try (decode_items dec p) (\<lambda>xs. Inr (xs, r))) = Inr (xs, rest)
      \<longleftrightarrow> (\<exists>p. parse_list_metadata bs = Inr (p, rest) \<and> decode_items dec p = Inr xs)"
    by auto
  then show ?thesis
    unfolding decode_items_exact[OF assms(1)] using parse_list_exact[OF assms(2)] by simp
qed

end

sublocale exact_codec \<subseteq> round_trip_codec
  by unfold_locales (simp_all add: exact nonempty)

section \<open>Hashes and addresses are exact\<close>

lemmas unsigned_exact =
  decode_unsigned_exact[where ?'a = 8, simplified] decode_unsigned_exact[where ?'a = 64, simplified]
  decode_unsigned_exact[where ?'a = 256, simplified]

lemma fixed_exact:
  assumes "N < 2 ^ 32"
  shows "decode_byte_string_fixed N enc = Inr (b, rest) \<longleftrightarrow> length b = N \<and> enc = encode_string2 b @ rest"
  using assms by (auto simp: decode_byte_string_fixed_def parse_string_exact split: if_splits)

lemma word_bytes:
  assumes "LENGTH('a::len) = 8 * k"
  shows "length b = k \<and> of_nat (be_value b) = (w :: 'a word) \<longleftrightarrow> b = be_bytes k (unat w)"
proof -
  have p: "(256 :: nat) ^ k = 2 ^ LENGTH('a)" using power_mult[of "2 :: nat" 8 k] by (simp add: assms)
  have "be_value b < 2 ^ LENGTH('a)" if "length b = k" using be_value_bound[of b] that p by simp
  then have "b = be_bytes k (unat (of_nat (be_value b) :: 'a word))" if "length b = k"
    using that by (simp add: unat_of_nat_lt be_bytes_be_value)
  moreover have "be_value (be_bytes k (unat w)) = unat w"
    by (rule be_value_be_bytes) (unfold p, rule unsigned_less)
  ultimately show ?thesis by auto
qed

lemma fixed_word_exact:
  assumes "LENGTH('a::len) = 8 * k" "k < 2 ^ 32"
  shows "Try (decode_byte_string_fixed k enc) (\<lambda>(b, r). Inr (of_nat (be_value b) :: 'a word, r)) = Inr (w, rest)
    \<longleftrightarrow> enc = encode_string2 (be_bytes k (unat w)) @ rest"
proof -
  have "Try (decode_byte_string_fixed k enc) (\<lambda>(b, r). Inr (of_nat (be_value b) :: 'a word, r)) = Inr (w, rest)
      \<longleftrightarrow> (\<exists>b. (length b = k \<and> of_nat (be_value b) = w) \<and> enc = encode_string2 b @ rest)"
    by (auto simp: fixed_exact[OF assms(2)])
  then show ?thesis unfolding word_bytes[OF assms(1)] by simp
qed

lemma bytes32_exact: "decode_bytes32 enc = Inr (h, rest) \<longleftrightarrow> enc = encode_bytes32 h @ rest"
  unfolding decode_bytes32_def encode_bytes32_def bytes32_bytes_def by (rule fixed_word_exact) simp_all

lemma address_exact: "decode_address enc = Inr (a, rest) \<longleftrightarrow> enc = encode_address (Some a) @ rest"
  unfolding decode_address_def encode_address_def address_bytes_def option.case
  by (rule fixed_word_exact) simp_all

lemma optional_address_exact:
  "decode_optional_address enc = Inr (a, rest) \<longleftrightarrow> enc = encode_address a @ rest"
proof (cases a)
  case None
  have "decode_optional_address enc = Inr (a, rest) \<longleftrightarrow> parse_string_metadata enc = Inr ([], rest)"
    using None by (cases "parse_string_metadata enc") (auto simp: decode_optional_address_def split: if_splits)
  also have "\<dots> \<longleftrightarrow> enc = encode_address a @ rest"
    using None by (subst parse_string_exact) (simp_all add: encode_address_def encode_string2_def)
  finally show ?thesis .
next
  case (Some w)
  have "decode_optional_address enc = Inr (a, rest) \<longleftrightarrow> decode_address enc = Inr (w, rest)"
    using Some by (cases "parse_string_metadata enc")
      (auto simp: decode_optional_address_def decode_address_def decode_byte_string_fixed_def
        split: if_splits)
  then show ?thesis using Some by (simp add: address_exact)
qed

section \<open>Sizes and progress\<close>

lemma length_short_string: "length s \<le> 55 \<Longrightarrow> length (encode_string2 s) \<le> Suc (length s)"
  by (subst encode_string2_eq) simp_all

lemma length_encode_unsigned:
  fixes w :: "'a::len word"
  assumes "LENGTH('a) \<le> 256"
  shows "length (encode_unsigned w) \<le> 33"
proof -
  have "length (to_big_compact w) \<le> 32"
    using length_to_big_compact[of w] div_le_mono[OF assms, of 8] by simp
  then show ?thesis
    using length_short_string[of "to_big_compact w"] by (simp add: encode_unsigned_def)
qed

lemma length_encode_bytes32: "length (encode_bytes32 h) = 33"
  by (subst encode_bytes32_def, subst encode_string2_eq) (simp_all add: bytes32_bytes_def)

lemma length_encode_address: "length (encode_address a) \<le> 21"
  using length_short_string[of "address_bytes (the a)"]
  by (auto simp: encode_address_def address_bytes_def split: option.split)

lemmas length_unsigned =
  length_encode_unsigned[where ?'a = 8, simplified] length_encode_unsigned[where ?'a = 64, simplified]
  length_encode_unsigned[where ?'a = 256, simplified]

lemma fixed_consumes: "decode_byte_string_fixed N enc = Inr (b, rest) \<Longrightarrow> length rest < length enc"
  by (auto simp: decode_byte_string_fixed_def split: if_splits dest: parse_string_consumes)

lemma decode_bytes32_consumes: "decode_bytes32 enc = Inr (h, rest) \<Longrightarrow> length rest < length enc"
  by (auto simp: decode_bytes32_def dest: fixed_consumes)

lemma expect_end_eq_Inr [simp]:
  "expect_end payload x rest = Inr (y, r) \<longleftrightarrow> payload = [] \<and> y = x \<and> r = rest"
  by (auto simp: expect_end_def)

text \<open>Every record is a list: its decoder leaves what follows the list.\<close>

lemma record_consumes:
  assumes "Try (parse_list_metadata enc) f = Inr (x, rest)"
    and "\<And>p r. f (p, r) = Inr (x, rest) \<Longrightarrow> r = rest"
  shows "length rest < length enc"
  using assms by (auto dest: parse_list_consumes)

lemma decode_withdrawal_consumes:
  "decode_withdrawal enc = Inr (x, rest) \<Longrightarrow> enc \<noteq> [] \<Longrightarrow> length rest < length enc"
  unfolding decode_withdrawal_def by (auto dest: parse_list_consumes)

lemma decode_log_consumes: "decode_log enc = Inr (x, rest) \<Longrightarrow> length rest < length enc"
  unfolding decode_log_def by (erule record_consumes) auto

section \<open>Accounts and withdrawals are exact\<close>

interpretation b32: exact_codec decode_bytes32 encode_bytes32 "\<lambda>_. True"
  by unfold_locales
    (auto simp: bytes32_exact length_encode_bytes32 dest: decode_bytes32_consumes
      arg_cong[where f = length])

text \<open>
  C11: the account codec of the state trie is exact. Decoding gives an account and a storage root
  exactly if the input starts with their encoding. The encoding has no incarnation, so a decoded
  account has the default one.
\<close>

theorem decode_account_inverts_encode:
  "decode_account enc = Inr ((acct, root), rest) \<longleftrightarrow>
     incarnation acct = incarnation default_account \<and> enc = encode_account acct root @ rest"
proof -
  let ?p = "encode_unsigned (nonce acct) @ encode_unsigned (balance acct) @ encode_bytes32 root @
      encode_bytes32 (code_hash acct)"
  have len: "length ?p + 9 < 2 ^ 64"
    using length_unsigned(2)[of "nonce acct"] length_unsigned(3)[of "balance acct"]
    by (simp add: length_encode_bytes32)
  have "decode_account enc = Inr ((acct, root), rest) \<longleftrightarrow>
      incarnation acct = incarnation default_account \<and> parse_list_metadata enc = Inr (?p, rest)"
    by (cases acct)
      (auto simp: decode_account_def unsigned_exact bytes32_exact default_account_def new_account_def)
  then show ?thesis
    unfolding parse_list_exact[OF len] encode_account_def
    by (subst encode_list2_concat) simp
qed

text \<open>An encoding below 4 GiB: every size inside it then is exact in the 32 bits of the encoder.\<close>

definition fits :: "bytes \<Rightarrow> bool" where
  "fits b \<longleftrightarrow> length b < 2 ^ 32"

lemma fits_part:
  "fits (encode_list2 args) \<Longrightarrow> b \<in> set args \<Longrightarrow> fits b"
  using length_encode_list2[of args] member_le_sum_list[of "length b" "map length args"]
  by (simp add: fits_def length_concat)

lemma fits_item: "fits (concat (map enc xs)) \<Longrightarrow> list_all (\<lambda>x. fits (enc x)) xs"
proof -
  assume "fits (concat (map enc xs))"
  moreover have "length (enc x) \<le> length (concat (map enc xs))" if "x \<in> set xs" for x
    using that by (induction xs) auto
  ultimately show ?thesis by (auto simp: fits_def list_all_iff intro: le_less_trans)
qed

lemma fits_size: "fits b \<Longrightarrow> length b + 9 < 2 ^ 64"
  by (simp add: fits_def)

lemma fits_payload: "fits (encode_list2 args) \<Longrightarrow> fits (concat args)"
  using length_encode_list2[of args] by (simp add: fits_def)

lemma fits_string: "fits (encode_string2 s) \<Longrightarrow> fits s"
  using length_encode_string2[of s] by (simp add: fits_def)

lemma fits_list_nonempty: "fits (encode_list2 args) \<Longrightarrow> encode_list2 args \<noteq> []"
  using encode_list2_hd[of args] fits_payload[of args] by (simp add: fits_def)

lemma list_parse_exact:
  assumes "fits (encode_list2 args)"
  shows "parse_list_metadata enc = Inr (concat args, rest) \<longleftrightarrow> enc = encode_list2 args @ rest"
  unfolding parse_list_exact[OF fits_size[OF fits_payload[OF assms]]]
  using encode_list2_concat[of args] by simp

lemma fits_withdrawal: "fits (encode_withdrawal w)"
proof -
  let ?p = "[encode_unsigned (w_index w), encode_unsigned (w_validator_index w),
    encode_address (Some (w_recipient w)), encode_unsigned (w_amount w)]"
  have "length (concat ?p) \<le> 120"
    using length_unsigned(2)[of "w_index w"] length_unsigned(2)[of "w_validator_index w"]
      length_unsigned(2)[of "w_amount w"] length_encode_address[of "Some (w_recipient w)"] by simp
  then show ?thesis using length_encode_list2_le[of ?p] by (simp add: encode_withdrawal_def fits_def)
qed

lemma withdrawal_exact:
  assumes "enc \<noteq> []"
  shows "decode_withdrawal enc = Inr (w, rest) \<longleftrightarrow> enc = encode_withdrawal w @ rest"
proof -
  let ?p = "[encode_unsigned (w_index w), encode_unsigned (w_validator_index w),
    encode_address (Some (w_recipient w)), encode_unsigned (w_amount w)]"
  have "decode_withdrawal enc = Inr (w, rest) \<longleftrightarrow> parse_list_metadata enc = Inr (concat ?p, rest)"
    using assms by (cases w) (auto simp: decode_withdrawal_def unsigned_exact address_exact)
  then show ?thesis
    using list_parse_exact[of ?p] fits_withdrawal[of w] by (simp add: encode_withdrawal_def)
qed

lemma withdrawal_nonempty: "encode_withdrawal w \<noteq> []"
  using fits_list_nonempty fits_withdrawal[of w] by (simp add: encode_withdrawal_def)

interpretation wd: exact_codec decode_withdrawal encode_withdrawal "\<lambda>_. True"
  by unfold_locales (simp_all only: withdrawal_exact withdrawal_nonempty decode_withdrawal_consumes not_False_eq_True)

text \<open>
  C12: withdrawals round trip. The decoder of a block's withdrawals returns a list exactly if the
  input starts with the RLP list of its encodings.
\<close>

theorem decode_withdrawal_list_inverts_encode:
  assumes "fits (concat (map encode_withdrawal ws))"
  shows "decode_withdrawal_list enc = Inr (ws, rest) \<longleftrightarrow>
    enc = encode_list2 [concat (map encode_withdrawal ws)] @ rest"
  unfolding decode_withdrawal_list_def
  using assms by (intro wd.list_exact fits_size) (simp_all add: list_all_iff)

theorem decode_withdrawal_list_inverts_encode_witness:
  "let w = \<lparr>w_index = 1, w_validator_index = 2, w_amount = 3, w_recipient = 4\<rparr>
   in decode_withdrawal_list (encode_list2 [encode_withdrawal w] @ [7]) = Inr ([w], [7])"
proof -
  let ?w = "\<lparr>w_index = 1, w_validator_index = 2, w_amount = 3, w_recipient = 4\<rparr> :: withdrawal"
  have "fits (concat (map encode_withdrawal [?w]))" using fits_withdrawal[of ?w] by simp
  from decode_withdrawal_list_inverts_encode[OF this, of "encode_list2 [encode_withdrawal ?w] @ [7]" "[7]"]
  show ?thesis by simp
qed

section \<open>Receipts are exact\<close>

lemma topics_exact:
  assumes "fits (encode_topics ts)"
  shows "decode_topics enc = Inr (ts, rest) \<longleftrightarrow> enc = encode_topics ts @ rest"
  unfolding decode_topics_def encode_topics_def
  using fits_payload[OF assms[unfolded encode_topics_def]]
  by (intro b32.list_exact fits_size) (simp_all add: list_all_iff)

lemma string_exact: "fits (encode_string2 s) \<Longrightarrow> decode_string enc = Inr (s, rest) \<longleftrightarrow> enc = encode_string2 s @ rest"
  unfolding decode_string_def by (rule parse_string_exact) (drule fits_string, simp add: fits_def)

lemma log_exact:
  assumes "fits (encode_log l)"
  shows "decode_log enc = Inr (l, rest) \<longleftrightarrow> enc = encode_log l @ rest"
proof -
  let ?p = "[encode_address (Some (log_address l)), encode_topics (log_topics l), encode_string2 (log_data l)]"
  have f: "fits (encode_topics (log_topics l))" "fits (encode_string2 (log_data l))"
    using fits_part[of ?p] assms by (simp_all add: encode_log_def)
  have "decode_log enc = Inr (l, rest) \<longleftrightarrow> (\<exists>p p1 p2. parse_list_metadata enc = Inr (p, rest) \<and>
      decode_address p = Inr (log_address l, p1) \<and> decode_topics p1 = Inr (log_topics l, p2) \<and>
      decode_string p2 = Inr (log_data l, []))"
    by (cases l) (auto simp: decode_log_def)
  also have "\<dots> \<longleftrightarrow> parse_list_metadata enc = Inr (concat ?p, rest)"
    by (simp add: address_exact topics_exact[OF f(1)] string_exact[OF f(2)])
  finally show ?thesis
    using list_parse_exact[of ?p] assms by (simp add: encode_log_def)
qed

interpretation lg: exact_codec decode_log encode_log "\<lambda>l. fits (encode_log l)"
proof unfold_locales
  show "encode_log l \<noteq> []" if "fits (encode_log l)" for l
    using fits_list_nonempty that unfolding encode_log_def by blast
qed (simp_all add: log_exact decode_log_consumes)

lemma logs_exact:
  assumes "fits (encode_list2 [concat (map encode_log ls)])"
  shows "decode_logs enc = Inr (ls, rest) \<longleftrightarrow> enc = encode_list2 [concat (map encode_log ls)] @ rest"
proof -
  have "fits (concat (map encode_log ls))" using fits_payload[OF assms] by simp
  then show ?thesis
    unfolding decode_logs_def by (intro lg.list_exact fits_size fits_item)
qed

definition receipt_fields :: "receipt \<Rightarrow> bytes list" where
  "receipt_fields r = [encode_unsigned (r_status r), encode_unsigned (r_gas_used r),
     encode_bloom (r_bloom r), encode_list2 [concat (map encode_log (r_logs r))]]"

lemma encode_receipt_eq:
  "encode_receipt r =
     (if r_type r = legacy then [] else [tx_type_byte (r_type r)]) @ encode_list2 (receipt_fields r)"
  by (cases "r_type r") (simp_all add: encode_receipt_def receipt_fields_def Let_def)

lemma untyped_receipt_exact:
  assumes "fits (encode_list2 (receipt_fields r))" "length (r_bloom r) = 256"
  shows "decode_untyped_receipt enc = Inr (r, rest) \<longleftrightarrow>
    r_type r = legacy \<and> enc = encode_list2 (receipt_fields r) @ rest"
proof -
  have f: "fits (encode_list2 [concat (map encode_log (r_logs r))])"
    using fits_part[OF assms(1)] by (simp add: receipt_fields_def)
  have bloom: "decode_bloom p = Inr (r_bloom r, q) \<longleftrightarrow> p = encode_bloom (r_bloom r) @ q" for p q
    using assms(2) by (simp add: decode_bloom_def encode_bloom_def fixed_exact)
  have "decode_untyped_receipt enc = Inr (r, rest) \<longleftrightarrow> r_type r = legacy \<and>
      (\<exists>p p1 p2 p3. parse_list_metadata enc = Inr (p, rest) \<and> decode_unsigned p = Inr (r_status r, p1) \<and>
        decode_unsigned p1 = Inr (r_gas_used r, p2) \<and> decode_bloom p2 = Inr (r_bloom r, p3) \<and>
        decode_logs p3 = Inr (r_logs r, []))"
    by (cases r) (auto simp: decode_untyped_receipt_def)
  also have "\<dots> \<longleftrightarrow> r_type r = legacy \<and> parse_list_metadata enc = Inr (concat (receipt_fields r), rest)"
    by (simp add: unsigned_exact bloom logs_exact[OF f] receipt_fields_def)
  finally show ?thesis by (simp only: list_parse_exact[OF assms(1)])
qed

lemma untyped_receipt_legacy: "decode_untyped_receipt enc = Inr (u, rest) \<Longrightarrow> r_type u = legacy"
  by (auto simp: decode_untyped_receipt_def)

lemma decode_receipt_cases:
  "decode_receipt (b # t) = Inr (r, rest) \<longleftrightarrow>
     (if b < 0xc0
      then r_type r \<noteq> legacy \<and> b = tx_type_byte (r_type r) \<and>
        decode_untyped_receipt t = Inr (r\<lparr>r_type := legacy\<rparr>, rest)
      else r_type r = legacy \<and> decode_untyped_receipt (b # t) = Inr (r, rest))"
proof (cases "b < 0xc0")
  case True
  show ?thesis
  proof (cases "decode_untyped_receipt t")
    case (Inr ur)
    obtain u q where ur: "ur = (u, q)" by fastforce
    have "r_type u = legacy" using untyped_receipt_legacy Inr ur by simp
    then show ?thesis using True Inr ur
      by (cases r, cases u, cases "r_type r") (auto simp: decode_receipt_def Let_def split: if_splits)
  qed (simp add: decode_receipt_def True)
next
  case False
  have "u\<lparr>r_type := legacy\<rparr> = u" if "decode_untyped_receipt (b # t) = Inr (u, q)" for u q
    using untyped_receipt_legacy[OF that] by simp
  then show ?thesis using False untyped_receipt_legacy
    by (cases "decode_untyped_receipt (b # t)") (auto simp: decode_receipt_def)
qed

text \<open>
  C13: receipts of every transaction type round trip, and the decoder accepts no other encoding of a
  receipt. The bloom filter of a receipt has 256 bytes by its type.
\<close>

theorem decode_receipt_inverts_encode:
  assumes "fits (encode_receipt r)" "length (r_bloom r) = 256"
  shows "decode_receipt enc = Inr (r, rest) \<longleftrightarrow> enc = encode_receipt r @ rest"
proof -
  let ?l = "encode_list2 (receipt_fields r)"
  have f: "fits ?l" using assms(1) by (simp add: encode_receipt_eq fits_def split: if_splits)
  obtain h t' where l: "?l = h # t'" "h \<ge> 0xc0"
    using encode_list2_hd[of "receipt_fields r"] fits_payload[OF f]
    by (cases ?l) (simp_all add: fits_def)
  have same: "receipt_fields (r\<lparr>r_type := legacy\<rparr>) = receipt_fields r" by (simp add: receipt_fields_def)
  have byte: "tx_type_byte ty < 0xc0" for ty by (cases ty) simp_all
  show ?thesis
  proof (cases enc)
    case Nil
    then show ?thesis using l by (simp add: decode_receipt_def encode_receipt_eq)
  next
    case (Cons b t)
    have u: "decode_untyped_receipt t = Inr (r\<lparr>r_type := legacy\<rparr>, rest) \<longleftrightarrow> t = ?l @ rest"
      using untyped_receipt_exact[of "r\<lparr>r_type := legacy\<rparr>" t rest] f assms(2) by (simp add: same)
    show ?thesis
      unfolding Cons decode_receipt_cases u
      using untyped_receipt_exact[OF f assms(2), of "b # t" rest] byte[of "r_type r"] l
      by (auto simp: encode_receipt_eq not_less)
  qed
qed

definition example_receipt :: receipt where
  "example_receipt = \<lparr>r_bloom = replicate 256 0, r_status = 1, r_gas_used = 21000, r_type = eip1559, r_logs = []\<rparr>"

theorem decode_receipt_inverts_encode_witness:
  "decode_receipt (encode_receipt example_receipt) = Inr (example_receipt, [])"
proof -
  let ?f = "receipt_fields example_receipt"
  have e: "encode_list2 [[]] = [0xc0]" by (simp add: encode_list2_def)
  have "length (encode_string2 (replicate 256 0)) \<le> 265"
    using length_to_big_compact[of "256 :: u64"] by (subst encode_string2_eq) simp_all
  then have "length (concat ?f) \<le> 400"
    using length_unsigned(2)[of "1"] length_unsigned(2)[of 21000]
    by (simp add: receipt_fields_def example_receipt_def encode_bloom_def e)
  then have "fits (encode_receipt example_receipt)"
    using length_encode_list2_le[of ?f] by (simp add: encode_receipt_eq fits_def)
  moreover have "length (r_bloom example_receipt) = 256" by (simp add: example_receipt_def)
  ultimately show ?thesis using decode_receipt_inverts_encode[of example_receipt _ "[]"] by simp
qed

end
