(* ===== verification/Rlp_Tx.thy ===== *)
theory Rlp_Tx
  imports Rlp_Types
begin

text \<open>
  The RLP codec of transactions, \<open>category/execution/ethereum/core/rlp/transaction_rlp.cpp\<close> and
  \<open>signature_rlp.cpp\<close>: legacy transactions as a list, typed ones as a type byte and a list
  (EIP-2718), with access lists, blob hashes and authorizations. A failed assertion of an encoder is
  an exception value, one of a decoder is \<open>RlpAbort\<close>.
\<close>

section \<open>Encoding\<close>

definition encode_access_entry :: "access_entry \<Rightarrow> bytes" where
  "encode_access_entry e =
     encode_list2 [encode_address (Some (ae_a e)) @ encode_list2 [concat (map encode_bytes32 (ae_keys e))]]"

definition encode_access_list :: "access_entry list \<Rightarrow> bytes" where
  "encode_access_list entries = encode_list2 [concat (map encode_access_entry entries)]"

definition encode_authorization_entry_for_signing :: "authorization_entry \<Rightarrow> bytes res" where
  "encode_authorization_entry_for_signing e =
     (case sc_chain_id (au_sc e) of
        None \<Rightarrow> Inl AssertFail
      | Some c \<Rightarrow>
          Inr (0x05 # encode_list2 [encode_unsigned c @ encode_address (Some (au_address e)) @
                 encode_unsigned (au_nonce e)]))"

definition encode_authorization_entry :: "authorization_entry \<Rightarrow> bytes res" where
  "encode_authorization_entry e =
     (case sc_chain_id (au_sc e) of
        None \<Rightarrow> Inl AssertFail
      | Some c \<Rightarrow>
          Inr (encode_list2 [encode_unsigned c, encode_address (Some (au_address e)),
            encode_unsigned (au_nonce e), encode_unsigned (y_parity (signature (au_sc e))),
            encode_unsigned (sig_r (signature (au_sc e))), encode_unsigned (sig_s (signature (au_sc e)))]))"

primrec encode_authorization_entries :: "authorization_entry list \<Rightarrow> bytes res" where
  "encode_authorization_entries [] = Inr []"
| "encode_authorization_entries (e # es) =
     Try (encode_authorization_entry e) (\<lambda>b.
     Try (encode_authorization_entries es) (\<lambda>bs. Inr (b @ bs)))"

definition encode_authorization_list :: "authorization_entry list \<Rightarrow> bytes res" where
  "encode_authorization_list auth_list =
     Try (encode_authorization_entries auth_list) (\<lambda>b. Inr (encode_list2 [b]))"

definition encode_legacy_base :: "transaction \<Rightarrow> bytes" where
  "encode_legacy_base txn =
     encode_unsigned (tx_nonce txn) @ encode_unsigned (max_fee_per_gas txn) @
     encode_unsigned (tx_gas_limit txn) @ encode_address (tx_to txn) @
     encode_unsigned (tx_value txn) @ encode_string2 (tx_data txn)"

definition has_priority_fee :: "TransactionType \<Rightarrow> bool" where
  "has_priority_fee ty \<longleftrightarrow> ty = eip1559 \<or> ty = eip4844 \<or> ty = eip7702"

definition encode_eip2718_base :: "transaction \<Rightarrow> bytes res" where
  "encode_eip2718_base txn =
     Try (if tx_type txn = eip7702 then encode_authorization_list (authorization_list txn) else Inr [])
       (\<lambda>auths.
     Inr (encode_unsigned (case sc_chain_id (tx_sc txn) of Some c \<Rightarrow> c | None \<Rightarrow> 0) @
       encode_unsigned (tx_nonce txn) @
       (if has_priority_fee (tx_type txn) then encode_unsigned (max_priority_fee_per_gas txn) else []) @
       encode_unsigned (max_fee_per_gas txn) @ encode_unsigned (tx_gas_limit txn) @
       encode_address (tx_to txn) @ encode_unsigned (tx_value txn) @ encode_string2 (tx_data txn) @
       encode_access_list (access_list txn) @
       (if tx_type txn = eip4844
        then encode_unsigned (max_fee_per_blob_gas txn) @
          encode_list2 [concat (map encode_bytes32 (blob_versioned_hashes txn))]
        else []) @
       auths))"

definition encode_transaction :: "transaction \<Rightarrow> bytes res" where
  "encode_transaction txn =
     (let sg = signature (tx_sc txn) in
      if tx_type txn = legacy then
        Try (get_v (tx_sc txn)) (\<lambda>v.
          Inr (encode_list2 [encode_legacy_base txn, encode_unsigned v, encode_unsigned (sig_r sg),
                 encode_unsigned (sig_s sg)]))
      else
        Try (encode_eip2718_base txn) (\<lambda>base.
          Inr (tx_type_byte (tx_type txn) # encode_list2 [base, encode_unsigned (y_parity sg),
                 encode_unsigned (sig_r sg), encode_unsigned (sig_s sg)])))"

definition encode_transaction_for_signing :: "transaction \<Rightarrow> bytes res" where
  "encode_transaction_for_signing txn =
     (if tx_type txn = legacy then
        (case sc_chain_id (tx_sc txn) of
           Some c \<Rightarrow> Inr (encode_list2 [encode_legacy_base txn, encode_unsigned c,
                      encode_unsigned (0 :: u32), encode_unsigned (0 :: u32)])
         | None \<Rightarrow> Inr (encode_list2 [encode_legacy_base txn]))
      else
        Try (encode_eip2718_base txn) (\<lambda>base.
          Inr (tx_type_byte (tx_type txn) # encode_list2 [base])))"

section \<open>Decoding\<close>

text \<open>\<open>Transaction txn;\<close> and \<open>SignatureAndChain sc;\<close>, all members value-initialised.\<close>

definition default_sc :: signature_and_chain where
  "default_sc = \<lparr>signature = \<lparr>sig_r = 0, sig_s = 0, y_parity = 0\<rparr>, sc_chain_id = None\<rparr>"

definition default_transaction :: transaction where
  "default_transaction = \<lparr>tx_sc = default_sc, tx_nonce = 0, max_fee_per_gas = 0, tx_gas_limit = 0,
     tx_value = 0, tx_to = None, tx_type = legacy, tx_data = [], access_list = [],
     max_priority_fee_per_gas = 0, max_fee_per_blob_gas = 0, blob_versioned_hashes = [],
     authorization_list = []\<rparr>"

definition decode_sc :: "signature_and_chain decoder" where
  "decode_sc enc = Try (decode_unsigned enc) (\<lambda>(v, rest). Inr (from_v v default_sc, rest))"

definition decode_access_entry_keys :: "bytes32 list decoder" where
  "decode_access_entry_keys enc =
     Try (parse_list_metadata enc) (\<lambda>(payload, rest).
     Try (decode_items decode_bytes32 payload) (\<lambda>keys'.
       if length payload = length keys' * 33 then Inr (keys', rest) else Inl RlpAbort))"

definition decode_access_entry :: "access_entry decoder" where
  "decode_access_entry enc =
     Try (parse_list_metadata enc) (\<lambda>(payload, rest).
     Try (decode_address payload) (\<lambda>(a, payload).
     Try (decode_access_entry_keys payload) (\<lambda>(keys', payload).
       expect_end payload \<lparr>ae_a = a, ae_keys = keys'\<rparr> rest)))"

definition decode_access_list :: "access_entry list decoder" where
  "decode_access_list enc =
     Try (parse_list_metadata enc) (\<lambda>(payload, rest).
     Try (decode_items decode_access_entry payload) (\<lambda>es. Inr (es, rest)))"

definition decode_authorization_entry :: "authorization_entry decoder" where
  "decode_authorization_entry enc =
     Try (parse_list_metadata enc) (\<lambda>(payload, rest).
     Try (decode_unsigned payload) (\<lambda>(c, payload).
     Try (decode_address payload) (\<lambda>(a, payload).
     Try (decode_unsigned payload) (\<lambda>(n, payload).
     Try (decode_unsigned payload) (\<lambda>(y, payload).
     Try (decode_unsigned payload) (\<lambda>(r, payload).
     Try (decode_unsigned payload) (\<lambda>(s, payload).
       expect_end payload
         \<lparr>au_sc = \<lparr>signature = \<lparr>sig_r = r, sig_s = s, y_parity = y\<rparr>, sc_chain_id = Some c\<rparr>,
          au_address = a, au_nonce = n\<rparr> rest)))))))"

definition decode_authorization_list :: "authorization_entry list decoder" where
  "decode_authorization_list enc =
     Try (parse_list_metadata enc) (\<lambda>(payload, rest).
     Try (decode_items decode_authorization_entry payload) (\<lambda>es. Inr (es, rest)))"

definition decode_transaction_legacy :: "transaction decoder" where
  "decode_transaction_legacy enc =
     Try (parse_list_metadata enc) (\<lambda>(payload, rest).
     Try (decode_unsigned payload) (\<lambda>(n, payload).
     Try (decode_unsigned payload) (\<lambda>(fee, payload).
     Try (decode_unsigned payload) (\<lambda>(limit, payload).
     Try (decode_optional_address payload) (\<lambda>(to, payload).
     Try (decode_unsigned payload) (\<lambda>(v, payload).
     Try (decode_string payload) (\<lambda>(d, payload).
     Try (decode_sc payload) (\<lambda>(sc, payload).
     Try (decode_unsigned payload) (\<lambda>(r, payload).
     Try (decode_unsigned payload) (\<lambda>(s, payload).
       expect_end payload
         (default_transaction\<lparr>tx_type := legacy, tx_nonce := n, max_fee_per_gas := fee,
            tx_gas_limit := limit, tx_to := to, tx_value := v, tx_data := d,
            tx_sc := sc\<lparr>signature := (signature sc)\<lparr>sig_r := r, sig_s := s\<rparr>\<rparr>\<rparr>) rest))))))))))"

text \<open>\<open>static_cast<TransactionType>(enc[0])\<close> of a byte below \<open>LAST\<close>.\<close>

definition tx_type_of_byte :: "u8 \<Rightarrow> TransactionType" where
  "tx_type_of_byte b =
     (if b = 0 then legacy else if b = 1 then eip2930 else if b = 2 then eip1559
      else if b = 3 then eip4844 else eip7702)"

text \<open>The three steps of the decoder that depend on the type; without them the member keeps its default.\<close>

definition decode_priority_fee :: "TransactionType \<Rightarrow> u256 decoder" where
  "decode_priority_fee ty payload =
     (if has_priority_fee ty then decode_unsigned payload else Inr (0, payload))"

definition decode_blob_fields :: "TransactionType \<Rightarrow> address option \<Rightarrow> (u256 \<times> bytes32 list) decoder" where
  "decode_blob_fields ty to payload =
     (if ty = eip4844 then
        if to = None then Inl (DecodeError InputTooShort)
        else
          Try (decode_unsigned payload) (\<lambda>(fee, payload).
          Try (parse_list_metadata payload) (\<lambda>(hashes_payload, payload).
          Try (decode_items decode_bytes32 hashes_payload) (\<lambda>hs. Inr ((fee, hs), payload))))
      else Inr ((0, []), payload))"

definition decode_authorizations ::
  "TransactionType \<Rightarrow> address option \<Rightarrow> authorization_entry list decoder" where
  "decode_authorizations ty to payload =
     (if ty = eip7702 then
        if to = None then Inl (DecodeError InputTooShort) else decode_authorization_list payload
      else Inr ([], payload))"

definition decode_transaction_eip2718 :: "transaction decoder" where
  "decode_transaction_eip2718 enc =
     (if enc = [] then Inl RlpAbort
      else if hd enc \<ge> 5 then Inl (DecodeError InvalidTxnType)
      else
        (let ty = tx_type_of_byte (hd enc) in
         Try (parse_list_metadata (drop 1 enc)) (\<lambda>(payload, rest).
         Try (decode_unsigned payload) (\<lambda>(c, payload).
         Try (decode_unsigned payload) (\<lambda>(n, payload).
         Try (decode_priority_fee ty payload) (\<lambda>(prio, payload).
         Try (decode_unsigned payload) (\<lambda>(fee, payload).
         Try (decode_unsigned payload) (\<lambda>(limit, payload).
         Try (decode_optional_address payload) (\<lambda>(to, payload).
         Try (decode_unsigned payload) (\<lambda>(v, payload).
         Try (decode_string payload) (\<lambda>(d, payload).
         Try (decode_access_list payload) (\<lambda>(al, payload).
         Try (decode_blob_fields ty to payload) (\<lambda>((blob_fee, hashes), payload).
         Try (decode_authorizations ty to payload) (\<lambda>(auths, payload).
         Try (decode_unsigned payload) (\<lambda>(y, payload).
         Try (decode_unsigned payload) (\<lambda>(r, payload).
         Try (decode_unsigned payload) (\<lambda>(s, payload).
           if payload \<noteq> [] \<or> rest \<noteq> [] then Inl (DecodeError InputTooLong)
           else Inr (\<lparr>tx_sc = \<lparr>signature = \<lparr>sig_r = r, sig_s = s, y_parity = y\<rparr>, sc_chain_id = Some c\<rparr>,
             tx_nonce = n, max_fee_per_gas = fee, tx_gas_limit = limit, tx_value = v, tx_to = to,
             tx_type = ty, tx_data = d, access_list = al, max_priority_fee_per_gas = prio,
             max_fee_per_blob_gas = blob_fee, blob_versioned_hashes = hashes,
             authorization_list = auths\<rparr>, rest))))))))))))))))))"

definition decode_transaction :: "transaction decoder" where
  "decode_transaction enc =
     (if enc = [] then Inl (DecodeError InputTooShort)
      else if hd enc \<ge> 0xc0 then decode_transaction_legacy enc
      else decode_transaction_eip2718 enc)"

text \<open>One turn of the loop of \<open>decode_transaction_list\<close>, without the optional raw copies.\<close>

definition decode_list_transaction :: "transaction decoder" where
  "decode_list_transaction ls =
     (if hd ls \<ge> 0xc0 then decode_transaction_legacy ls
      else
        Try (parse_string_metadata ls) (\<lambda>(str, ls).
        Try (decode_transaction_eip2718 str) (\<lambda>(tx, _). Inr (tx, ls))))"

definition decode_transaction_list :: "transaction list decoder" where
  "decode_transaction_list enc =
     Try (parse_list_metadata enc) (\<lambda>(ls, rest).
     Try (decode_items decode_list_transaction ls) (\<lambda>txs. Inr (txs, rest)))"

section \<open>Progress\<close>

lemma decode_access_entry_consumes:
  "decode_access_entry enc = Inr (x, rest) \<Longrightarrow> length rest < length enc"
  unfolding decode_access_entry_def by (erule record_consumes) auto

lemma decode_authorization_entry_consumes:
  "decode_authorization_entry enc = Inr (x, rest) \<Longrightarrow> length rest < length enc"
  unfolding decode_authorization_entry_def by (erule record_consumes) auto

lemma decode_transaction_legacy_consumes:
  "decode_transaction_legacy enc = Inr (x, rest) \<Longrightarrow> length rest < length enc"
  unfolding decode_transaction_legacy_def by (erule record_consumes) auto

lemma decode_list_transaction_consumes:
  "decode_list_transaction enc = Inr (x, rest) \<Longrightarrow> length rest < length enc"
  by (auto simp: decode_list_transaction_def split: if_splits
      dest: decode_transaction_legacy_consumes parse_string_consumes)

section \<open>The recovery value of a legacy signature\<close>

lemma bit_pair:
  fixes c :: u256
  assumes "unat c < 2 ^ 255" "y = 0 \<or> y = 1"
  shows "(2 * c + y) AND 1 = y" "drop_bit 1 (2 * c) = c" "y = 1 \<Longrightarrow> (2 * c + y) XOR 1 = 2 * c"
proof -
  show "(2 * c + y) AND 1 = y" using assms(2) by (auto simp: and_one_eq mod_2_eq_odd)
  show "y = 1 \<Longrightarrow> (2 * c + y) XOR 1 = 2 * c" by (simp add: xor_one_eq)
  have "unat (2 * c) = 2 * unat c" using assms(1) by (simp add: unat_word_ariths)
  then show "drop_bit 1 (2 * c) = c"
    by (simp add: drop_bit_eq_div word_unat_eq_iff unat_div)
qed

lemma max_chain_id_bound: "c \<le> max_chain_id \<Longrightarrow> unat c \<le> 2 ^ 255 - 19"
proof -
  assume "c \<le> max_chain_id"
  then have "unat c \<le> unat max_chain_id" by (simp add: word_le_nat_alt)
  moreover have "unat max_chain_id = 2 ^ 255 - 19" by (simp add: max_chain_id_def)
  ultimately show ?thesis by simp
qed

lemma from_v_get_v:
  assumes v: "get_v sc = Inr v" and y: "y_parity (signature sc) \<le> 1"
  shows "(from_v v default_sc)\<lparr>signature := (signature (from_v v default_sc))
    \<lparr>sig_r := sig_r (signature sc), sig_s := sig_s (signature sc)\<rparr>\<rparr> = sc"
proof -
  obtain r s p where sg: "signature sc = \<lparr>sig_r = r, sig_s = s, y_parity = p\<rparr>" by (cases "signature sc")
  have p: "p = 0 \<or> p = 1" using y sg by (simp add: word_le_nat_alt word_unat_eq_iff) linarith
  show ?thesis
  proof (cases "sc_chain_id sc")
    case None
    then have "v = (if p \<noteq> 0 then 28 else 27)" using v sg by (simp add: get_v_def)
    then show ?thesis using p sg None
      by (cases sc) (auto simp: from_v_def default_sc_def)
  next
    case (Some c)
    let ?y = "ucast p :: u256"
    have c: "c \<le> max_chain_id" and v': "v = c * 2 + 35 + ?y"
      using v sg Some by (auto simp: get_v_def MONAD_ASSERT_THROW_def split: if_splits)
    have b: "unat c \<le> 2 ^ 255 - 19" by (rule max_chain_id_bound[OF c])
    have y: "?y = 0 \<or> ?y = 1" "?y = 1 \<longleftrightarrow> p = 1" using p by auto
    have yu: "unat ?y \<le> 1" using y by auto
    have "unat v = unat c * 2 + 35 + unat ?y"
      unfolding v' using b yu by (simp add: unat_word_ariths)
    then have big: "v \<noteq> 27" "v \<noteq> 28" by auto
    have t: "v - 35 = 2 * c + ?y" unfolding v' by simp
    have "unat c < 2 ^ 255" using b by simp
    note bp = bit_pair[OF this y(1)]
    show ?thesis
      using p
    proof
      assume "p = 0"
      then show ?thesis using sg Some big bp
        by (cases sc) (simp add: from_v_def t default_sc_def)
    next
      assume "p = 1"
      then show ?thesis using sg Some big bp
        by (cases sc) (simp add: from_v_def t default_sc_def)
    qed
  qed
qed

lemma word_halves: "drop_bit 1 x * 2 + (x AND 1) = (x :: u256)"
  using div_mult_mod_eq[of x 2] by (simp only: drop_bit_eq_div and_one_eq power_one_right)

lemma drop_bit_flip: "drop_bit 1 (x XOR 1) = drop_bit 1 (x :: u256)"
  by (rule bit_eqI) (simp add: bit_simps)

lemma and_one_cases: "x AND 1 = 0 \<or> x AND 1 = (1 :: u256)"
  by (simp add: and_one_eq mod_2_eq_odd)

lemma from_v_chain:
  assumes "v \<noteq> 27" "v \<noteq> 28"
  shows "sc_chain_id (from_v v default_sc) = Some (drop_bit 1 (v - 35)) \<and>
    ucast (y_parity (signature (from_v v default_sc))) = (v - 35) AND 1"
proof (cases "(v - 35) AND 1 = 0")
  case True
  then show ?thesis using assms by (simp add: from_v_def Let_def default_sc_def)
next
  case False
  then have "(v - 35) AND 1 = 1" using and_one_cases by blast
  then show ?thesis
    unfolding from_v_def Let_def using assms by (simp only: drop_bit_flip) (simp add: default_sc_def)
qed

lemma get_v_from_v:
  assumes "get_v ((from_v v default_sc)\<lparr>signature := (signature (from_v v default_sc))\<lparr>sig_r := r, sig_s := s\<rparr>\<rparr>) = Inr v'"
  shows "v' = v"
proof (cases "v = 27 \<or> v = 28")
  case True
  then show ?thesis using assms by (auto simp: from_v_def get_v_def default_sc_def)
next
  case False
  with from_v_chain[of v] have "v' = drop_bit 1 (v - 35) * 2 + 35 + ((v - 35) AND 1)"
    using assms by (simp add: get_v_def MONAD_ASSERT_THROW_def split: if_splits)
  also have "\<dots> = (drop_bit 1 (v - 35) * 2 + ((v - 35) AND 1)) + 35"
    by (simp only: add.assoc add.commute add.left_commute)
  finally show ?thesis unfolding word_halves by simp
qed

section \<open>Access lists and authorizations\<close>

lemma length_encoded_keys: "length (concat (map encode_bytes32 ks)) = length ks * 33"
  by (induction ks) (simp_all add: length_encode_bytes32)

lemma keys_exact:
  assumes "fits (encode_list2 [concat (map encode_bytes32 ks)])"
  shows "decode_access_entry_keys enc = Inr (ks, rest) \<longleftrightarrow>
    enc = encode_list2 [concat (map encode_bytes32 ks)] @ rest"
proof -
  have all: "list_all (\<lambda>_. True) ks" by (simp add: list_all_iff)
  have "decode_access_entry_keys enc = Inr (ks, rest) \<longleftrightarrow> (\<exists>p. parse_list_metadata enc = Inr (p, rest) \<and>
      decode_items decode_bytes32 p = Inr ks \<and> length p = length ks * 33)"
    by (auto simp: decode_access_entry_keys_def split: if_splits)
  also have "\<dots> \<longleftrightarrow> parse_list_metadata enc = Inr (concat (map encode_bytes32 ks), rest)"
    unfolding b32.decode_items_exact[OF all] using length_encoded_keys[of ks] by auto
  finally show ?thesis using list_parse_exact[OF assms, of enc rest] by simp
qed

lemma access_entry_exact:
  assumes "fits (encode_access_entry e)"
  shows "decode_access_entry enc = Inr (e, rest) \<longleftrightarrow> enc = encode_access_entry e @ rest"
proof -
  let ?k = "encode_list2 [concat (map encode_bytes32 (ae_keys e))]"
  let ?p = "[encode_address (Some (ae_a e)) @ ?k]"
  have "fits (encode_address (Some (ae_a e)) @ ?k)"
    using fits_part[of ?p] assms by (simp add: encode_access_entry_def)
  then have f: "fits ?k" by (simp add: fits_def)
  have "decode_access_entry enc = Inr (e, rest) \<longleftrightarrow> (\<exists>p p1. parse_list_metadata enc = Inr (p, rest) \<and>
      decode_address p = Inr (ae_a e, p1) \<and> decode_access_entry_keys p1 = Inr (ae_keys e, []))"
    by (cases e) (auto simp: decode_access_entry_def)
  also have "\<dots> \<longleftrightarrow> parse_list_metadata enc = Inr (concat ?p, rest)"
    by (simp add: address_exact keys_exact[OF f])
  finally show ?thesis using list_parse_exact[of ?p] assms by (simp add: encode_access_entry_def)
qed

interpretation ae: exact_codec decode_access_entry encode_access_entry "\<lambda>e. fits (encode_access_entry e)"
proof unfold_locales
  show "encode_access_entry e \<noteq> []" if "fits (encode_access_entry e)" for e
    using fits_list_nonempty that unfolding encode_access_entry_def by blast
qed (simp_all add: access_entry_exact decode_access_entry_consumes)

lemma access_list_exact:
  assumes "fits (encode_access_list es)"
  shows "decode_access_list enc = Inr (es, rest) \<longleftrightarrow> enc = encode_access_list es @ rest"
proof -
  have "fits (concat (map encode_access_entry es))"
    using fits_payload assms unfolding encode_access_list_def by fastforce
  then show ?thesis
    unfolding decode_access_list_def encode_access_list_def
    by (intro ae.list_exact fits_size fits_item)
qed

text \<open>The encoding of an authorization with a chain id; the encoder asserts that there is one.\<close>

definition authorization_fields :: "authorization_entry \<Rightarrow> bytes list" where
  "authorization_fields e =
     [encode_unsigned (case sc_chain_id (au_sc e) of Some c \<Rightarrow> c | None \<Rightarrow> 0),
      encode_address (Some (au_address e)), encode_unsigned (au_nonce e),
      encode_unsigned (y_parity (signature (au_sc e))), encode_unsigned (sig_r (signature (au_sc e))),
      encode_unsigned (sig_s (signature (au_sc e)))]"

abbreviation authorization_bytes :: "authorization_entry \<Rightarrow> bytes" where
  "authorization_bytes e \<equiv> encode_list2 (authorization_fields e)"

lemma encode_authorization_entries_eq:
  "encode_authorization_entries es =
     (if list_all (\<lambda>e. sc_chain_id (au_sc e) \<noteq> None) es
      then Inr (concat (map authorization_bytes es)) else Inl AssertFail)"
  by (induction es) (auto simp: encode_authorization_entry_def authorization_fields_def split: option.split)

lemma authorization_entry_exact:
  assumes "fits (authorization_bytes e)" "sc_chain_id (au_sc e) \<noteq> None"
  shows "decode_authorization_entry enc = Inr (e, rest) \<longleftrightarrow> enc = authorization_bytes e @ rest"
proof -
  obtain c where c: "sc_chain_id (au_sc e) = Some c" using assms(2) by blast
  let ?s = "signature (au_sc e)"
  have "decode_authorization_entry enc = Inr (e, rest) \<longleftrightarrow> (\<exists>p p1 p2 p3 p4 p5.
      parse_list_metadata enc = Inr (p, rest) \<and> decode_unsigned p = Inr (c, p1) \<and>
      decode_address p1 = Inr (au_address e, p2) \<and> decode_unsigned p2 = Inr (au_nonce e, p3) \<and>
      decode_unsigned p3 = Inr (y_parity ?s, p4) \<and> decode_unsigned p4 = Inr (sig_r ?s, p5) \<and>
      decode_unsigned p5 = Inr (sig_s ?s, []))"
    using c by (cases e, cases "au_sc e", cases "signature (au_sc e)") (auto simp: decode_authorization_entry_def)
  also have "\<dots> \<longleftrightarrow> parse_list_metadata enc = Inr (concat (authorization_fields e), rest)"
    by (simp add: unsigned_exact address_exact authorization_fields_def c)
  finally show ?thesis by (simp only: list_parse_exact[OF assms(1)])
qed

interpretation au: exact_codec decode_authorization_entry authorization_bytes
  "\<lambda>e. fits (authorization_bytes e) \<and> sc_chain_id (au_sc e) \<noteq> None"
  by unfold_locales
    (auto simp: authorization_entry_exact decode_authorization_entry_consumes fits_list_nonempty
      simp del: not_None_eq)

lemma authorization_list_exact:
  assumes "encode_authorization_list es = Inr b" "fits b"
  shows "decode_authorization_list enc = Inr (es, rest) \<longleftrightarrow> enc = b @ rest"
proof -
  have all: "list_all (\<lambda>e. sc_chain_id (au_sc e) \<noteq> None) es" "b = encode_list2 [concat (map authorization_bytes es)]"
    using assms(1) by (auto simp: encode_authorization_list_def encode_authorization_entries_eq split: if_splits)
  have f: "fits (concat (map authorization_bytes es))" using fits_payload assms(2) all(2) by fastforce
  have "list_all (\<lambda>e. fits (authorization_bytes e) \<and> sc_chain_id (au_sc e) \<noteq> None) es"
    using fits_item[OF f] all(1) by (simp add: list_all_iff)
  then show ?thesis
    unfolding decode_authorization_list_def all(2) using fits_size[OF f] by (rule au.list_exact)
qed

section \<open>Transactions\<close>

text \<open>
  The fields that the encoding of a type does not carry have their default values, and a typed
  transaction has a chain id.
\<close>

definition tx_canonical :: "transaction \<Rightarrow> bool" where
  "tx_canonical tx \<longleftrightarrow>
     (if tx_type tx = legacy then access_list tx = [] \<and> y_parity (signature (tx_sc tx)) \<le> 1
      else sc_chain_id (tx_sc tx) \<noteq> None) \<and>
     (\<not> has_priority_fee (tx_type tx) \<longrightarrow> max_priority_fee_per_gas tx = 0) \<and>
     (tx_type tx \<noteq> eip4844 \<longrightarrow> max_fee_per_blob_gas tx = 0 \<and> blob_versioned_hashes tx = []) \<and>
     (tx_type tx \<noteq> eip7702 \<longrightarrow> authorization_list tx = []) \<and>
     (tx_type tx = eip4844 \<or> tx_type tx = eip7702 \<longrightarrow> tx_to tx \<noteq> None)"

lemma legacy_exact:
  assumes t: "tx_type tx = legacy" "tx_canonical tx" and e: "encode_transaction tx = Inr b" and f: "fits b"
  shows "decode_transaction_legacy enc = Inr (tx, rest) \<longleftrightarrow> enc = b @ rest"
proof -
  let ?s = "signature (tx_sc tx)"
  obtain v where v: "get_v (tx_sc tx) = Inr v"
    and b: "b = encode_list2 [encode_legacy_base tx, encode_unsigned v, encode_unsigned (sig_r ?s), encode_unsigned (sig_s ?s)]"
    using e t by (auto simp: encode_transaction_def Let_def)
  have y: "y_parity ?s \<le> 1" using t by (simp add: tx_canonical_def)
  have "fits (encode_legacy_base tx)" using fits_part f b by fastforce
  then have d: "fits (encode_string2 (tx_data tx))" by (simp add: encode_legacy_base_def fits_def)
  have tx: "default_transaction\<lparr>tx_type := legacy, tx_nonce := tx_nonce tx, max_fee_per_gas := max_fee_per_gas tx,
      tx_gas_limit := tx_gas_limit tx, tx_to := tx_to tx, tx_value := tx_value tx, tx_data := tx_data tx,
      tx_sc := tx_sc tx\<rparr> = tx"
    using t by (cases tx) (simp add: default_transaction_def tx_canonical_def has_priority_fee_def)
  have "decode_transaction_legacy enc = Inr (tx, rest) \<longleftrightarrow> (\<exists>p p1 p2 p3 p4 p5 p6 p7 p8 v'.
      parse_list_metadata enc = Inr (p, rest) \<and> decode_unsigned p = Inr (tx_nonce tx, p1) \<and>
      decode_unsigned p1 = Inr (max_fee_per_gas tx, p2) \<and> decode_unsigned p2 = Inr (tx_gas_limit tx, p3) \<and>
      decode_optional_address p3 = Inr (tx_to tx, p4) \<and> decode_unsigned p4 = Inr (tx_value tx, p5) \<and>
      decode_string p5 = Inr (tx_data tx, p6) \<and> decode_unsigned p6 = Inr (v', p7) \<and>
      decode_unsigned p7 = Inr (sig_r ?s, p8) \<and> decode_unsigned p8 = Inr (sig_s ?s, []) \<and> v' = v)"
    (is "_ \<longleftrightarrow> ?R")
  proof
    assume "decode_transaction_legacy enc = Inr (tx, rest)"
    then show ?R
      using v by (auto simp: decode_transaction_legacy_def decode_sc_def dest: get_v_from_v)
  next
    assume ?R
    then show "decode_transaction_legacy enc = Inr (tx, rest)"
      using from_v_get_v[OF v y] tx by (auto simp: decode_transaction_legacy_def decode_sc_def)
  qed
  also have "\<dots> \<longleftrightarrow> parse_list_metadata enc = Inr (concat [encode_legacy_base tx, encode_unsigned v,
      encode_unsigned (sig_r ?s), encode_unsigned (sig_s ?s)], rest)"
    by (simp add: unsigned_exact optional_address_exact string_exact[OF d] encode_legacy_base_def)
  finally show ?thesis using list_parse_exact f unfolding b by blast
qed

lemma tx_type_of_tx_type_byte: "tx_type_of_byte (tx_type_byte ty) = ty \<and> tx_type_byte ty < 5"
  by (cases ty) (simp_all add: tx_type_of_byte_def)

lemma tx_type_byte_eq: "b < 5 \<Longrightarrow> tx_type_of_byte b = ty \<longleftrightarrow> b = tx_type_byte ty"
proof -
  assume "b < 5"
  then have "unat b < 5" by (simp add: word_less_nat_alt)
  then have "unat b \<in> {0, 1, 2, 3, 4}" by auto
  then have "b = 0 \<or> b = 1 \<or> b = 2 \<or> b = 3 \<or> b = 4" by (auto simp: word_unat_eq_iff)
  then show ?thesis by (cases ty) (auto simp: tx_type_of_byte_def)
qed

text \<open>The parts of a typed transaction that depend on its type.\<close>

definition blob_bytes :: "transaction \<Rightarrow> bytes" where
  "blob_bytes tx = (if tx_type tx = eip4844
     then encode_unsigned (max_fee_per_blob_gas tx) @ encode_list2 [concat (map encode_bytes32 (blob_versioned_hashes tx))]
     else [])"

definition priority_bytes :: "transaction \<Rightarrow> bytes" where
  "priority_bytes tx = (if has_priority_fee (tx_type tx) then encode_unsigned (max_priority_fee_per_gas tx) else [])"

lemma priority_exact:
  assumes "tx_canonical tx"
  shows "decode_priority_fee (tx_type tx) p = Inr (max_priority_fee_per_gas tx, q) \<longleftrightarrow> p = priority_bytes tx @ q"
  using assms by (auto simp: decode_priority_fee_def priority_bytes_def unsigned_exact tx_canonical_def)

lemma blob_exact:
  assumes "tx_canonical tx" "fits (blob_bytes tx)"
  shows "decode_blob_fields (tx_type tx) (tx_to tx) p = Inr ((max_fee_per_blob_gas tx, blob_versioned_hashes tx), q)
    \<longleftrightarrow> p = blob_bytes tx @ q"
proof (cases "tx_type tx = eip4844")
  case True
  let ?hs = "blob_versioned_hashes tx"
  have f: "fits (concat (map encode_bytes32 ?hs))"
    using assms(2) True fits_payload[of "[concat (map encode_bytes32 ?hs)]"] by (simp add: blob_bytes_def fits_def)
  have all: "list_all (\<lambda>_. True) ?hs" by (simp add: list_all_iff)
  have "decode_blob_fields (tx_type tx) (tx_to tx) p = Inr ((max_fee_per_blob_gas tx, ?hs), q) \<longleftrightarrow>
      (\<exists>p1 h. decode_unsigned p = Inr (max_fee_per_blob_gas tx, p1) \<and> parse_list_metadata p1 = Inr (h, q) \<and>
        decode_items decode_bytes32 h = Inr ?hs)"
    using True assms(1) by (auto simp: decode_blob_fields_def tx_canonical_def)
  also have "\<dots> \<longleftrightarrow> p = blob_bytes tx @ q"
    using True by (simp add: unsigned_exact b32.decode_items_exact[OF all] parse_list_exact[OF fits_size[OF f]] blob_bytes_def)
  finally show ?thesis .
next
  case False
  then show ?thesis using assms(1) by (auto simp: decode_blob_fields_def blob_bytes_def tx_canonical_def)
qed

lemma auth_exact:
  assumes "tx_canonical tx" "fits b"
    and "(if tx_type tx = eip7702 then encode_authorization_list (authorization_list tx) else Inr []) = Inr b"
  shows "decode_authorizations (tx_type tx) (tx_to tx) p = Inr (authorization_list tx, q) \<longleftrightarrow> p = b @ q"
proof (cases "tx_type tx = eip7702")
  case True
  then show ?thesis using assms authorization_list_exact[of "authorization_list tx" b p q]
    by (auto simp: decode_authorizations_def tx_canonical_def)
next
  case False
  then show ?thesis using assms by (auto simp: decode_authorizations_def tx_canonical_def)
qed

definition typed_fields :: "transaction \<Rightarrow> u256 \<Rightarrow> bytes \<Rightarrow> bytes list" where
  "typed_fields tx c auths =
     [encode_unsigned c, encode_unsigned (tx_nonce tx), priority_bytes tx, encode_unsigned (max_fee_per_gas tx),
      encode_unsigned (tx_gas_limit tx), encode_address (tx_to tx), encode_unsigned (tx_value tx),
      encode_string2 (tx_data tx), encode_access_list (access_list tx), blob_bytes tx, auths,
      encode_unsigned (y_parity (signature (tx_sc tx))), encode_unsigned (sig_r (signature (tx_sc tx))),
      encode_unsigned (sig_s (signature (tx_sc tx)))]"

lemma typed_decode_cases:
  assumes "sc_chain_id (tx_sc tx) = Some c"
  shows "decode_transaction_eip2718 (h # t) = Inr (tx, rest) \<longleftrightarrow>
    h < 5 \<and> tx_type_of_byte h = tx_type tx \<and> rest = [] \<and>
    (\<exists>p p1 p2 p3 p4 p5 p6 p7 p8 p9 p10 p11 p12 p13.
      parse_list_metadata t = Inr (p, []) \<and> decode_unsigned p = Inr (c, p1) \<and>
      decode_unsigned p1 = Inr (tx_nonce tx, p2) \<and>
      decode_priority_fee (tx_type tx) p2 = Inr (max_priority_fee_per_gas tx, p3) \<and>
      decode_unsigned p3 = Inr (max_fee_per_gas tx, p4) \<and> decode_unsigned p4 = Inr (tx_gas_limit tx, p5) \<and>
      decode_optional_address p5 = Inr (tx_to tx, p6) \<and> decode_unsigned p6 = Inr (tx_value tx, p7) \<and>
      decode_string p7 = Inr (tx_data tx, p8) \<and> decode_access_list p8 = Inr (access_list tx, p9) \<and>
      decode_blob_fields (tx_type tx) (tx_to tx) p9 = Inr ((max_fee_per_blob_gas tx, blob_versioned_hashes tx), p10) \<and>
      decode_authorizations (tx_type tx) (tx_to tx) p10 = Inr (authorization_list tx, p11) \<and>
      decode_unsigned p11 = Inr (y_parity (signature (tx_sc tx)), p12) \<and>
      decode_unsigned p12 = Inr (sig_r (signature (tx_sc tx)), p13) \<and>
      decode_unsigned p13 = Inr (sig_s (signature (tx_sc tx)), []))"
    (is "_ \<longleftrightarrow> ?R")
proof
  assume "decode_transaction_eip2718 (h # t) = Inr (tx, rest)"
  then show ?R
    using assms by (clarsimp simp: decode_transaction_eip2718_def Let_def not_le split: if_split_asm)
next
  assume ?R
  then show "decode_transaction_eip2718 (h # t) = Inr (tx, rest)"
    using assms by (cases tx, cases "tx_sc tx", cases "signature (tx_sc tx)")
      (clarsimp simp: decode_transaction_eip2718_def Let_def not_le)
qed

lemma typed_exact:
  assumes t: "tx_canonical tx" "sc_chain_id (tx_sc tx) = Some c"
    and au: "(if tx_type tx = eip7702 then encode_authorization_list (authorization_list tx) else Inr []) = Inr auths"
    and f: "fits (encode_list2 (typed_fields tx c auths))"
  shows "decode_transaction_eip2718 enc = Inr (tx, rest) \<longleftrightarrow>
    rest = [] \<and> enc = tx_type_byte (tx_type tx) # encode_list2 (typed_fields tx c auths)"
proof (cases enc)
  case Nil
  then show ?thesis by (simp add: decode_transaction_eip2718_def)
next
  case (Cons h u)
  have f': "fits (encode_string2 (tx_data tx))" "fits (encode_access_list (access_list tx))"
    "fits (blob_bytes tx)" "fits auths"
    using fits_part[OF f] by (simp_all add: typed_fields_def)
  have "decode_transaction_eip2718 enc = Inr (tx, rest) \<longleftrightarrow> h < 5 \<and> tx_type_of_byte h = tx_type tx \<and> rest = [] \<and>
      parse_list_metadata u = Inr (concat (typed_fields tx c auths), [])"
    unfolding Cons typed_decode_cases[OF t(2)]
    by (simp add: unsigned_exact optional_address_exact string_exact[OF f'(1)] access_list_exact[OF f'(2)]
        priority_exact[OF t(1)] blob_exact[OF t(1) f'(3)] auth_exact[OF t(1) f'(4) au] typed_fields_def)
  also have "\<dots> \<longleftrightarrow> h = tx_type_byte (tx_type tx) \<and> rest = [] \<and> u = encode_list2 (typed_fields tx c auths)"
    using tx_type_byte_eq[of h "tx_type tx"] tx_type_of_tx_type_byte[of "tx_type tx"]
    unfolding list_parse_exact[OF f] by auto
  finally show ?thesis using Cons by auto
qed

lemma encode_typed_eq:
  assumes "tx_type tx \<noteq> legacy" "sc_chain_id (tx_sc tx) = Some c"
  shows "encode_transaction tx = Inr b \<longleftrightarrow>
    (\<exists>auths. (if tx_type tx = eip7702 then encode_authorization_list (authorization_list tx) else Inr []) = Inr auths \<and>
       b = tx_type_byte (tx_type tx) # encode_list2 (typed_fields tx c auths))"
  unfolding encode_list2_concat[of "typed_fields tx c _"]
  using assms by (auto simp: encode_transaction_def Let_def encode_eip2718_base_def encode_list2_concat[of "[_, _, _, _]"]
      typed_fields_def priority_bytes_def blob_bytes_def)

section \<open>No abort\<close>

lemma parse_no_abort [simp]:
  "parse_string_metadata enc \<noteq> Inl RlpAbort" "parse_list_metadata enc \<noteq> Inl RlpAbort"
proof -
  have x: "extract_payload k e i l \<noteq> Inl RlpAbort" for k e i l by (simp add: extract_payload_def Let_def)
  have l: "parse_long_length e n \<noteq> Inl RlpAbort" for e n
    by (auto simp: parse_long_length_def decode_length_def decode_raw_num_def Try_eq_Inl)
  show "parse_string_metadata enc \<noteq> Inl RlpAbort"
    using x l by (auto simp: parse_string_metadata_def detail_parse_string_metadata_def Let_def Try_eq_Inl)
  show "parse_list_metadata enc \<noteq> Inl RlpAbort"
    using x l by (auto simp: parse_list_metadata_def detail_parse_list_metadata_def Let_def Try_eq_Inl)
qed

lemma field_no_abort [simp]:
  "decode_unsigned enc \<noteq> Inl RlpAbort" "decode_string enc \<noteq> Inl RlpAbort"
  "decode_bytes32 enc \<noteq> Inl RlpAbort" "decode_address enc \<noteq> Inl RlpAbort"
  "decode_optional_address enc \<noteq> Inl RlpAbort" "expect_end p x r \<noteq> Inl RlpAbort"
  by (auto simp: decode_unsigned_def decode_raw_num_def decode_string_def decode_bytes32_def decode_address_def
      decode_byte_string_fixed_def decode_optional_address_def expect_end_def Try_eq_Inl split: if_splits)

lemma b32_items_no_abort: "decode_items decode_bytes32 p \<noteq> Inl RlpAbort"
  by (rule b32.decode_items_error) simp

lemma keys_no_abort: "decode_access_entry_keys enc \<noteq> Inl RlpAbort"
proof -
  have "length p = length ks * 33" if "decode_items decode_bytes32 p = Inr ks" for p ks
    using that b32.decode_items_exact[of ks p] length_encoded_keys[of ks] by (simp add: list_all_iff)
  then show ?thesis
    using b32_items_no_abort by (auto simp: decode_access_entry_keys_def Try_eq_Inl)
qed

lemma access_list_no_abort: "decode_access_list enc \<noteq> Inl RlpAbort"
proof -
  have "decode_access_entry bs \<noteq> Inl RlpAbort" for bs
    by (auto simp: decode_access_entry_def Try_eq_Inl keys_no_abort)
  then have "decode_items decode_access_entry p \<noteq> Inl RlpAbort" for p by (rule ae.decode_items_error)
  then show ?thesis by (auto simp: decode_access_list_def Try_eq_Inl)
qed

lemma authorizations_no_abort: "decode_authorizations ty to enc \<noteq> Inl RlpAbort"
proof -
  have "decode_authorization_entry bs \<noteq> Inl RlpAbort" for bs
    by (auto simp: decode_authorization_entry_def Try_eq_Inl)
  then have "decode_items decode_authorization_entry p \<noteq> Inl RlpAbort" for p by (rule au.decode_items_error)
  then show ?thesis by (auto simp: decode_authorizations_def decode_authorization_list_def Try_eq_Inl)
qed

lemma blob_no_abort: "decode_blob_fields ty to enc \<noteq> Inl RlpAbort"
  by (auto simp: decode_blob_fields_def Try_eq_Inl b32_items_no_abort)

lemma priority_no_abort: "decode_priority_fee ty enc \<noteq> Inl RlpAbort"
  by (simp add: decode_priority_fee_def)

lemma legacy_no_abort: "decode_transaction_legacy enc \<noteq> Inl RlpAbort"
  by (auto simp: decode_transaction_legacy_def decode_sc_def Try_eq_Inl)

lemma typed_no_abort: "enc \<noteq> [] \<Longrightarrow> decode_transaction_eip2718 enc \<noteq> Inl RlpAbort"
  by (auto simp: decode_transaction_eip2718_def Let_def Try_eq_Inl access_list_no_abort authorizations_no_abort
      blob_no_abort priority_no_abort split: if_splits)

lemma legacy_type: "decode_transaction_legacy enc = Inr (tx, rest) \<Longrightarrow> tx_type tx = legacy"
  by (auto simp: decode_transaction_legacy_def)

lemma tx_type_byte_small: "tx_type_byte ty < 0xc0"
  by (cases ty) simp_all

lemma fits_Cons: "fits (b # bs) \<Longrightarrow> fits bs"
  by (simp add: fits_def)

lemma legacy_round_trip:
  assumes "tx_type tx = legacy" "tx_canonical tx" "encode_transaction tx = Inr b" "fits b"
  shows "decode_transaction b = Inr (tx, [])"
proof -
  obtain args where b: "b = encode_list2 args"
    using assms(1,3) by (auto simp: encode_transaction_def Let_def)
  then have "b \<noteq> [] \<and> hd b \<ge> 0xc0"
    using encode_list2_hd[of args] fits_payload[of args] assms(4) by (simp add: fits_def)
  then show ?thesis using legacy_exact[OF assms, of b "[]"] by (simp add: decode_transaction_def)
qed

lemma typed_transaction_exact:
  assumes "tx_type tx \<noteq> legacy" "tx_canonical tx" "encode_transaction tx = Inr b" "fits b"
  shows "decode_transaction enc = Inr (tx, rest) \<longleftrightarrow> enc = b \<and> rest = []"
proof -
  obtain c where c: "sc_chain_id (tx_sc tx) = Some c" using assms(1,2) by (auto simp: tx_canonical_def)
  obtain auths where au: "(if tx_type tx = eip7702 then encode_authorization_list (authorization_list tx) else Inr []) = Inr auths"
    and b: "b = tx_type_byte (tx_type tx) # encode_list2 (typed_fields tx c auths)"
    using assms(3) encode_typed_eq[OF assms(1) c] by blast
  have "decode_transaction enc = Inr (tx, rest) \<longleftrightarrow>
      enc \<noteq> [] \<and> hd enc < 0xc0 \<and> decode_transaction_eip2718 enc = Inr (tx, rest)"
    using assms(1) legacy_type[of enc tx rest] by (auto simp: decode_transaction_def not_le)
  then show ?thesis
    unfolding typed_exact[OF assms(2) c au fits_Cons[OF assms(4)[unfolded b]]] b[symmetric]
    using tx_type_byte_small[of "tx_type tx"] b by auto
qed

text \<open>
  C14: transactions of every type round trip: what \<open>encode_transaction\<close> returns decodes to the
  transaction, for every transaction whose members that its type does not carry have their default
  values. For typed transactions the decoder accepts no other encoding, and nothing after it.
\<close>

theorem decode_transaction_inverts_encode:
  assumes "tx_canonical tx" "encode_transaction tx = Inr b" "fits b"
  shows "decode_transaction b = Inr (tx, []) \<and>
    (tx_type tx \<noteq> legacy \<longrightarrow> (\<forall>enc rest. decode_transaction enc = Inr (tx, rest) \<longrightarrow> enc = b \<and> rest = []))"
  using legacy_round_trip[OF _ assms] typed_transaction_exact[OF _ assms] by blast

definition example_typed_tx :: transaction where
  "example_typed_tx = default_transaction\<lparr>tx_type := eip1559, tx_nonce := 7, max_fee_per_gas := 10,
     max_priority_fee_per_gas := 2, tx_gas_limit := 21000, tx_to := Some 5,
     tx_sc := \<lparr>signature = \<lparr>sig_r = 3, sig_s = 4, y_parity = 1\<rparr>, sc_chain_id = Some 143\<rparr>\<rparr>"

lemma length_typed_fields:
  assumes "tx_data tx = []" "access_list tx = []" "blob_bytes tx = []"
  shows "length (encode_list2 (typed_fields tx c [])) \<le> 409"
proof -
  have "length (concat (typed_fields tx c [])) \<le> 400"
    using assms length_unsigned(3)[of c] length_unsigned(2)[of "tx_nonce tx"]
      length_unsigned(3)[of "max_priority_fee_per_gas tx"] length_unsigned(3)[of "max_fee_per_gas tx"]
      length_unsigned(2)[of "tx_gas_limit tx"] length_encode_address[of "tx_to tx"]
      length_unsigned(3)[of "tx_value tx"] length_unsigned(1)[of "y_parity (signature (tx_sc tx))"]
      length_unsigned(3)[of "sig_r (signature (tx_sc tx))"] length_unsigned(3)[of "sig_s (signature (tx_sc tx))"]
    by (simp add: typed_fields_def priority_bytes_def encode_access_list_def encode_list2_def encode_string2_def)
  then show ?thesis using length_encode_list2_le[of "typed_fields tx c []"] by simp
qed

theorem decode_transaction_inverts_encode_witness:
  "\<exists>b. encode_transaction example_typed_tx = Inr b \<and> decode_transaction b = Inr (example_typed_tx, [])"
proof -
  let ?b = "tx_type_byte eip1559 # encode_list2 (typed_fields example_typed_tx 143 [])"
  have e: "encode_transaction example_typed_tx = Inr ?b"
    using encode_typed_eq[of example_typed_tx 143 ?b] by (simp add: example_typed_tx_def)
  have c: "tx_canonical example_typed_tx"
    by (simp add: example_typed_tx_def default_transaction_def tx_canonical_def has_priority_fee_def)
  have "fits ?b"
    using length_typed_fields[of example_typed_tx 143]
    by (simp add: fits_def example_typed_tx_def default_transaction_def blob_bytes_def)
  from decode_transaction_inverts_encode[OF c e this] e show ?thesis by blast
qed

text \<open>
  C15: no input can abort the decoder of a transaction. The assertion on the size of a list of
  storage keys always holds and every loop over items ends, so \<open>decode_transaction\<close> returns a
  transaction or an error for every sequence of bytes.
\<close>

theorem decode_transaction_never_aborts: "decode_transaction enc \<noteq> Inl RlpAbort"
  by (simp add: decode_transaction_def legacy_no_abort typed_no_abort)

text \<open>
  C16: the list of transactions of a block is not as robust: an empty string among its items, the
  byte \<open>0x80\<close>, passes \<open>parse_string_metadata\<close> and reaches the assertion of
  \<open>decode_transaction_eip2718\<close> that there is a type byte. The process aborts where every other
  malformed input gives an error.
\<close>

theorem empty_item_aborts_transaction_list:
  assumes "fits (0x80 # t)"
  shows "decode_transaction_list (encode_list2 [0x80 # t] @ rest) = Inl RlpAbort"
proof -
  have "encode_string2 [] = [0x80]" by (simp add: encode_string2_def)
  then have "parse_string_metadata (0x80 # t) = Inr ([], t)"
    using parse_string_exact[of "[]" "0x80 # t" t] by simp
  then have "decode_list_transaction (0x80 # t) = Inl RlpAbort"
    by (simp add: decode_list_transaction_def decode_transaction_eip2718_def)
  then have "decode_items decode_list_transaction (0x80 # t) = Inl RlpAbort"
    by (simp add: decode_items_def)
  moreover have "parse_list_metadata (encode_list2 [0x80 # t] @ rest) = Inr (0x80 # t, rest)"
    using parse_list_exact[OF fits_size[OF assms]] by simp
  ultimately show ?thesis by (simp add: decode_transaction_list_def)
qed

theorem empty_item_aborts_transaction_list_witness: "decode_transaction_list [0xc1, 0x80] = Inl RlpAbort"
proof -
  have "encode_list2 [[0x80]] = [0xc1, 0x80]" by (simp add: encode_list2_def)
  then show ?thesis using empty_item_aborts_transaction_list[of "[]" "[]"] by (simp add: fits_def)
qed

text \<open>
  C17: a legacy transaction with a chain id has a second encoding. The typed decoder accepts the type
  byte 0, so the same transaction also decodes from a typed envelope that the encoder never produces.
\<close>

theorem legacy_transaction_has_two_encodings:
  assumes "tx_type tx = legacy" "tx_canonical tx" "sc_chain_id (tx_sc tx) = Some c"
    and "encode_transaction tx = Inr b" "fits b" "fits (encode_list2 (typed_fields tx c []))"
  shows "decode_transaction b = Inr (tx, []) \<and>
    decode_transaction (0 # encode_list2 (typed_fields tx c [])) = Inr (tx, []) \<and>
    b \<noteq> 0 # encode_list2 (typed_fields tx c [])"
proof -
  let ?e = "0 # encode_list2 (typed_fields tx c [])"
  have "decode_transaction_eip2718 ?e = Inr (tx, [])"
    using typed_exact[OF assms(2,3) _ assms(6), of ?e "[]"] assms(1) by simp
  moreover have "hd b \<noteq> 0"
  proof -
    obtain args where b: "b = encode_list2 args"
      using assms(1,4) by (auto simp: encode_transaction_def Let_def)
    show ?thesis
      using encode_list2_hd[of args] fits_payload[of args] assms(5) unfolding b by (auto simp: fits_def)
  qed
  ultimately show ?thesis
    using legacy_round_trip[OF assms(1,2,4,5)] by (auto simp: decode_transaction_def)
qed

definition example_legacy_tx :: transaction where
  "example_legacy_tx = default_transaction\<lparr>tx_nonce := 7, tx_sc := default_sc\<lparr>sc_chain_id := Some 143\<rparr>\<rparr>"

theorem legacy_transaction_has_two_encodings_witness:
  "\<exists>a b. a \<noteq> b \<and> decode_transaction a = Inr (example_legacy_tx, []) \<and>
     decode_transaction b = Inr (example_legacy_tx, [])"
proof -
  note defs = example_legacy_tx_def default_transaction_def default_sc_def
  let ?args = "[encode_legacy_base example_legacy_tx, encode_unsigned (321 :: u256),
    encode_unsigned (0 :: u256), encode_unsigned (0 :: u256)]"
  have "get_v (tx_sc example_legacy_tx) = Inr 321"
    by (simp add: defs get_v_def MONAD_ASSERT_THROW_def max_chain_id_def)
  then have e: "encode_transaction example_legacy_tx = Inr (encode_list2 ?args)"
    by (simp add: defs encode_transaction_def)
  have "length (concat ?args) \<le> 300"
    using length_unsigned(2)[of 7] length_unsigned(2)[of 0] length_unsigned(3)[of 0] length_unsigned(3)[of 321]
    by (simp add: defs encode_legacy_base_def encode_address_def encode_string2_def)
  then have "fits (encode_list2 ?args)" using length_encode_list2_le[of ?args] by (simp add: fits_def)
  moreover have "fits (encode_list2 (typed_fields example_legacy_tx 143 []))"
    using length_typed_fields[of example_legacy_tx 143] by (simp add: fits_def defs blob_bytes_def)
  ultimately show ?thesis
    using legacy_transaction_has_two_encodings[OF _ _ _ e, of 143]
    by (auto simp: defs tx_canonical_def has_priority_fee_def)
qed

end
