(* ===== verification/Rlp_Block.thy ===== *)
theory Rlp_Block
  imports Rlp_Tx
begin

text \<open>
  The RLP codec of block headers and blocks, \<open>category/execution/ethereum/core/rlp/block_rlp.cpp\<close>.
  The members that later forks added to the header are optional and stand at its end, so the decoder
  reads each group of them only if bytes are left. \<open>slot_number\<close> is not encoded.
\<close>

section \<open>Encoding\<close>

definition encode_optional :: "('a \<Rightarrow> bytes) \<Rightarrow> 'a option \<Rightarrow> bytes" where
  "encode_optional enc x = (case x of None \<Rightarrow> [] | Some v \<Rightarrow> enc v)"

definition encode_block_header :: "block_header \<Rightarrow> bytes" where
  "encode_block_header h =
     encode_list2 [encode_bytes32 (parent_hash h) @ encode_bytes32 (ommers_hash h) @
       encode_address (Some (beneficiary h)) @ encode_bytes32 (state_root h) @
       encode_bytes32 (transactions_root h) @ encode_bytes32 (receipts_root h) @
       encode_bloom (logs_bloom h) @ encode_unsigned (difficulty h) @ encode_unsigned (number h) @
       encode_unsigned (gas_limit h) @ encode_unsigned (gas_used h) @ encode_unsigned (timestamp h) @
       encode_string2 (extra_data h) @ encode_bytes32 (prev_randao h) @
       encode_string2 (header_nonce h) @
       encode_optional encode_unsigned (base_fee_per_gas h) @
       encode_optional encode_bytes32 (withdrawals_root h) @
       encode_optional encode_unsigned (blob_gas_used h) @
       encode_optional encode_unsigned (excess_blob_gas h) @
       encode_optional encode_bytes32 (parent_beacon_block_root h) @
       encode_optional encode_bytes32 (requests_hash h)]"

definition encode_ommers :: "block_header list \<Rightarrow> bytes" where
  "encode_ommers os = encode_list2 [concat (map encode_block_header os)]"

definition encode_list_transaction :: "transaction \<Rightarrow> bytes res" where
  "encode_list_transaction tx =
     (if tx_type tx = legacy then encode_transaction tx
      else Try (encode_transaction tx) (\<lambda>b. Inr (encode_string2 b)))"

primrec encode_list_transactions :: "transaction list \<Rightarrow> bytes res" where
  "encode_list_transactions [] = Inr []"
| "encode_list_transactions (tx # txs) =
     Try (encode_list_transaction tx) (\<lambda>b.
     Try (encode_list_transactions txs) (\<lambda>bs. Inr (b @ bs)))"

definition encode_block :: "block \<Rightarrow> bytes res" where
  "encode_block b =
     Try (encode_list_transactions (transactions b)) (\<lambda>txs.
       Inr (encode_list2 [encode_block_header (header b) @ encode_list2 [txs] @ encode_ommers (ommers b) @
         encode_optional (\<lambda>ws. encode_list2 [concat (map encode_withdrawal ws)]) (withdrawals b)]))"

section \<open>Decoding\<close>

definition EXTRA_DATA_MAX_LENGTH :: nat where
  "EXTRA_DATA_MAX_LENGTH = 32"

text \<open>\<open>if (!payload.empty())\<close> around the read of an optional member.\<close>

definition decode_optional :: "'a decoder \<Rightarrow> 'a option decoder" where
  "decode_optional dec payload =
     (if payload = [] then Inr (None, payload)
      else Try (dec payload) (\<lambda>(x, payload). Inr (Some x, payload)))"

definition decode_blob_members :: "(u64 \<times> u64 \<times> bytes32) decoder" where
  "decode_blob_members payload =
     Try (decode_unsigned payload) (\<lambda>(used, payload).
     Try (decode_unsigned payload) (\<lambda>(excess, payload).
     Try (decode_bytes32 payload) (\<lambda>(root, payload). Inr ((used, excess, root), payload))))"

definition decode_extra_data :: "bytes decoder" where
  "decode_extra_data payload =
     Try (decode_string payload) (\<lambda>(d, payload).
       if length d > EXTRA_DATA_MAX_LENGTH then Inl (DecodeError DecodeOverflow) else Inr (d, payload))"

definition decode_block_header :: "block_header decoder" where
  "decode_block_header enc =
     Try (parse_list_metadata enc) (\<lambda>(payload, rest).
     Try (decode_bytes32 payload) (\<lambda>(parent, payload).
     Try (decode_bytes32 payload) (\<lambda>(omm, payload).
     Try (decode_address payload) (\<lambda>(benef, payload).
     Try (decode_bytes32 payload) (\<lambda>(sroot, payload).
     Try (decode_bytes32 payload) (\<lambda>(troot, payload).
     Try (decode_bytes32 payload) (\<lambda>(rroot, payload).
     Try (decode_bloom payload) (\<lambda>(bloom, payload).
     Try (decode_unsigned payload) (\<lambda>(diff, payload).
     Try (decode_unsigned payload) (\<lambda>(num, payload).
     Try (decode_unsigned payload) (\<lambda>(limit, payload).
     Try (decode_unsigned payload) (\<lambda>(used, payload).
     Try (decode_unsigned payload) (\<lambda>(time, payload).
     Try (decode_extra_data payload) (\<lambda>(extra, payload).
     Try (decode_bytes32 payload) (\<lambda>(randao, payload).
     Try (decode_byte_string_fixed 8 payload) (\<lambda>(non, payload).
     Try (decode_optional decode_unsigned payload) (\<lambda>(fee, payload).
     Try (decode_optional decode_bytes32 payload) (\<lambda>(wroot, payload).
     Try (decode_optional decode_blob_members payload) (\<lambda>(blob, payload).
     Try (decode_optional decode_bytes32 payload) (\<lambda>(reqs, payload).
       expect_end payload
         \<lparr>logs_bloom = bloom, parent_hash = parent, ommers_hash = omm, state_root = sroot,
          transactions_root = troot, receipts_root = rroot, prev_randao = randao, difficulty = diff,
          number = num, gas_limit = limit, gas_used = used, timestamp = time, header_nonce = non,
          extra_data = extra, beneficiary = benef, base_fee_per_gas = fee, withdrawals_root = wroot,
          blob_gas_used = map_option fst blob, excess_blob_gas = map_option (fst \<circ> snd) blob,
          parent_beacon_block_root = map_option (snd \<circ> snd) blob, requests_hash = reqs,
          slot_number = None\<rparr> rest))))))))))))))))))))"

definition decode_block_header_vector :: "block_header list decoder" where
  "decode_block_header_vector enc =
     Try (parse_list_metadata enc) (\<lambda>(payload, rest).
     Try (decode_items decode_block_header payload) (\<lambda>hs. Inr (hs, rest)))"

definition decode_block :: "block decoder" where
  "decode_block enc =
     Try (parse_list_metadata enc) (\<lambda>(payload, rest).
     Try (decode_block_header payload) (\<lambda>(h, payload).
     Try (decode_transaction_list payload) (\<lambda>(txs, payload).
     Try (decode_block_header_vector payload) (\<lambda>(oms, payload).
     Try (decode_optional decode_withdrawal_list payload) (\<lambda>(ws, payload).
       expect_end payload \<lparr>header = h, transactions = txs, ommers = oms, withdrawals = ws\<rparr> rest)))))"

section \<open>Headers are exact\<close>

text \<open>
  The members of a header that the decoder can produce: the optional ones are present in the order
  of the forks that added them, those of EIP-4844 and EIP-4788 together.
\<close>

definition header_canonical :: "block_header \<Rightarrow> bool" where
  "header_canonical h \<longleftrightarrow> length (logs_bloom h) = 256 \<and> length (header_nonce h) = 8 \<and>
     length (extra_data h) \<le> 32 \<and> slot_number h = None \<and>
     (blob_gas_used h = None \<longleftrightarrow> excess_blob_gas h = None) \<and>
     (blob_gas_used h = None \<longleftrightarrow> parent_beacon_block_root h = None) \<and>
     (base_fee_per_gas h = None \<longrightarrow> withdrawals_root h = None) \<and>
     (withdrawals_root h = None \<longrightarrow> blob_gas_used h = None) \<and>
     (blob_gas_used h = None \<longrightarrow> requests_hash h = None)"

definition blob_members :: "block_header \<Rightarrow> (u64 \<times> u64 \<times> bytes32) option" where
  "blob_members h = map_option (\<lambda>u. (u, the (excess_blob_gas h), the (parent_beacon_block_root h))) (blob_gas_used h)"

definition encode_blob_members :: "u64 \<times> u64 \<times> bytes32 \<Rightarrow> bytes" where
  "encode_blob_members = (\<lambda>(u, e, r). encode_unsigned u @ encode_unsigned e @ encode_bytes32 r)"

lemma blob_members_exact: "decode_blob_members p = Inr (m, q) \<longleftrightarrow> p = encode_blob_members m @ q"
  by (cases m) (auto simp: decode_blob_members_def encode_blob_members_def unsigned_exact bytes32_exact)

lemma encode_unsigned_nonempty: "encode_unsigned (w :: 'a::len word) \<noteq> []"
  by (simp add: encode_unsigned_def encode_string2_def Let_def) auto

text \<open>An optional member at the end: absent exactly if nothing is left.\<close>

lemma optional_exact:
  assumes "\<And>x p q. dec p = Inr (x, q) \<longleftrightarrow> p = enc x @ q" "\<And>x. enc x \<noteq> []"
  shows "decode_optional dec p = Inr (x, q) \<longleftrightarrow> p = encode_optional enc x @ q \<and> (x = None \<longrightarrow> q = [])"
  using assms by (cases x) (auto simp: decode_optional_def encode_optional_def)

lemma header_optional_exact:
  "decode_optional decode_unsigned p = Inr (f, q) \<longleftrightarrow>
     p = encode_optional encode_unsigned (f :: u256 option) @ q \<and> (f = None \<longrightarrow> q = [])"
  "decode_optional decode_bytes32 p = Inr (r, q) \<longleftrightarrow>
     p = encode_optional encode_bytes32 r @ q \<and> (r = None \<longrightarrow> q = [])"
  "decode_optional decode_blob_members p = Inr (m, q) \<longleftrightarrow>
     p = encode_optional encode_blob_members m @ q \<and> (m = None \<longrightarrow> q = [])"
proof -
  show "decode_optional decode_unsigned p = Inr (f, q) \<longleftrightarrow>
     p = encode_optional encode_unsigned (f :: u256 option) @ q \<and> (f = None \<longrightarrow> q = [])"
    by (rule optional_exact) (simp_all only: unsigned_exact encode_unsigned_nonempty not_False_eq_True)
  show "decode_optional decode_bytes32 p = Inr (r, q) \<longleftrightarrow>
     p = encode_optional encode_bytes32 r @ q \<and> (r = None \<longrightarrow> q = [])"
    by (rule optional_exact) (simp_all only: bytes32_exact b32.encode_nonempty not_False_eq_True)
  show "decode_optional decode_blob_members p = Inr (m, q) \<longleftrightarrow>
     p = encode_optional encode_blob_members m @ q \<and> (m = None \<longrightarrow> q = [])"
    by (rule optional_exact) (auto simp: blob_members_exact encode_blob_members_def encode_unsigned_nonempty)
qed

lemma extra_data_exact:
  assumes "length d \<le> 32"
  shows "decode_extra_data p = Inr (d, q) \<longleftrightarrow> p = encode_string2 d @ q"
proof -
  have "decode_extra_data p = Inr (d, q) \<longleftrightarrow> parse_string_metadata p = Inr (d, q)"
    using assms by (cases "parse_string_metadata p")
      (auto simp: decode_extra_data_def decode_string_def EXTRA_DATA_MAX_LENGTH_def
        split: if_splits)
  then show ?thesis using assms by (simp add: parse_string_exact)
qed

definition header_fields :: "block_header \<Rightarrow> bytes list" where
  "header_fields h = [encode_bytes32 (parent_hash h), encode_bytes32 (ommers_hash h),
     encode_address (Some (beneficiary h)), encode_bytes32 (state_root h),
     encode_bytes32 (transactions_root h), encode_bytes32 (receipts_root h), encode_bloom (logs_bloom h),
     encode_unsigned (difficulty h), encode_unsigned (number h), encode_unsigned (gas_limit h),
     encode_unsigned (gas_used h), encode_unsigned (timestamp h), encode_string2 (extra_data h),
     encode_bytes32 (prev_randao h), encode_string2 (header_nonce h),
     encode_optional encode_unsigned (base_fee_per_gas h),
     encode_optional encode_bytes32 (withdrawals_root h),
     encode_optional encode_blob_members (blob_members h),
     encode_optional encode_bytes32 (requests_hash h)]"

lemma encode_block_header_eq:
  "header_canonical h \<Longrightarrow> encode_block_header h = encode_list2 (header_fields h)"
  unfolding encode_list2_concat[of "header_fields h"]
  by (auto simp: encode_block_header_def header_fields_def header_canonical_def encode_optional_def
      encode_blob_members_def blob_members_def split: option.split)

lemma length_header:
  assumes "header_canonical h"
  shows "length (encode_list2 (header_fields h)) \<le> 2009"
proof -
  have o: "length (encode_optional encode_unsigned (f :: u256 option)) \<le> 33"
    "length (encode_optional encode_bytes32 r) \<le> 33" for f r
    using length_unsigned(3) by (auto simp: encode_optional_def length_encode_bytes32 split: option.split)
  have m: "length (encode_optional encode_blob_members b) \<le> 99" for b
    using length_unsigned(2)[of "fst (the b)"] length_unsigned(2)[of "fst (snd (the b))"]
    by (auto simp: encode_optional_def encode_blob_members_def length_encode_bytes32 split: option.split)
  have "length (encode_bloom (logs_bloom h)) \<le> 300"
    using assms length_to_big_compact[of "256 :: u64"] unfolding encode_bloom_def
    by (subst encode_string2_eq) (simp_all add: header_canonical_def)
  moreover have "length (encode_string2 (extra_data h)) \<le> 33" "length (encode_string2 (header_nonce h)) \<le> 33"
    using assms length_short_string[of "extra_data h"] length_short_string[of "header_nonce h"]
    by (simp_all add: header_canonical_def)
  ultimately have "length (concat (header_fields h)) \<le> 2000"
    using length_encode_address[of "Some (beneficiary h)"] length_unsigned(3)[of "difficulty h"]
      length_unsigned(2)[of "number h"] length_unsigned(2)[of "gas_limit h"] length_unsigned(2)[of "gas_used h"]
      length_unsigned(2)[of "timestamp h"] o(1)[of "base_fee_per_gas h"] o(2)[of "withdrawals_root h"]
      o(2)[of "requests_hash h"] m[of "blob_members h"]
    by (simp add: header_fields_def length_encode_bytes32)
  then show ?thesis using length_encode_list2_le[of "header_fields h"] by simp
qed

lemma fits_header: "header_canonical h \<Longrightarrow> fits (encode_list2 (header_fields h))"
  using length_header by (fastforce simp: fits_def)

lemma header_decode_cases:
  assumes "header_canonical h"
  shows "decode_block_header enc = Inr (h, rest) \<longleftrightarrow> (\<exists>p p1 p2 p3 p4 p5 p6 p7 p8 p9 p10 p11 p12 p13 p14 p15 p16 p17 p18.
    parse_list_metadata enc = Inr (p, rest) \<and> decode_bytes32 p = Inr (parent_hash h, p1) \<and>
    decode_bytes32 p1 = Inr (ommers_hash h, p2) \<and> decode_address p2 = Inr (beneficiary h, p3) \<and>
    decode_bytes32 p3 = Inr (state_root h, p4) \<and> decode_bytes32 p4 = Inr (transactions_root h, p5) \<and>
    decode_bytes32 p5 = Inr (receipts_root h, p6) \<and> decode_bloom p6 = Inr (logs_bloom h, p7) \<and>
    decode_unsigned p7 = Inr (difficulty h, p8) \<and> decode_unsigned p8 = Inr (number h, p9) \<and>
    decode_unsigned p9 = Inr (gas_limit h, p10) \<and> decode_unsigned p10 = Inr (gas_used h, p11) \<and>
    decode_unsigned p11 = Inr (timestamp h, p12) \<and> decode_extra_data p12 = Inr (extra_data h, p13) \<and>
    decode_bytes32 p13 = Inr (prev_randao h, p14) \<and> decode_byte_string_fixed 8 p14 = Inr (header_nonce h, p15) \<and>
    decode_optional decode_unsigned p15 = Inr (base_fee_per_gas h, p16) \<and>
    decode_optional decode_bytes32 p16 = Inr (withdrawals_root h, p17) \<and>
    decode_optional decode_blob_members p17 = Inr (blob_members h, p18) \<and>
    decode_optional decode_bytes32 p18 = Inr (requests_hash h, []))" (is "_ \<longleftrightarrow> ?R")
proof
  assume "decode_block_header enc = Inr (h, rest)"
  then show ?R
    unfolding decode_block_header_def Try_eq_Inr
    by (auto simp: blob_members_def option.map_comp map_option_case split: option.splits)
next
  assume ?R
  moreover have "map_option fst (blob_members h) = blob_gas_used h"
    "map_option (fst \<circ> snd) (blob_members h) = excess_blob_gas h"
    "map_option (snd \<circ> snd) (blob_members h) = parent_beacon_block_root h" "slot_number h = None"
    using assms by (auto simp: blob_members_def header_canonical_def option.map_comp)
  ultimately show "decode_block_header enc = Inr (h, rest)"
    unfolding decode_block_header_def by (cases h) auto
qed

lemma header_exact:
  assumes "header_canonical h"
  shows "decode_block_header enc = Inr (h, rest) \<longleftrightarrow> enc = encode_block_header h @ rest"
proof -
  have b: "decode_bloom p = Inr (logs_bloom h, q) \<longleftrightarrow> p = encode_bloom (logs_bloom h) @ q"
    "decode_byte_string_fixed 8 p = Inr (header_nonce h, q) \<longleftrightarrow> p = encode_string2 (header_nonce h) @ q" for p q
    using assms by (simp_all add: decode_bloom_def encode_bloom_def fixed_exact header_canonical_def)
  have x: "length (extra_data h) \<le> 32" using assms by (simp add: header_canonical_def)
  have bm: "blob_members h = None \<longleftrightarrow> blob_gas_used h = None" by (simp add: blob_members_def)
  have "(base_fee_per_gas h = None \<longrightarrow> withdrawals_root h = None \<and> blob_members h = None \<and> requests_hash h = None) \<and>
      (withdrawals_root h = None \<longrightarrow> blob_members h = None \<and> requests_hash h = None) \<and>
      (blob_members h = None \<longrightarrow> requests_hash h = None)"
    using assms unfolding header_canonical_def bm by blast
  then have "decode_block_header enc = Inr (h, rest) \<longleftrightarrow> parse_list_metadata enc = Inr (concat (header_fields h), rest)"
    unfolding header_decode_cases[OF assms]
    by (simp add: bytes32_exact address_exact unsigned_exact b extra_data_exact[OF x] header_optional_exact
        header_fields_def) (auto simp: encode_optional_def)
  then show ?thesis
    unfolding encode_block_header_eq[OF assms] list_parse_exact[OF fits_header[OF assms]] .
qed

lemma fixed_length: "decode_byte_string_fixed N p = Inr (b, q) \<Longrightarrow> length b = N"
  by (auto simp: decode_byte_string_fixed_def split: if_splits)

lemma extra_data_length: "decode_extra_data p = Inr (d, q) \<Longrightarrow> length d \<le> 32"
  by (auto simp: decode_extra_data_def EXTRA_DATA_MAX_LENGTH_def split: if_splits)

lemma optional_None: "decode_optional dec p = Inr (None, q) \<Longrightarrow> q = []"
  by (auto simp: decode_optional_def split: if_splits)

lemma optional_Nil: "decode_optional dec [] = Inr (x, q) \<longleftrightarrow> x = None \<and> q = []"
  by (auto simp: decode_optional_def)

lemma decoded_header_canonical:
  assumes "decode_block_header enc = Inr (h, rest)"
  shows "header_canonical h"
  using assms
  by (clarsimp simp: decode_block_header_def header_canonical_def decode_bloom_def
      dest!: fixed_length extra_data_length)
    (auto dest!: optional_None simp: optional_Nil)

text \<open>
  C18: the header codec is exact without any hypothesis: a header is decoded exactly if its optional
  members follow the order of the forks, its byte strings have their sizes and the input starts with
  its encoding.
\<close>

theorem decode_block_header_inverts_encode:
  "decode_block_header enc = Inr (h, rest) \<longleftrightarrow> header_canonical h \<and> enc = encode_block_header h @ rest"
  using header_exact decoded_header_canonical by blast

section \<open>Blocks round trip\<close>

lemma decode_block_header_consumes:
  "decode_block_header enc = Inr (h, rest) \<Longrightarrow> length rest < length enc"
  unfolding decode_block_header_def by (erule record_consumes) auto

lemma header_nonempty: "header_canonical h \<Longrightarrow> encode_block_header h \<noteq> []"
  using fits_list_nonempty[OF fits_header] encode_block_header_eq by simp

interpretation bh: exact_codec decode_block_header encode_block_header header_canonical
  by unfold_locales (simp_all only: header_exact header_nonempty decode_block_header_consumes not_False_eq_True)

text \<open>The item of a transaction in the list of a block.\<close>

definition item_bytes :: "transaction \<Rightarrow> bytes" where
  "item_bytes tx = (case encode_list_transaction tx of Inr b \<Rightarrow> b | Inl _ \<Rightarrow> [])"

definition item_ok :: "transaction \<Rightarrow> bool" where
  "item_ok tx \<longleftrightarrow> tx_canonical tx \<and> (\<exists>b. encode_list_transaction tx = Inr b) \<and> fits (item_bytes tx)"

lemma legacy_item:
  assumes "tx_type tx = legacy" "tx_canonical tx" "encode_transaction tx = Inr b" "fits b"
  shows "b \<noteq> [] \<and> decode_list_transaction (b @ rest) = Inr (tx, rest)"
proof -
  obtain args where b: "b = encode_list2 args"
    using assms(1,3) by (auto simp: encode_transaction_def Let_def)
  then have "b \<noteq> [] \<and> hd b \<ge> 0xc0"
    using encode_list2_hd[of args] fits_payload[of args] assms(4) by (simp add: fits_def)
  then show ?thesis using legacy_exact[OF assms, of "b @ rest" rest] by (simp add: decode_list_transaction_def)
qed

lemma typed_item:
  assumes "tx_type tx \<noteq> legacy" "tx_canonical tx" "encode_transaction tx = Inr b" "fits (encode_string2 b)"
  shows "encode_string2 b \<noteq> [] \<and> decode_list_transaction (encode_string2 b @ rest) = Inr (tx, rest)"
proof -
  let ?e = "encode_string2 b @ rest"
  have f: "fits b" by (rule fits_string[OF assms(4)])
  have p: "parse_string_metadata ?e = Inr (b, rest)" using parse_string_exact f by (simp add: fits_def)
  then have "\<not> 0xc0 \<le> hd ?e" by (auto simp: parse_string_metadata_def split: if_splits)
  moreover have "decode_transaction_eip2718 b = Inr (tx, [])"
    using typed_transaction_exact[OF assms(1-3) f, of b "[]"] assms(1) legacy_type
    by (auto simp: decode_transaction_def split: if_splits)
  moreover have "encode_string2 b \<noteq> []"
    using assms(1,3) by (auto simp: encode_transaction_def encode_string2_def Let_def)
  ultimately show ?thesis using p by (simp add: decode_list_transaction_def del: hd_append2)
qed

lemma item_round_trip:
  assumes "item_ok tx"
  shows "item_bytes tx \<noteq> [] \<and> decode_list_transaction (item_bytes tx @ rest) = Inr (tx, rest)"
  using assms legacy_item typed_item
  by (fastforce simp: item_ok_def item_bytes_def encode_list_transaction_def split: if_splits)

interpretation it: round_trip_codec decode_list_transaction item_bytes item_ok
  using item_round_trip by unfold_locales (auto dest: decode_list_transaction_consumes)

lemma encode_list_transactions_eq:
  assumes "encode_list_transactions txs = Inr b"
  shows "b = concat (map item_bytes txs) \<and> list_all (\<lambda>tx. \<exists>b. encode_list_transaction tx = Inr b) txs"
  using assms by (induction txs arbitrary: b) (auto simp: item_bytes_def)

definition block_canonical :: "block \<Rightarrow> bool" where
  "block_canonical b \<longleftrightarrow> header_canonical (header b) \<and> list_all tx_canonical (transactions b) \<and>
     list_all header_canonical (ommers b)"

lemma withdrawals_round_trip:
  assumes "fits (encode_optional (\<lambda>ws. encode_list2 [concat (map encode_withdrawal ws)]) w)"
  shows "decode_optional decode_withdrawal_list
    (encode_optional (\<lambda>ws. encode_list2 [concat (map encode_withdrawal ws)]) w) = Inr (w, [])"
proof (cases w)
  case (Some ws)
  let ?e = "encode_list2 [concat (map encode_withdrawal ws)]"
  have f: "fits ?e" using assms Some by (simp add: encode_optional_def)
  have "decode_withdrawal_list (?e @ []) = Inr (ws, [])"
    unfolding decode_withdrawal_list_def
    using fits_size[OF fits_payload[OF f]] by (intro wd.list_round_trip) (simp_all add: list_all_iff)
  then show ?thesis using Some fits_list_nonempty[OF f] by (simp add: encode_optional_def decode_optional_def)
qed (simp add: encode_optional_def decode_optional_def)

text \<open>
  C19: blocks round trip. The header, the transactions of all types, the ommers and the withdrawals of
  a block come back from its encoding, and what follows the block is left.
\<close>

theorem decode_block_inverts_encode:
  assumes "block_canonical b" "encode_block b = Inr e" "fits e"
  shows "decode_block (e @ rest) = Inr (b, rest)"
proof -
  let ?ws = "encode_optional (\<lambda>ws. encode_list2 [concat (map encode_withdrawal ws)]) (withdrawals b)"
  let ?items = "concat (map item_bytes (transactions b))"
  let ?p = "encode_block_header (header b) @ encode_list2 [?items] @ encode_ommers (ommers b) @ ?ws"
  obtain txs where "encode_list_transactions (transactions b) = Inr txs"
    and "e = encode_list2 [encode_block_header (header b) @ encode_list2 [txs] @ encode_ommers (ommers b) @ ?ws]"
    using assms(2) by (auto simp: encode_block_def)
  then have e: "e = encode_list2 [?p]" and all: "list_all (\<lambda>tx. \<exists>b. encode_list_transaction tx = Inr b) (transactions b)"
    using encode_list_transactions_eq by blast+
  have p: "fits ?p" using fits_payload[of "[?p]"] assms(3) e by simp
  then have f: "fits (encode_list2 [?items])" "fits (encode_ommers (ommers b))" "fits ?ws"
    by (simp_all add: fits_def)
  have i: "fits ?items" "fits (concat (map encode_block_header (ommers b)))"
    using fits_payload[OF f(1)] fits_payload[OF f(2)[unfolded encode_ommers_def]] by simp_all
  have ok: "list_all item_ok (transactions b)"
    using fits_item[OF i(1)] all assms(1) by (simp add: list_all_iff item_ok_def block_canonical_def)
  have t: "decode_transaction_list (encode_list2 [?items] @ q) = Inr (transactions b, q)" for q
    unfolding decode_transaction_list_def by (rule it.list_round_trip[OF ok fits_size[OF i(1)]])
  have o: "decode_block_header_vector (encode_ommers (ommers b) @ q) = Inr (ommers b, q)" for q
    unfolding decode_block_header_vector_def encode_ommers_def
    using assms(1) by (intro bh.list_round_trip fits_size[OF i(2)]) (simp add: block_canonical_def)
  have h: "decode_block_header (encode_block_header (header b) @ q) = Inr (header b, q)" for q
    using header_exact assms(1) by (simp add: block_canonical_def)
  have "parse_list_metadata (e @ rest) = Inr (?p, rest)"
    unfolding e using parse_list_exact[OF fits_size[OF p]] by simp
  then show ?thesis
    using h t o withdrawals_round_trip[OF f(3)] by (simp add: decode_block_def del: Try_eq_Inr)
qed

definition example_header :: block_header where
  "example_header = \<lparr>logs_bloom = replicate 256 0, parent_hash = 1, ommers_hash = 2, state_root = 3,
     transactions_root = 4, receipts_root = 5, prev_randao = 6, difficulty = 0, number = 9,
     gas_limit = 30000000, gas_used = 21000, timestamp = 17, header_nonce = replicate 8 0,
     extra_data = [], beneficiary = 7, base_fee_per_gas = Some 50, withdrawals_root = Some 8,
     blob_gas_used = None, excess_blob_gas = None, parent_beacon_block_root = None,
     requests_hash = None, slot_number = None\<rparr>"

definition example_block :: block where
  "example_block = \<lparr>header = example_header, transactions = [example_typed_tx], ommers = [example_header],
     withdrawals = Some []\<rparr>"

theorem decode_block_inverts_encode_witness:
  "\<exists>e. encode_block example_block = Inr e \<and> decode_block (e @ [1, 2]) = Inr (example_block, [1, 2])"
proof -
  let ?b = "tx_type_byte eip1559 # encode_list2 (typed_fields example_typed_tx 143 [])"
  let ?p = "[encode_block_header example_header @ encode_list2 [encode_string2 ?b] @
    encode_list2 [encode_block_header example_header] @ encode_list2 [[]]]"
  have "encode_transaction example_typed_tx = Inr ?b"
    using encode_typed_eq[of example_typed_tx 143 ?b] by (simp add: example_typed_tx_def)
  then have e: "encode_block example_block = Inr (encode_list2 ?p)"
    by (simp add: encode_block_def example_block_def encode_list_transaction_def encode_ommers_def
        encode_optional_def example_typed_tx_def)
  have h: "header_canonical example_header" by (simp add: header_canonical_def example_header_def)
  have "length (encode_block_header example_header) \<le> 2009"
    using length_header[OF h] encode_block_header_eq[OF h] by simp
  moreover have "length ?b \<le> 410"
    using length_typed_fields[of example_typed_tx 143]
    by (simp add: example_typed_tx_def default_transaction_def blob_bytes_def)
  ultimately have "fits (encode_list2 ?p)"
    using length_encode_list2_le[of ?p] length_encode_list2_le[of "[encode_string2 ?b]"]
      length_encode_string2_le[of ?b] length_encode_list2_le[of "[encode_block_header example_header]"]
      length_encode_list2_le[of "[[]]"]
    by (simp add: fits_def)
  moreover have "block_canonical example_block"
    using h by (simp add: block_canonical_def example_block_def tx_canonical_def example_typed_tx_def
        default_transaction_def has_priority_fee_def)
  ultimately show ?thesis using decode_block_inverts_encode[OF _ e] e by blast
qed

end
