(* ===== verification/Rlp_Buffer.thy ===== *)
theory Rlp_Buffer
  imports Rlp_Core
begin

text \<open>
  The RLP encoder into a buffer of the caller, \<open>category/core/rlp/encode.hpp\<close>. A span is the bytes
  that can still be written; an operation returns the bytes it has passed and the span behind them,
  with what it left there. A violated \<open>MONAD_ASSUME\<close> is undefined behaviour and fails the model.
\<close>

section \<open>Encoder\<close>

type_synonym written = "exn + bytes \<times> bytes"

definition countl_zero :: "u64 \<Rightarrow> nat" where
  "countl_zero n = length (takeWhile (\<lambda>i. \<not> bit n i) (rev [0..<64]))"

definition length_length :: "u64 \<Rightarrow> nat" where
  "length_length n = 8 - countl_zero n div 8"

text \<open>Storing at the start of a span, and advancing over \<open>k\<close> bytes of it.\<close>

definition store_bytes :: "bytes \<Rightarrow> bytes \<Rightarrow> bytes" where
  "store_bytes bs d = bs @ drop (length bs) d"

definition advance :: "nat \<Rightarrow> bytes \<Rightarrow> bytes \<times> bytes" where
  "advance k d = (take k d, drop k d)"

definition encode_length :: "bytes \<Rightarrow> u64 \<Rightarrow> written" where
  "encode_length d n =
     (let lz_bytes = countl_zero n div 8;
          n = (if n \<noteq> 0 then push_bit (lz_bytes * 8) n else n)
      in if length d < 8 then Inl AssertFail
         else Inr (advance (8 - lz_bytes) (store_bytes (be_bytes 8 (unat n)) d)))"

primrec store_compact :: "nat \<Rightarrow> u64 \<Rightarrow> bytes \<Rightarrow> bytes" where
  "store_compact 0 n d = d"
| "store_compact (Suc i) n d = store_compact i (drop_bit 8 n) (d[i := ucast n])"

definition encode_length_compact :: "bytes \<Rightarrow> u64 \<Rightarrow> written" where
  "encode_length_compact d n =
     (let len = length_length n in
      if length d < len then Inl AssertFail else Inr (advance len (store_compact len n d)))"

definition string_length :: "bytes \<Rightarrow> nat" where
  "string_length s =
     (if length s = 1 \<and> hd s \<le> 0x7F then 1
      else if length s \<le> 55 then 1 + length s
      else 1 + length_length (of_nat (length s)) + length s)"

text \<open>One byte, and a copy of a string, both checked against the room.\<close>

definition put_byte :: "u8 \<Rightarrow> bytes \<Rightarrow> written" where
  "put_byte b d = (if d = [] then Inl AssertFail else Inr (advance 1 (store_bytes [b] d)))"

definition put_bytes :: "bytes \<Rightarrow> bytes \<Rightarrow> written" where
  "put_bytes s d = (if length d < length s then Inl AssertFail else Inr (advance (length s) (store_bytes s d)))"

text \<open>The next operation goes on in the span the last one returned.\<close>

definition and_then :: "written \<Rightarrow> (bytes \<Rightarrow> written) \<Rightarrow> written" where
  "and_then w f = Try w (\<lambda>(a, d). Try (f d) (\<lambda>(b, d). Inr (a @ b, d)))"

definition encode_string :: "bytes \<Rightarrow> bytes \<Rightarrow> written" where
  "encode_string d s =
     (if d = [] then Inl AssertFail
      else if length s = 1 \<and> hd s \<le> 0x7F then put_byte (hd s) d
      else if length s \<le> 55 then and_then (put_byte (0x80 + of_nat (length s)) d) (put_bytes s)
      else
        and_then (and_then (put_byte (0xB7 + of_nat (length_length (of_nat (length s)))) d)
          (\<lambda>d. encode_length d (of_nat (length s)))) (put_bytes s))"

definition list_length :: "nat \<Rightarrow> nat" where
  "list_length concatenated_size =
     (if concatenated_size \<le> 55 then 1 + concatenated_size
      else 1 + length_length (of_nat concatenated_size) + concatenated_size)"

definition encode_list_prefix :: "bytes \<Rightarrow> nat \<Rightarrow> written" where
  "encode_list_prefix d payload_size =
     (if d = [] then Inl AssertFail
      else if payload_size \<le> 55 then put_byte (0xC0 + of_nat payload_size) d
      else and_then (put_byte (0xF7 + of_nat (length_length (of_nat payload_size))) d)
        (\<lambda>d. encode_length d (of_nat payload_size)))"

definition encode_list_prefix_compact :: "bytes \<Rightarrow> nat \<Rightarrow> written" where
  "encode_list_prefix_compact d payload_size =
     (if payload_size \<le> 55 then encode_list_prefix d payload_size
      else if d = [] then Inl AssertFail
      else and_then (put_byte (0xF7 + of_nat (length_length (of_nat payload_size))) d)
        (\<lambda>d. encode_length_compact d (of_nat payload_size)))"

definition encode_list :: "bytes \<Rightarrow> bytes \<Rightarrow> written" where
  "encode_list d s = and_then (encode_list_prefix d (length s)) (put_bytes s)"

text \<open>The overload of \<open>encode_unsigned\<close> of \<open>int_rlp.hpp\<close> for a span.\<close>

definition encode_unsigned_span :: "bytes \<Rightarrow> 'a::len word \<Rightarrow> written" where
  "encode_unsigned_span dest n = encode_string dest (zeroless_view (be_bytes (LENGTH('a) div 8) (unat n)))"

section \<open>The length of the length\<close>

lemma takeWhile_rev_upt:
  "length (takeWhile P (rev [0..<n])) \<ge> k \<longleftrightarrow> k \<le> n \<and> (\<forall>i. n - k \<le> i \<and> i < n \<longrightarrow> P i)"
proof (induction n arbitrary: k)
  case (Suc n)
  show ?case
  proof (cases k)
    case (Suc k')
    have "(\<forall>i. n - k' \<le> i \<and> i < Suc n \<longrightarrow> P i) \<longleftrightarrow> P n \<and> (\<forall>i. n - k' \<le> i \<and> i < n \<longrightarrow> P i)" if "k' \<le> n"
      using that by (auto simp: less_Suc_eq)
    then show ?thesis using Suc Suc.IH[of k'] by auto
  qed auto
qed auto

lemma countl_zero_le: "countl_zero n \<le> 64"
  unfolding countl_zero_def using length_takeWhile_le[of _ "rev [0..<64]"] by simp

lemma unat_less_iff_bits: "unat (w :: 'a::len word) < 2 ^ k \<longleftrightarrow> (\<forall>i. k \<le> i \<and> i < LENGTH('a) \<longrightarrow> \<not> bit w i)"
proof -
  have "unat w < 2 ^ k \<longleftrightarrow> take_bit k (unat w) = unat w" by (simp add: take_bit_nat_eq_self_iff)
  also have "\<dots> \<longleftrightarrow> take_bit k w = w"
    by (metis unsigned_take_bit_eq word_unat_eq_iff)
  also have "\<dots> \<longleftrightarrow> (\<forall>i. k \<le> i \<and> i < LENGTH('a) \<longrightarrow> \<not> bit w i)"
    by (auto simp: bit_eq_iff bit_take_bit_iff dest: bit_imp_le_length intro: leI)
  finally show ?thesis .
qed

lemma countl_zero_ge: "k \<le> 64 \<Longrightarrow> k \<le> countl_zero n \<longleftrightarrow> unat n < 2 ^ (64 - k)"
  unfolding countl_zero_def takeWhile_rev_upt unat_less_iff_bits by simp

lemma to_big_compact_length_le:
  assumes "j \<le> 8"
  shows "length (to_big_compact (n :: u64)) \<le> j \<longleftrightarrow> unat n < 256 ^ j"
proof
  assume l: "length (to_big_compact n) \<le> j"
  have "unat n < 256 ^ length (to_big_compact n)"
    using be_value_bound[of "to_big_compact n"] by (simp add: be_value_to_big_compact)
  also have "\<dots> \<le> 256 ^ j" using l by (intro power_increasing) simp_all
  finally show "unat n < 256 ^ j" .
next
  assume n: "unat n < 256 ^ j"
  have "to_big_compact n = zeroless_view (be_bytes j (unat n))"
    using assms length_zeroless[of "be_bytes j (unat n)"] zeroless_hd be_value_be_bytes[OF n]
    by (intro to_big_compact_unique) auto
  then show "length (to_big_compact n) \<le> j" using length_zeroless[of "be_bytes j (unat n)"] by simp
qed

lemma length_length_eq: "length_length n = length (to_big_compact n)"
proof -
  have "length_length n \<le> j \<longleftrightarrow> length (to_big_compact n) \<le> j" if "j \<le> 8" for j
  proof -
    have "length_length n \<le> j \<longleftrightarrow> 64 - 8 * j \<le> countl_zero n"
      using that countl_zero_le[of n] unfolding length_length_def by auto
    also have "\<dots> \<longleftrightarrow> unat n < 2 ^ (8 * j)"
      using that by (subst countl_zero_ge) simp_all
    also have "(2 :: nat) ^ (8 * j) = 256 ^ j" by (simp add: power_mult)
    finally show ?thesis unfolding to_big_compact_length_le[OF that] .
  qed
  moreover have "length_length n \<le> 8" "length (to_big_compact n) \<le> 8"
    using length_to_big_compact[of n] by (simp_all add: length_length_def)
  ultimately show ?thesis by (metis le_antisym order_refl)
qed

lemma be_bytes_shift: "be_bytes (a + b) (m * 256 ^ b) = be_bytes a m @ replicate b 0"
  by (induction b) (simp_all add: replicate_append_same mult.assoc[symmetric])

lemma encode_length_eq:
  assumes "n \<noteq> 0" "8 \<le> length d"
  shows "encode_length d n = Inr (to_big_compact n, replicate (8 - length (to_big_compact n)) 0 @ drop 8 d)"
proof -
  let ?lz = "countl_zero n div 8" and ?l = "length (to_big_compact n)"
  have lz: "?lz \<le> 8" "8 - ?lz = ?l" "?lz = 8 - ?l"
    using countl_zero_le[of n] length_length_eq[of n] by (simp_all add: length_length_def)
  have "unat n < 2 ^ (64 - 8 * ?lz)"
    using countl_zero_ge[of "8 * ?lz" n] lz(1) by simp
  then have "unat n * 2 ^ (8 * ?lz) < 2 ^ (64 - 8 * ?lz) * 2 ^ (8 * ?lz)" by simp
  also have "\<dots> = 2 ^ LENGTH(64)" using lz(1) by (simp flip: power_add)
  finally have "take_bit LENGTH(64) (unat n * 2 ^ (8 * ?lz)) = unat n * 2 ^ (8 * ?lz)"
    by (rule take_bit_nat_eq_self)
  moreover have "unat (push_bit (8 * ?lz) n) = take_bit LENGTH(64) (unat n * 2 ^ (8 * ?lz))"
    unfolding push_bit_eq_mult[symmetric] by (rule unsigned_push_bit_eq)
  ultimately have "unat (push_bit (8 * ?lz) n) = unat n * 256 ^ ?lz" by (simp add: power_mult)
  then have "be_bytes 8 (unat (push_bit (8 * ?lz) n)) = be_bytes ?l (unat n) @ replicate ?lz 0"
    using be_bytes_shift[of ?l ?lz "unat n"] lz by simp
  also have "be_bytes ?l (unat n) = to_big_compact n"
    using be_bytes_be_value[of "to_big_compact n"] by (simp add: be_value_to_big_compact)
  finally show ?thesis
    using assms lz by (simp add: encode_length_def Let_def advance_def store_bytes_def mult.commute)
qed

section \<open>The buffer encoder writes the string encoding\<close>

lemma put_byte_eq: "d \<noteq> [] \<Longrightarrow> put_byte b d = Inr ([b], drop 1 d)"
  by (simp add: put_byte_def advance_def store_bytes_def)

lemma put_bytes_eq: "length s \<le> length d \<Longrightarrow> put_bytes s d = Inr (s, drop (length s) d)"
  by (simp add: put_bytes_def advance_def store_bytes_def)

text \<open>
  The eight bytes that \<open>encode_length\<close> always stores reach over the length into the payload's place;
  a payload of the long form has at least 56 bytes and covers them.
\<close>

lemma long_form_eq:
  assumes "55 < length s" "length s < 2 ^ 64"
    and "1 + length (to_big_compact (of_nat (length s) :: u64)) + length s \<le> length d"
  shows "and_then (and_then (put_byte b d) (\<lambda>d. encode_length d (of_nat (length s)))) (put_bytes s) =
    Inr (b # to_big_compact (of_nat (length s) :: u64) @ s,
      drop (1 + length (to_big_compact (of_nat (length s) :: u64)) + length s) d)"
proof -
  let ?c = "to_big_compact (of_nat (length s) :: u64)"
  have "length s = unat (of_nat (length s) :: u64)" using assms(2) by (simp add: unat_of_nat)
  then have nz: "(of_nat (length s) :: u64) \<noteq> 0" using assms(1) by auto
  have c: "1 \<le> length ?c" "length ?c \<le> 8" using size_str_bounds[of "length s"] assms by simp_all
  have d: "d \<noteq> []" "8 \<le> length (drop 1 d)" using assms by auto
  have "put_bytes s (replicate (8 - length ?c) 0 @ drop 8 (drop 1 d)) = Inr (s, drop (1 + length ?c + length s) d)"
    using assms c by (subst put_bytes_eq) (simp_all add: add.commute)
  then show ?thesis
    using put_byte_eq[OF d(1), of b] encode_length_eq[OF nz d(2)] by (simp add: and_then_def)
qed

text \<open>
  C20: the encoder into a buffer is equivalent to the encoder into a string. With room for
  \<open>string_length s\<close> bytes, it writes exactly \<open>encode_string2 s\<close>, which has that length, and leaves the
  rest of the buffer as it was, although it stores the length with eight bytes.
\<close>

theorem encode_string_writes_encode_string2:
  assumes "length s < 2 ^ 32" "string_length s \<le> length d"
  shows "encode_string d s = Inr (encode_string2 s, drop (string_length s) d) \<and>
    length (encode_string2 s) = string_length s"
proof -
  let ?c = "to_big_compact (of_nat (length s) :: u64)"
  have d: "d \<noteq> []" using assms(2) by (auto simp: string_length_def split: if_splits)
  consider (byte) "length s = 1 \<and> hd s \<le> 0x7F" | (short) "\<not> (length s = 1 \<and> hd s \<le> 0x7F)" "length s \<le> 55"
    | (long) "55 < length s" by linarith
  then show ?thesis
  proof cases
    case byte
    then obtain x where "s = [x]" by (cases s) auto
    then show ?thesis using byte d
      by (simp add: encode_string_def put_byte_eq encode_string2_eq string_length_def)
  next
    case short
    then have "encode_string2 s = [0x80 + of_nat (length s)] @ s" "string_length s = 1 + length s"
      using encode_string2_eq[OF assms(1)] by (auto simp: string_length_def)
    then show ?thesis using short d assms(2)
      by (auto simp: encode_string_def put_byte_eq put_bytes_eq and_then_def)
  next
    case long
    then have "encode_string2 s = [0xb7 + of_nat (length ?c)] @ ?c @ s"
      "string_length s = 1 + length ?c + length s"
      using encode_string2_eq[OF assms(1)] by (auto simp: string_length_def length_length_eq)
    then show ?thesis using long d assms long_form_eq[of s d]
      by (simp add: encode_string_def length_length_eq)
  qed
qed

theorem encode_string_writes_encode_string2_witness:
  "encode_string [9, 9, 9, 9] [1, 2] = Inr ([0x82, 1, 2], [9])"
proof -
  have "encode_string2 [1, 2] = [0x82, 1, 2]" by (simp add: encode_string2_def Let_def)
  then show ?thesis
    using encode_string_writes_encode_string2[of "[1, 2]" "[9, 9, 9, 9]"] by (simp add: string_length_def)
qed

lemma store_compact_eq: "i \<le> length d \<Longrightarrow> store_compact i n d = be_bytes i (unat n) @ drop i d"
proof (induction i arbitrary: n d)
  case (Suc i)
  have "unat (drop_bit 8 n) = unat n div 256" by (simp add: drop_bit_eq_div unat_div)
  moreover have "(ucast n :: u8) = of_nat (unat n mod 256)"
    by (simp add: word_unat_eq_iff unsigned_ucast_eq take_bit_eq_mod unat_of_nat)
  moreover have "drop i (d[i := x]) = x # drop (Suc i) d" for x
    using Suc.prems by (simp add: Cons_nth_drop_Suc[symmetric])
  ultimately show ?case using Suc by simp
qed simp

lemma encode_length_compact_eq:
  assumes "length (to_big_compact n) \<le> length d"
  shows "encode_length_compact d n = Inr (to_big_compact n, drop (length (to_big_compact n)) d)"
proof -
  have "be_bytes (length (to_big_compact n)) (unat n) = to_big_compact n"
    using be_bytes_be_value[of "to_big_compact n"] by (simp add: be_value_to_big_compact)
  then show ?thesis
    using assms by (simp add: encode_length_compact_def length_length_eq store_compact_eq advance_def)
qed

text \<open>
  C21: the same for lists. \<open>encode_list\<close> writes \<open>encode_list2\<close> of the payload and leaves what follows;
  the compact prefix writes the header alone and touches no byte behind it.
\<close>

theorem encode_list_writes_encode_list2:
  assumes "length s < 2 ^ 64" "list_length (length s) \<le> length d"
  shows "encode_list d s = Inr (encode_list2 [s], drop (list_length (length s)) d) \<and>
    (let h = list_length (length s) - length s
     in encode_list_prefix_compact d (length s) = Inr (take h (encode_list2 [s]), drop h d))"
proof (cases "length s \<le> 55")
  case True
  then show ?thesis using assms
    by (cases d) (auto simp: encode_list_def encode_list_prefix_compact_def encode_list_prefix_def
        encode_list2_eq list_length_def put_byte_eq put_bytes_eq and_then_def)
next
  case False
  let ?c = "to_big_compact (of_nat (length s) :: u64)"
  have l: "list_length (length s) = 1 + length ?c + length s"
    using False by (simp add: list_length_def length_length_eq)
  then have d: "d \<noteq> []" "length ?c \<le> length (drop 1 d)" using assms(2) by auto
  have e: "encode_list2 [s] = (0xf7 + of_nat (length ?c)) # ?c @ s"
    using False assms(1) by (simp add: encode_list2_eq Let_def)
  have "encode_list d s = Inr (encode_list2 [s], drop (list_length (length s)) d)"
    using False assms l d(1) long_form_eq[of s d]
    by (simp add: encode_list_def encode_list_prefix_def e length_length_eq)
  moreover have "encode_list_prefix_compact d (length s) = Inr (take (1 + length ?c) (encode_list2 [s]), drop (1 + length ?c) d)"
    using False d encode_length_compact_eq[OF d(2)]
    by (simp add: encode_list_prefix_compact_def e length_length_eq put_byte_eq and_then_def)
  ultimately show ?thesis unfolding l by simp
qed

theorem encode_list_writes_encode_list2_witness:
  "encode_list [9, 9, 9, 9] [1, 2] = Inr ([0xc2, 1, 2], [9]) \<and>
   encode_list_prefix_compact [9, 9, 9, 9] (length [1 :: u8, 2]) = Inr ([0xc2], [9, 9, 9])"
proof -
  have "encode_list2 [[1, 2]] = [0xc2, 1, 2]" by (simp add: encode_list2_def)
  then show ?thesis
    using encode_list_writes_encode_list2[of "[1, 2]" "[9, 9, 9, 9]"]
    by (simp add: list_length_def)
qed

end
