(* ===== verification/Block_Hash.thy ===== *)
theory Block_Hash
  imports Core_Types
begin

text \<open>
  The hashes of recent blocks, \<open>category/execution/ethereum/block_hash_buffer.cpp\<close>: a ring buffer of the
  finalized blocks, a buffer of the blocks since then for every proposal, and the tree of proposals.
  Proposals point to the ring buffer that \<open>finalize\<close> changes, so the operations on them take its
  current content. Block numbers are natural numbers with the wrap at \<open>2 ^ 64\<close> written out.
\<close>

section \<open>Buffers\<close>

definition N_BLOCKS :: nat where
  "N_BLOCKS = 256"

record finalized_buffer =
  fb_b :: "bytes32 list"
  fb_n :: nat

definition BlockHashBufferFinalized :: finalized_buffer where
  "BlockHashBufferFinalized = \<lparr>fb_b = replicate N_BLOCKS NULL_HASH, fb_n = 0\<rparr>"

text \<open>\<open>n < n_ && n + N_BLOCKS >= n_\<close>, the window of the last \<open>N\<close> blocks.\<close>

definition in_window :: "nat \<Rightarrow> nat \<Rightarrow> bool" where
  "in_window n m \<longleftrightarrow> n < m \<and> (n + N_BLOCKS) mod 2 ^ 64 \<ge> m"

definition fb_get :: "nat \<Rightarrow> finalized_buffer \<Rightarrow> bytes32 res" where
  "fb_get n buf = (if in_window n (fb_n buf) then Inr (fb_b buf ! (n mod N_BLOCKS)) else Inl AssertFail)"

definition fb_set :: "nat \<Rightarrow> bytes32 \<Rightarrow> finalized_buffer \<Rightarrow> finalized_buffer res" where
  "fb_set n h buf =
     (if fb_n buf = 0 \<or> n = fb_n buf
      then Inr (buf\<lparr>fb_b := (fb_b buf)[n mod N_BLOCKS := h], fb_n := (n + 1) mod 2 ^ 64\<rparr>)
      else Inl AssertFail)"

record proposal_buffer =
  pb_n :: nat
  pb_deltas :: "bytes32 list"

definition proposal_on_finalized :: "bytes32 \<Rightarrow> finalized_buffer \<Rightarrow> proposal_buffer" where
  "proposal_on_finalized h buf = \<lparr>pb_n = (fb_n buf + 1) mod 2 ^ 64, pb_deltas = [h]\<rparr>"

definition resize :: "nat \<Rightarrow> bytes32 list \<Rightarrow> bytes32 list" where
  "resize k xs = take k xs @ replicate (k - length xs) 0"

definition proposal_on_proposal ::
  "bytes32 \<Rightarrow> proposal_buffer \<Rightarrow> finalized_buffer \<Rightarrow> proposal_buffer res" where
  "proposal_on_proposal h parent buf =
     (let n = (pb_n parent + 1) mod 2 ^ 64 in
      if n > 0 \<and> n > fb_n buf
      then Inr \<lparr>pb_n = n, pb_deltas = resize (n - fb_n buf) (h # pb_deltas parent)\<rparr>
      else Inl AssertFail)"

definition pb_get :: "nat \<Rightarrow> proposal_buffer \<Rightarrow> finalized_buffer \<Rightarrow> bytes32 res" where
  "pb_get n p buf =
     (if in_window n (pb_n p) then
        (let idx = pb_n p - n - 1 in
         if idx < length (pb_deltas p) then Inr (pb_deltas p ! idx) else fb_get n buf)
      else Inl AssertFail)"

section \<open>The tree of proposals\<close>

record hash_proposal =
  hp_block_number :: nat
  hp_block_id :: bytes32
  hp_parent_id :: bytes32
  hp_buf :: proposal_buffer

record hash_chain =
  hc_buf :: finalized_buffer
  hc_proposals :: "hash_proposal list"

definition BlockHashChain :: "finalized_buffer \<Rightarrow> hash_chain" where
  "BlockHashChain buf = \<lparr>hc_buf = buf, hc_proposals = []\<rparr>"

definition find_proposal :: "bytes32 \<Rightarrow> hash_chain \<Rightarrow> hash_proposal option" where
  "find_proposal block_id c = find (\<lambda>p. hp_block_id p = block_id) (hc_proposals c)"

definition propose :: "bytes32 \<Rightarrow> nat \<Rightarrow> bytes32 \<Rightarrow> bytes32 \<Rightarrow> hash_chain \<Rightarrow> hash_chain res" where
  "propose hash block_number block_id parent_id c =
     Try (case find_proposal parent_id c of
            Some p \<Rightarrow> proposal_on_proposal hash (hp_buf p) (hc_buf c)
          | None \<Rightarrow> Inr (proposal_on_finalized hash (hc_buf c))) (\<lambda>buf.
       Inr (c\<lparr>hc_proposals := hc_proposals c @
         [\<lparr>hp_block_number = block_number, hp_block_id = block_id, hp_parent_id = parent_id, hp_buf = buf\<rparr>]\<rparr>))"

definition finalize :: "bytes32 \<Rightarrow> hash_chain \<Rightarrow> hash_chain res" where
  "finalize block_id c =
     (let to_finalize = fb_n (hc_buf c) in
      case find_proposal block_id c of
        None \<Rightarrow> Inl AssertFail
      | Some winner \<Rightarrow>
          if (pb_n (hp_buf winner) + (2 ^ 64 - 1)) mod 2 ^ 64 \<noteq> to_finalize then Inl AssertFail
          else
            Try (pb_get to_finalize (hp_buf winner) (hc_buf c)) (\<lambda>h.
            Try (fb_set to_finalize h (hc_buf c)) (\<lambda>buf.
              Inr (c\<lparr>hc_buf := buf,
                hc_proposals := filter (\<lambda>p. \<not> hp_block_number p \<le> hp_block_number winner) (hc_proposals c)\<rparr>))))"

text \<open>The buffer that \<open>find_chain\<close> returns, and the read through it.\<close>

definition find_chain :: "bytes32 \<Rightarrow> hash_chain \<Rightarrow> proposal_buffer option" where
  "find_chain block_id c = map_option hp_buf (find_proposal block_id c)"

definition chain_get :: "nat \<Rightarrow> bytes32 \<Rightarrow> hash_chain \<Rightarrow> bytes32 res" where
  "chain_get n block_id c =
     (case find_chain block_id c of
        Some p \<Rightarrow> pb_get n p (hc_buf c) | None \<Rightarrow> fb_get n (hc_buf c))"

section \<open>Invariant\<close>

text \<open>
  Every proposal is above the finalized blocks and its deltas reach down to them. Numbers stay away
  from the wrap of the window check.
\<close>

definition proposal_ok :: "finalized_buffer \<Rightarrow> hash_proposal \<Rightarrow> bool" where
  "proposal_ok buf p \<longleftrightarrow> pb_n (hp_buf p) = hp_block_number p + 1 \<and> pb_n (hp_buf p) + N_BLOCKS < 2 ^ 64 \<and>
     fb_n buf < pb_n (hp_buf p) \<and> pb_n (hp_buf p) \<le> fb_n buf + length (pb_deltas (hp_buf p))"

definition chain_ok :: "hash_chain \<Rightarrow> bool" where
  "chain_ok c \<longleftrightarrow> length (fb_b (hc_buf c)) = N_BLOCKS \<and> fb_n (hc_buf c) + N_BLOCKS < 2 ^ 64 \<and>
     list_all (proposal_ok (hc_buf c)) (hc_proposals c)"

lemma in_window_eq: "m + N_BLOCKS < 2 ^ 64 \<Longrightarrow> in_window n m \<longleftrightarrow> n < m \<and> m \<le> n + N_BLOCKS"
  by (auto simp: in_window_def)

lemma find_proposal_ok:
  "chain_ok c \<Longrightarrow> find_proposal i c = Some p \<Longrightarrow> proposal_ok (hc_buf c) p \<and> p \<in> set (hc_proposals c)"
  by (auto simp: chain_ok_def find_proposal_def list_all_iff find_Some_iff)

lemma ring_slot_distinct:
  assumes "n < m" "m < n + N_BLOCKS"
  shows "n mod N_BLOCKS \<noteq> m mod N_BLOCKS"
proof
  assume "n mod N_BLOCKS = m mod N_BLOCKS"
  then have "N_BLOCKS dvd m - n" using assms(1) by (metis mod_eq_dvd_iff_nat less_imp_le)
  then show False using assms dvd_imp_le[of N_BLOCKS "m - n"] by simp
qed

lemma fb_set_get:
  assumes "length (fb_b buf) = N_BLOCKS" "fb_n buf + 1 + N_BLOCKS < 2 ^ 64"
    and "fb_set (fb_n buf) h buf = Inr buf'"
  shows "fb_n buf' = fb_n buf + 1" "length (fb_b buf') = N_BLOCKS" "fb_get (fb_n buf) buf' = Inr h"
    "n < fb_n buf \<Longrightarrow> fb_n buf < n + N_BLOCKS \<Longrightarrow> fb_get n buf' = fb_get n buf"
proof -
  have b: "buf' = buf\<lparr>fb_b := (fb_b buf)[fb_n buf mod N_BLOCKS := h], fb_n := fb_n buf + 1\<rparr>"
    using assms by (simp add: fb_set_def)
  have w: "in_window k (fb_n buf + 1) \<longleftrightarrow> k < fb_n buf + 1 \<and> fb_n buf + 1 \<le> k + N_BLOCKS"
    "in_window k (fb_n buf) \<longleftrightarrow> k < fb_n buf \<and> fb_n buf \<le> k + N_BLOCKS" for k
    using assms(2) by (simp_all only: in_window_eq)
  have pos: "0 < N_BLOCKS" by (simp add: N_BLOCKS_def)
  show "fb_n buf' = fb_n buf + 1" "length (fb_b buf') = N_BLOCKS" using b assms(1) by simp_all
  show "fb_get (fb_n buf) buf' = Inr h" using b assms(1) w(1) pos by (simp add: fb_get_def)
  assume n: "n < fb_n buf" "fb_n buf < n + N_BLOCKS"
  then show "fb_get n buf' = fb_get n buf"
    using ring_slot_distinct[OF n] b w[of n] by (simp add: fb_get_def)
qed

text \<open>What a proposal sees of the finalized blocks does not change when the next one is finalized.\<close>

lemma pb_get_finalized:
  assumes p: "proposal_ok buf p" "fb_n buf + 1 < pb_n (hp_buf p)"
    and "length (fb_b buf) = N_BLOCKS" "fb_set (fb_n buf) h buf = Inr buf'"
  shows "pb_get n (hp_buf p) buf' = pb_get n (hp_buf p) buf"
proof (cases "in_window n (pb_n (hp_buf p)) \<and> \<not> pb_n (hp_buf p) - n - 1 < length (pb_deltas (hp_buf p))")
  case True
  then have "n < fb_n buf" "fb_n buf < n + N_BLOCKS"
    using p in_window_eq[of "pb_n (hp_buf p)" n] by (auto simp: proposal_ok_def)
  then have "fb_get n buf' = fb_get n buf"
    using p assms(3,4) by (intro fb_set_get(4)) (simp_all add: proposal_ok_def)
  then show ?thesis by (simp add: pb_get_def Let_def)
qed (auto simp: pb_get_def Let_def)

section \<open>Finalization\<close>

lemma finalize_run:
  assumes "chain_ok c" "finalize i c = Inr c'"
  obtains w h buf where "find_proposal i c = Some w" "pb_n (hp_buf w) = fb_n (hc_buf c) + 1"
    "hp_block_number w = fb_n (hc_buf c)" "pb_get (fb_n (hc_buf c)) (hp_buf w) (hc_buf c) = Inr h"
    "fb_set (fb_n (hc_buf c)) h (hc_buf c) = Inr buf"
    "c' = c\<lparr>hc_buf := buf,
      hc_proposals := filter (\<lambda>p. \<not> hp_block_number p \<le> fb_n (hc_buf c)) (hc_proposals c)\<rparr>"
proof -
  obtain w where w: "find_proposal i c = Some w"
    using assms(2) by (cases "find_proposal i c") (auto simp: finalize_def)
  note ok = conjunct1[OF find_proposal_ok[OF assms(1) w]]
  have "(pb_n (hp_buf w) + (2 ^ 64 - 1)) mod 2 ^ 64 = pb_n (hp_buf w) - 1"
    using ok by (simp add: proposal_ok_def)
  then have n: "pb_n (hp_buf w) - 1 = fb_n (hc_buf c)"
    using assms(2) w by (simp add: finalize_def Let_def split: if_splits)
  then have n': "pb_n (hp_buf w) = fb_n (hc_buf c) + 1" "hp_block_number w = fb_n (hc_buf c)"
    using ok by (auto simp: proposal_ok_def)
  obtain h buf where "pb_get (fb_n (hc_buf c)) (hp_buf w) (hc_buf c) = Inr h"
    "fb_set (fb_n (hc_buf c)) h (hc_buf c) = Inr buf"
    "c' = c\<lparr>hc_buf := buf,
      hc_proposals := filter (\<lambda>p. \<not> hp_block_number p \<le> fb_n (hc_buf c)) (hc_proposals c)\<rparr>"
    using assms(2) w n'(2) by (clarsimp simp: finalize_def Let_def split: if_splits)
  then show thesis by (rule that[OF w n'])
qed

text \<open>
  C22: finalizing a block does not change what any remaining proposal sees, on this branch or on
  another: every lookup of every proposal above the block gives the same answer before and after. The
  finalized buffer gets the hash that the winner has for the block and keeps the hashes of the 255
  blocks before it, and the invariant of the chain is preserved.
\<close>

theorem finalize_keeps_views:
  assumes "chain_ok c" "finalize i c = Inr c'"
  shows "chain_ok c' \<and>
    (\<forall>p \<in> set (hc_proposals c'). p \<in> set (hc_proposals c) \<and>
       (\<forall>n. pb_get n (hp_buf p) (hc_buf c') = pb_get n (hp_buf p) (hc_buf c))) \<and>
    (\<forall>w. find_proposal i c = Some w \<longrightarrow>
       fb_get (fb_n (hc_buf c)) (hc_buf c') = pb_get (fb_n (hc_buf c)) (hp_buf w) (hc_buf c)) \<and>
    (\<forall>n. n < fb_n (hc_buf c) \<and> fb_n (hc_buf c) < n + N_BLOCKS \<longrightarrow> fb_get n (hc_buf c') = fb_get n (hc_buf c))"
proof -
  let ?b = "hc_buf c"
  obtain w h buf where w: "find_proposal i c = Some w" "pb_n (hp_buf w) = fb_n ?b + 1"
      "pb_get (fb_n ?b) (hp_buf w) ?b = Inr h" "fb_set (fb_n ?b) h ?b = Inr buf"
      "c' = c\<lparr>hc_buf := buf, hc_proposals := filter (\<lambda>p. \<not> hp_block_number p \<le> fb_n ?b) (hc_proposals c)\<rparr>"
    using finalize_run[OF assms] by blast
  have len: "length (fb_b ?b) = N_BLOCKS" using assms(1) by (simp add: chain_ok_def)
  have room: "fb_n ?b + 1 + N_BLOCKS < 2 ^ 64"
    using find_proposal_ok[OF assms(1) w(1)] w(2) by (simp add: proposal_ok_def)
  note set = fb_set_get[OF len room w(4)]
  have above: "proposal_ok ?b p \<and> fb_n ?b + 1 < pb_n (hp_buf p)" if "p \<in> set (hc_proposals c')" for p
    using that assms(1) w(5) by (auto simp: chain_ok_def list_all_iff proposal_ok_def)
  have "proposal_ok buf p" if "p \<in> set (hc_proposals c')" for p
    using above[OF that] set(1) by (simp add: proposal_ok_def)
  then have "chain_ok c'"
    using set(1,2) room w(5) by (simp add: chain_ok_def list_all_iff)
  moreover have "pb_get n (hp_buf p) buf = pb_get n (hp_buf p) ?b" if "p \<in> set (hc_proposals c')" for p n
    using above[OF that] len w(4) by (intro pb_get_finalized) simp_all
  ultimately show ?thesis using set(3,4) w by auto
qed

text \<open>Two proposals on an empty chain, one on top of the other.\<close>

definition example_chain :: hash_chain where
  "example_chain = \<lparr>hc_buf = BlockHashBufferFinalized, hc_proposals =
     [\<lparr>hp_block_number = 0, hp_block_id = 1, hp_parent_id = 0, hp_buf = \<lparr>pb_n = 1, pb_deltas = [11]\<rparr>\<rparr>,
      \<lparr>hp_block_number = 1, hp_block_id = 2, hp_parent_id = 1, hp_buf = \<lparr>pb_n = 2, pb_deltas = [12, 11]\<rparr>\<rparr>]\<rparr>"

lemma example_chain_ok: "chain_ok example_chain"
  by (simp add: example_chain_def chain_ok_def proposal_ok_def BlockHashBufferFinalized_def N_BLOCKS_def)

lemma example_chain_reached:
  "Try (propose 11 0 1 0 (BlockHashChain BlockHashBufferFinalized)) (propose 12 1 2 1) = Inr example_chain"
  by (simp add: example_chain_def propose_def find_proposal_def BlockHashChain_def proposal_on_finalized_def
      proposal_on_proposal_def resize_def BlockHashBufferFinalized_def)

theorem finalize_keeps_views_witness:
  "\<exists>c'. finalize 1 example_chain = Inr c' \<and> hc_proposals c' = [hc_proposals example_chain ! 1] \<and>
     fb_get 0 (hc_buf c') = Inr 11 \<and>
     pb_get 0 (hp_buf (hc_proposals c' ! 0)) (hc_buf c') = Inr 11"
proof -
  let ?w = "hc_proposals example_chain ! 0"
  have f: "find_proposal 1 example_chain = Some ?w" by (simp add: example_chain_def find_proposal_def)
  have g: "pb_get 0 (hp_buf ?w) (hc_buf example_chain) = Inr 11" "fb_n (hc_buf example_chain) = 0"
    "pb_get 0 (hp_buf (hc_proposals example_chain ! 1)) (hc_buf example_chain) = Inr 11"
    by (simp_all add: example_chain_def pb_get_def in_window_def N_BLOCKS_def BlockHashBufferFinalized_def)
  have "\<exists>c'. finalize 1 example_chain = Inr c' \<and> hc_proposals c' = [hc_proposals example_chain ! 1]"
    by (simp add: finalize_def Let_def example_chain_def find_proposal_def pb_get_def in_window_def
        N_BLOCKS_def BlockHashBufferFinalized_def fb_set_def del: Try_eq_Inr)
  then obtain c' where c: "finalize 1 example_chain = Inr c'" "hc_proposals c' = [hc_proposals example_chain ! 1]"
    by blast
  with finalize_keeps_views[OF example_chain_ok c(1)] f g show ?thesis by simp
qed

text \<open>
  C23: a proposal at the height of the next finalized block can be finalized: none of the assertions
  of \<open>finalize\<close> fails.
\<close>

theorem finalize_succeeds:
  assumes "chain_ok c" "find_proposal i c = Some w" "hp_block_number w = fb_n (hc_buf c)"
  shows "\<exists>c'. finalize i c = Inr c'"
proof -
  let ?b = "hc_buf c"
  have ok: "proposal_ok ?b w" using find_proposal_ok[OF assms(1,2)] by simp
  then have n: "pb_n (hp_buf w) = fb_n ?b + 1" "(pb_n (hp_buf w) + (2 ^ 64 - 1)) mod 2 ^ 64 = fb_n ?b"
    using assms(3) by (simp_all add: proposal_ok_def)
  have "in_window (fb_n ?b) (pb_n (hp_buf w))" "0 < length (pb_deltas (hp_buf w))"
    using ok n(1) by (auto simp: in_window_def proposal_ok_def N_BLOCKS_def)
  then obtain h where "pb_get (fb_n ?b) (hp_buf w) ?b = Inr h" using n(1) by (simp add: pb_get_def)
  then show ?thesis using assms(2) n(2) by (simp add: finalize_def fb_set_def Let_def)
qed

theorem finalize_succeeds_witness: "\<exists>c'. finalize 1 example_chain = Inr c'"
  by (rule finalize_succeeds[OF example_chain_ok, where w = "hc_proposals example_chain ! 0"])
    (simp_all add: example_chain_def find_proposal_def BlockHashBufferFinalized_def)

section \<open>Proposals\<close>



end
