(* ===== verification/Uint256.thy ===== *)
theory Uint256
  imports Monad_Prelude
begin

text \<open>
  The 256-bit integers of the client (\<open>core/runtime/uint256.hpp\<close> with \<open>uint256/portable.hpp\<close> and
  \<open>uint256/intrinsics.hpp\<close>): four 64-bit words with the least significant first, and the operations on
  them by carry chains, double-word products and funnel shifts. A \<open>words_t<N>\<close> is a list of \<open>N\<close>
  words, and \<open>wval\<close> is the number it stands for; the lemmas say that each operation computes the
  arithmetic one on these numbers. The inline assembly of the intrinsics is modelled by what the
  instructions compute.
\<close>

unbundle bit_operations_syntax

type_synonym words = "u64 list"
type_synonym u128 = "128 word"

section \<open>Words and their value\<close>

definition BASE :: nat where
  "BASE = 2 ^ 64"

primrec wval :: "words \<Rightarrow> nat" where
  "wval [] = 0"
| "wval (w # ws) = unat w + BASE * wval ws"

definition of_u256 :: "u256 \<Rightarrow> words" where
  "of_u256 x = [ucast x, ucast (drop_bit 64 x), ucast (drop_bit 128 x), ucast (drop_bit 192 x)]"

definition to_u256 :: "words \<Rightarrow> u256" where
  "to_u256 x = of_nat (wval x)"

lemma BASE_pos [simp]: "0 < BASE" "BASE \<noteq> 0" "1 < BASE"
  by (simp_all add: BASE_def)

lemma BASE_power: "BASE ^ k = 2 ^ (64 * k)"
  by (simp add: BASE_def power_mult)

lemma u64_bound: "unat (w :: u64) < BASE"
  using unsigned_less[of w] by (simp add: BASE_def)

lemma digit_less: "x < b \<Longrightarrow> y < c \<Longrightarrow> x + b * y < b * (c :: nat)"
  by (metis add_less_mono1 less_le_trans mult_Suc_right mult_le_mono2 Suc_leI)

lemma wval_bound: "wval ws < BASE ^ length ws"
  by (induction ws) (simp_all add: digit_less u64_bound)

lemma wval_append: "wval (xs @ ys) = wval xs + BASE ^ length xs * wval ys"
  by (induction xs) (simp_all add: algebra_simps)

lemma wval_replicate_0 [simp]: "wval (replicate n 0) = 0"
  by (induction n) simp_all

lemma wval_take_drop: "n \<le> length xs \<Longrightarrow> wval xs = wval (take n xs) + BASE ^ n * wval (drop n xs)"
  using wval_append[of "take n xs" "drop n xs"] by (simp add: min_absorb1)

lemma wval_take: "n \<le> length xs \<Longrightarrow> wval (take n xs) = wval xs mod BASE ^ n"
  using wval_take_drop[of n xs] wval_bound[of "take n xs"] by (simp add: min_absorb1)

lemma wval_drop: "n \<le> length xs \<Longrightarrow> wval (drop n xs) = wval xs div BASE ^ n"
  using wval_take_drop[of n xs] wval_bound[of "take n xs"] by (simp add: min_absorb1)

lemma wval_snoc: "wval (xs @ [w]) = wval xs + BASE ^ length xs * unat w"
  by (simp add: wval_append)

lemma wval_update:
  "i < length xs \<Longrightarrow> wval (xs[i := w]) + BASE ^ i * unat (xs ! i) = wval xs + BASE ^ i * unat w"
proof (induction xs arbitrary: i)
  case (Cons x xs)
  show ?case
  proof (cases i)
    case (Suc j)
    then have "wval (xs[j := w]) + BASE ^ j * unat (xs ! j) = wval xs + BASE ^ j * unat w"
      using Cons by simp
    from arg_cong[OF this, of "\<lambda>n. BASE * n"] show ?thesis
      using Suc by (simp add: algebra_simps)
  qed simp
qed simp

lemma wval_Cons_mod [simp]: "wval (x # xs) mod BASE = unat x"
  by (simp add: u64_bound)

lemma wval_inject: "length xs = length ys \<Longrightarrow> wval xs = wval ys \<Longrightarrow> xs = ys"
proof (induction xs ys rule: list_induct2)
  case (Cons x xs y ys)
  have "unat x = unat y" using Cons.prems wval_Cons_mod by metis
  with Cons show ?case by (simp add: word_unat_eq_iff)
qed simp

lemma wval_of_u256 [simp]: "wval (of_u256 x) = unat x"
proof -
  let ?n = "unat x"
  have "?n < 2 ^ 256" using unsigned_less[of x] by simp
  then have n: "?n div BASE ^ 4 = 0" by (simp add: BASE_power)
  have w: "unat (ucast (drop_bit (64 * k) x) :: u64) = ?n div BASE ^ k mod BASE" for k
    unfolding unsigned_ucast_eq unat_drop_bit_eq BASE_power
    by (simp add: drop_bit_eq_div take_bit_eq_mod BASE_def)
  have d: "?n div BASE ^ k = ?n div BASE ^ k mod BASE + BASE * (?n div BASE ^ Suc k)" for k
    by (simp add: div_mult2_eq mult.commute[of BASE])
  have "wval (of_u256 x) = ?n div BASE ^ 0 mod BASE + BASE * (?n div BASE ^ 1 mod BASE +
      BASE * (?n div BASE ^ 2 mod BASE + BASE * (?n div BASE ^ 3 mod BASE)))"
    using w[of 0] w[of 1] w[of 2] w[of 3] by (simp add: of_u256_def)
  with d[of 0] d[of 1] d[of 2] d[of 3] n show ?thesis
    by (simp add: numeral_2_eq_2 numeral_3_eq_3 eval_nat_numeral(2,3))
qed

lemma length_of_u256 [simp]: "length (of_u256 x) = 4"
  by (simp add: of_u256_def)

lemma to_of_u256 [simp]: "to_u256 (of_u256 x) = x"
  by (simp add: to_u256_def)

lemma wval_bound4: "length x = 4 \<Longrightarrow> wval x < 2 ^ 256"
  using wval_bound[of x] by (simp add: BASE_power)

lemma unat_to_u256: "length x = 4 \<Longrightarrow> unat (to_u256 x) = wval x"
  using wval_bound4[of x] by (simp add: to_u256_def unat_of_nat)

lemma of_to_u256: "length x = 4 \<Longrightarrow> of_u256 (to_u256 x) = x"
  by (rule wval_inject) (simp_all add: unat_to_u256)

section \<open>Operations on one word\<close>

definition addc :: "u64 \<Rightarrow> u64 \<Rightarrow> bool \<Rightarrow> u64 \<times> bool" where
  "addc lhs rhs carry_in =
     (let sum = lhs + rhs;
          sum_carry = sum + of_bool carry_in
      in (sum_carry, sum < lhs \<or> sum_carry < sum))"

definition subb :: "u64 \<Rightarrow> u64 \<Rightarrow> bool \<Rightarrow> u64 \<times> bool" where
  "subb lhs rhs borrow_in =
     (let sub = lhs - rhs
      in (sub - of_bool borrow_in, rhs > lhs \<or> of_bool borrow_in > sub))"

definition shld :: "u64 \<Rightarrow> u64 \<Rightarrow> nat \<Rightarrow> u64" where
  "shld high low shift = push_bit shift high OR drop_bit (63 - shift) (drop_bit 1 low)"

definition shrd :: "u64 \<Rightarrow> u64 \<Rightarrow> nat \<Rightarrow> u64" where
  "shrd high low shift = drop_bit shift low OR push_bit (63 - shift) (push_bit 1 high)"

definition div_words :: "u64 \<Rightarrow> u64 \<Rightarrow> u64 \<Rightarrow> u64 \<times> u64" where
  "div_words u_hi u_lo v =
     (let u = push_bit 64 (ucast u_hi) OR ucast u_lo :: u128
      in (ucast (u div ucast v), ucast (u mod ucast v)))"

definition mulx :: "u64 \<Rightarrow> u64 \<Rightarrow> u64 \<times> u64" where
  "mulx x y =
     (let prod = ucast x * ucast y :: u128
      in (ucast (drop_bit 64 prod), ucast prod))"

lemma addc_value:
  "addc x y c = (r, d) \<Longrightarrow> unat r + BASE * of_bool d = unat x + unat y + of_bool c"
proof -
  assume *: "addc x y c = (r, d)"
  have nat: "n mod BASE + BASE * of_bool (BASE \<le> n) = n" if "n < 2 * BASE" for n
    using that by (auto simp: mod_if le_mod_geq)
  have plus: "unat (a + b) = (unat a + unat b) mod BASE" for a b :: u64
    by (simp add: unat_word_ariths BASE_def)
  have less: "a + b < a \<longleftrightarrow> BASE \<le> unat a + unat b" for a b :: u64
    using nat[of "unat a + unat b"] u64_bound[of a] u64_bound[of b]
    by (auto simp: word_less_nat_alt plus of_bool_def split: if_splits)
  let ?c = "of_bool c :: u64"
  have c: "unat ?c = of_bool c" by simp
  have r: "r = x + y + ?c" and d: "d \<longleftrightarrow> x + y < x \<or> x + y + ?c < x + y"
    using * by (auto simp: addc_def Let_def)
  have 1: "unat (x + y) + BASE * of_bool (x + y < x) = unat x + unat y"
    using nat[of "unat x + unat y"] u64_bound[of x] u64_bound[of y] by (simp add: plus less)
  have 2: "unat (x + y + ?c) + BASE * of_bool (x + y + ?c < x + y) = unat (x + y) + of_bool c"
    using nat[of "unat (x + y) + of_bool c"] u64_bound[of "x + y"]
    by (simp only: plus[of "x + y"] less c) simp
  have "\<not> (x + y < x \<and> x + y + ?c < x + y)"
    using 1 2 u64_bound[of x] u64_bound[of y] u64_bound[of "x + y + ?c"] by (auto split: if_splits)
  with 1 2 show ?thesis by (auto simp: r d)
qed

lemma subb_value:
  "subb x y b = (r, d) \<Longrightarrow> unat x + BASE * of_bool d = unat y + of_bool b + unat r"
proof -
  assume *: "subb x y b = (r, d)"
  have minus: "unat x + BASE * of_bool (y > x) = unat y + unat (x - y)" for x y :: u64
  proof (cases "y > x")
    case True
    have "unat (x - y) = (BASE - unat y + unat x) mod BASE"
      unfolding unat_sub_if' using True u64_bound[of y]
      by (simp add: word_less_nat_alt BASE_def not_le)
    then show ?thesis
      using True u64_bound[of y] by (simp add: word_less_nat_alt)
  next
    case False
    then show ?thesis by (simp add: unat_sub word_le_nat_alt not_less)
  qed
  show ?thesis
    using * minus[of x y] minus[of "x - y" "of_bool b"] u64_bound[of y] u64_bound[of "x - y"]
    by (cases b; cases "x = y") (auto simp: subb_def Let_def split: if_splits)
qed

lemma mulx_value: "mulx x y = (hi, lo) \<Longrightarrow> unat lo + BASE * unat hi = unat x * unat y"
proof -
  assume *: "mulx x y = (hi, lo)"
  let ?p = "ucast x * ucast y :: u128"
  have lt: "unat x * unat y < BASE * BASE" by (rule mult_strict_mono) (simp_all add: u64_bound)
  then have p: "unat ?p = unat x * unat y"
    by (simp add: unat_word_ariths unat_ucast_up BASE_def)
  have hl: "hi = ucast (drop_bit 64 ?p)" "lo = ucast ?p"
    using * by (simp_all add: mulx_def Let_def)
  have "unat hi = unat ?p div BASE mod BASE" "unat lo = unat ?p mod BASE"
    unfolding hl unsigned_ucast_eq unat_drop_bit_eq
    by (simp_all add: drop_bit_eq_div take_bit_eq_mod BASE_def)
  moreover have "unat ?p div BASE < BASE" using lt p by (simp add: less_mult_imp_div_less)
  ultimately show ?thesis using p by simp
qed

lemma div_words_value:
  assumes "u_hi < v"
  shows "div_words u_hi u_lo v = (of_nat ((unat u_lo + BASE * unat u_hi) div unat v),
      of_nat ((unat u_lo + BASE * unat u_hi) mod unat v))"
    and "(unat u_lo + BASE * unat u_hi) div unat v < BASE"
proof -
  let ?n = "unat u_lo + BASE * unat u_hi"
  let ?u = "push_bit 64 (ucast u_hi) OR ucast u_lo :: u128"
  have "unat u_hi < unat v" using assms by (simp add: word_less_nat_alt)
  then have "unat u_lo + BASE * unat u_hi < BASE * unat v" by (intro digit_less) (simp_all add: u64_bound)
  then show "?n div unat v < BASE" by (simp add: less_mult_imp_div_less mult.commute)
  have "?u = push_bit 64 (ucast u_hi) + ucast u_lo"
    by (rule disjunctive_add[symmetric]) (auto simp: bit_simps dest: bit_imp_le_length)
  moreover have "unat (push_bit 64 (ucast u_hi) + ucast u_lo :: u128) = ?n"
    using digit_less[OF u64_bound[of u_lo] u64_bound[of u_hi]]
    by (simp add: push_bit_eq_mult unat_word_ariths unat_ucast_up BASE_def)
  ultimately have u: "unat ?u = ?n" by simp
  have "unat (ucast v :: u128) = unat v" by (rule unat_ucast_up) simp
  then show "div_words u_hi u_lo v = (of_nat (?n div unat v), of_nat (?n mod unat v))"
    using u by (simp add: div_words_def Let_def unat_div unat_mod word_unat_eq_iff unsigned_ucast_eq
        unat_of_nat take_bit_eq_mod)
qed

section \<open>Addition, subtraction and comparison\<close>

definition addc256 :: "words \<Rightarrow> words \<Rightarrow> words \<times> bool" where
  "addc256 lhs rhs =
     (let (w0, c0) = addc (lhs ! 0) (rhs ! 0) False;
          (w1, c1) = addc (lhs ! 1) (rhs ! 1) c0;
          (w2, c2) = addc (lhs ! 2) (rhs ! 2) c1;
          (w3, c3) = addc (lhs ! 3) (rhs ! 3) c2
      in ([w0, w1, w2, w3], c3))"

definition subb256 :: "words \<Rightarrow> words \<Rightarrow> words \<times> bool" where
  "subb256 lhs rhs =
     (let (w0, b0) = subb (lhs ! 0) (rhs ! 0) False;
          (w1, b1) = subb (lhs ! 1) (rhs ! 1) b0;
          (w2, b2) = subb (lhs ! 2) (rhs ! 2) b1;
          (w3, b3) = subb (lhs ! 3) (rhs ! 3) b2
      in ([w0, w1, w2, w3], b3))"

definition uint256_add :: "words \<Rightarrow> words \<Rightarrow> words" where
  "uint256_add lhs rhs = fst (addc256 lhs rhs)"

definition uint256_sub :: "words \<Rightarrow> words \<Rightarrow> words" where
  "uint256_sub lhs rhs = fst (subb256 lhs rhs)"

definition uint256_less :: "words \<Rightarrow> words \<Rightarrow> bool" where
  "uint256_less lhs rhs = snd (subb256 lhs rhs)"

definition uint256_eq :: "words \<Rightarrow> words \<Rightarrow> bool" where
  "uint256_eq x y =
     (let e0 = (x ! 0) XOR (y ! 0); e1 = (x ! 1) XOR (y ! 1);
          e2 = (x ! 2) XOR (y ! 2); e3 = (x ! 3) XOR (y ! 3)
      in ((e0 OR e1) OR (e2 OR e3)) = 0)"

definition uint256_neg :: "words \<Rightarrow> words" where
  "uint256_neg x = uint256_sub [0, 0, 0, 0] x"

lemma four_words:
  assumes "length x = 4"
  obtains x0 x1 x2 x3 where "x = [x0, x1, x2, x3]"
proof -
  have "x = [x ! 0, x ! 1, x ! 2, x ! 3]"
    by (rule nth_equalityI) (use assms in \<open>auto simp: less_Suc_eq numeral_eq_Suc\<close>)
  then show thesis by (rule that)
qed

lemma carry_step:
  "r + b * c = s + e \<Longrightarrow> R + P * d = S + c \<Longrightarrow> r + b * R + (b * P) * d = (s + b * S) + (e :: nat)"
proof -
  assume 1: "r + b * c = s + e" and 2: "R + P * d = S + c"
  have "r + b * R + (b * P) * d = r + b * (R + P * d)" by (simp add: algebra_simps)
  also have "\<dots> = (r + b * c) + b * S" by (simp add: 2 algebra_simps)
  finally show ?thesis by (simp add: 1)
qed

lemma addc256_value:
  assumes "length x = 4" "length y = 4" "addc256 x y = (r, c)"
  shows "length r = 4 \<and> wval r + 2 ^ 256 * of_bool c = wval x + wval y"
proof -
  obtain w0 w1 w2 w3 c0 c1 c2 where
    r: "addc (x ! 0) (y ! 0) False = (w0, c0)" "addc (x ! 1) (y ! 1) c0 = (w1, c1)"
      "addc (x ! 2) (y ! 2) c1 = (w2, c2)" "addc (x ! 3) (y ! 3) c2 = (w3, c)" "r = [w0, w1, w2, w3]"
    using assms(3) by (auto simp: addc256_def Let_def split: prod.splits)
  have e: "(2 :: nat) ^ 256 = BASE * (BASE * (BASE * BASE))" by (simp add: BASE_def)
  obtain x0 x1 x2 x3 where x: "x = [x0, x1, x2, x3]" by (rule four_words[OF assms(1)])
  obtain y0 y1 y2 y3 where y: "y = [y0, y1, y2, y3]" by (rule four_words[OF assms(2)])
  note v = r(1-4)[THEN addc_value]
  from carry_step[OF v(1) carry_step[OF v(2) carry_step[OF v(3) v(4)]]]
  show ?thesis
    unfolding e x y r(5) by (simp add: numeral_2_eq_2 numeral_3_eq_3 algebra_simps)
qed

lemma subb256_value:
  assumes "length x = 4" "length y = 4" "subb256 x y = (r, b)"
  shows "length r = 4 \<and> wval x + 2 ^ 256 * of_bool b = wval y + wval r"
proof -
  obtain w0 w1 w2 w3 b0 b1 b2 where
    r: "subb (x ! 0) (y ! 0) False = (w0, b0)" "subb (x ! 1) (y ! 1) b0 = (w1, b1)"
      "subb (x ! 2) (y ! 2) b1 = (w2, b2)" "subb (x ! 3) (y ! 3) b2 = (w3, b)" "r = [w0, w1, w2, w3]"
    using assms(3) by (auto simp: subb256_def Let_def split: prod.splits)
  have e: "(2 :: nat) ^ 256 = BASE * (BASE * (BASE * BASE))" by (simp add: BASE_def)
  obtain x0 x1 x2 x3 where x: "x = [x0, x1, x2, x3]" by (rule four_words[OF assms(1)])
  obtain y0 y1 y2 y3 where y: "y = [y0, y1, y2, y3]" by (rule four_words[OF assms(2)])
  have v: "unat (x ! 0) + BASE * of_bool b0 = unat (y ! 0) + unat w0 + 0"
    "unat (x ! 1) + BASE * of_bool b1 = unat (y ! 1) + unat w1 + of_bool b0"
    "unat (x ! 2) + BASE * of_bool b2 = unat (y ! 2) + unat w2 + of_bool b1"
    "unat (x ! 3) + BASE * of_bool b = unat (y ! 3) + unat w3 + of_bool b2"
    using r(1-4)[THEN subb_value] by simp_all
  from carry_step[OF v(1) carry_step[OF v(2) carry_step[OF v(3) v(4)]]]
  show ?thesis
    unfolding e x y r(5) by (simp add: numeral_2_eq_2 numeral_3_eq_3 algebra_simps)
qed

text \<open>On words that represent \<open>u256\<close> numbers the operations are those of the type.\<close>

lemma uint256_add_correct: "uint256_add (of_u256 x) (of_u256 y) = of_u256 (x + y)"
proof -
  obtain r c where r: "addc256 (of_u256 x) (of_u256 y) = (r, c)" by fastforce
  have v: "length r = 4" "wval r + 2 ^ 256 * of_bool c = unat x + unat y"
    using addc256_value[OF _ _ r] by auto
  then have "wval r mod 2 ^ 256 = (unat x + unat y) mod 2 ^ 256"
    by (metis mod_mult_self2)
  then have "wval r = unat (x + y)"
    using wval_bound4[OF v(1)] by (simp add: unat_word_ariths)
  then show ?thesis using v(1) by (intro wval_inject) (simp_all add: uint256_add_def r)
qed

lemma uint256_sub_correct:
  "uint256_sub (of_u256 x) (of_u256 y) = of_u256 (x - y)"
  "uint256_less (of_u256 x) (of_u256 y) \<longleftrightarrow> x < y"
proof -
  obtain r b where r: "subb256 (of_u256 x) (of_u256 y) = (r, b)" by fastforce
  have v: "length r = 4" "unat x + 2 ^ 256 * of_bool b = unat y + wval r"
    using subb256_value[OF _ _ r] by auto
  have b: "b \<longleftrightarrow> x < y"
    using v(2) wval_bound4[OF v(1)] unsigned_less[of x] unsigned_less[of y]
    by (cases b) (auto simp: word_less_nat_alt)
  then show "uint256_less (of_u256 x) (of_u256 y) \<longleftrightarrow> x < y" by (simp add: uint256_less_def r)
  have "wval r = unat (x - y)"
    using v(2) b unfolding unat_sub_if' by (auto simp: word_less_nat_alt not_le)
  then show "uint256_sub (of_u256 x) (of_u256 y) = of_u256 (x - y)"
    using v(1) by (intro wval_inject) (simp_all add: uint256_sub_def r)
qed

lemma uint256_neg_correct: "uint256_neg (of_u256 x) = of_u256 (- x)"
proof -
  have "[0, 0, 0, 0] = of_u256 0" by (simp add: of_u256_def)
  then show ?thesis by (simp only: uint256_neg_def uint256_sub_correct) simp
qed

lemma uint256_eq_correct:
  assumes "length x = 4" "length y = 4"
  shows "uint256_eq x y \<longleftrightarrow> x = y"
proof -
  have or: "a OR b = 0 \<longleftrightarrow> a = 0 \<and> b = 0" for a b :: u64
    by (simp add: or_eq_0_iff)
  have xor: "a XOR b = 0 \<longleftrightarrow> a = b" for a b :: u64
    by (metis xor.assoc xor.comm_neutral xor.commute xor_self_eq)
  show ?thesis
    by (rule four_words[OF assms(1)], rule four_words[OF assms(2)])
      (simp add: uint256_eq_def or xor numeral_2_eq_2 numeral_3_eq_3)
qed

end
