(* ===== verification/Uint256_Mul.thy ===== *)
theory Uint256_Mul
  imports Uint256
begin

text \<open>
  Multiplication of multi-word numbers, \<open>truncating_mul\<close>: the schoolbook loop of \<open>portable.hpp\<close> and
  the unrolled one of \<open>intrinsics.hpp\<close>, which widens the carry to two words, skews the loop by one
  product and computes only what the truncated result needs. Both return the product modulo
  \<open>2 ^ (64 * R)\<close>. The second one starts from an uninitialised result, which is an argument here.
\<close>

section \<open>The portable loop\<close>

primrec mul_row :: "nat \<Rightarrow> words \<Rightarrow> u64 \<Rightarrow> nat \<Rightarrow> u64 \<Rightarrow> words \<Rightarrow> u64 \<times> words" where
  "mul_row R [] y p carry result = (carry, result)"
| "mul_row R (x # xs) y p carry result =
     (if p < R then
        let (hi, lo) = mulx x y;
            (s0, c0) = addc lo (result ! p) False;
            (s1, c1) = addc s0 carry False;
            (s2, c2) = addc hi (of_bool c0) c1
        in mul_row R xs y (Suc p) s2 (result[p := s1])
      else (carry, result))"

primrec mul_rows :: "nat \<Rightarrow> words \<Rightarrow> words \<Rightarrow> nat \<Rightarrow> words \<Rightarrow> words" where
  "mul_rows R x [] j result = result"
| "mul_rows R x (y # ys) j result =
     (let (carry, result) = mul_row R x y j 0 result;
          result = (if j + length x < R then result[j + length x := carry] else result)
      in mul_rows R x ys (Suc j) result)"

definition truncating_mul_portable :: "nat \<Rightarrow> words \<Rightarrow> words \<Rightarrow> words" where
  "truncating_mul_portable R x y = mul_rows R x y 0 (replicate R 0)"

lemma square_bound: "0 < b \<Longrightarrow> (b - 1) * (b - 1) + (b - 1) + (b - 1) < b * (b :: nat)"
  by (cases b) simp_all

lemma word_product_bound:
  "unat (r :: u64) + unat (carry :: u64) + unat (x :: u64) * unat (y :: u64) < BASE * BASE"
proof -
  have "unat x * unat y \<le> (BASE - 1) * (BASE - 1)"
    using u64_bound[of x] u64_bound[of y] by (intro mult_le_mono) simp_all
  moreover have "unat r \<le> BASE - 1" "unat carry \<le> BASE - 1"
    using u64_bound[of r] u64_bound[of carry] by simp_all
  ultimately show ?thesis using square_bound[OF BASE_pos(1)] by linarith
qed

lemma mul_step_value:
  assumes "mulx x y = (hi, lo)" "addc lo r False = (s0, c0)" "addc s0 carry False = (s1, c1)"
    "addc hi (of_bool c0) c1 = (s2, c2)"
  shows "unat s1 + BASE * unat s2 = unat r + unat carry + unat x * unat y"
proof -
  note v = mulx_value[OF assms(1)] addc_value[OF assms(2)] addc_value[OF assms(3)]
    addc_value[OF assms(4)]
  have c0: "unat (of_bool c0 :: u64) = of_bool c0" by simp
  have "BASE * (unat s2 + BASE * of_bool c2) = BASE * (unat hi + of_bool c0 + of_bool c1)"
    using v(4) by (simp only: c0)
  then have "BASE * unat s2 + BASE * BASE * of_bool c2 =
      BASE * unat hi + BASE * of_bool c0 + BASE * of_bool c1"
    by (simp only: distrib_left mult.assoc)
  moreover have "unat s0 + BASE * of_bool c0 = unat lo + unat r"
    "unat s1 + BASE * of_bool c1 = unat s0 + unat carry"
    using v(2,3) by simp_all
  ultimately have eq: "unat s1 + BASE * unat s2 + BASE * BASE * of_bool c2 =
      unat r + unat carry + unat x * unat y"
    using v(1) by linarith
  have "\<not> c2"
  proof
    assume c2
    then have "unat s1 + BASE * unat s2 + BASE * BASE = unat r + unat carry + unat x * unat y"
      using eq by (simp only: of_bool_eq mult_1_right)
    with word_product_bound[of r carry x y] show False by linarith
  qed
  with eq show ?thesis by (simp only: of_bool_eq mult_0_right add_0_right)
qed

lemma mod_pow_drop: "R \<le> k \<Longrightarrow> (a + c * b ^ k) mod b ^ R = a mod (b ^ R :: nat)"
proof -
  assume "R \<le> k"
  then obtain d where "k = R + d" using le_Suc_ex by blast
  then have "a + c * b ^ k = a + b ^ R * (b ^ d * c)" by (simp add: power_add algebra_simps)
  then show ?thesis by (simp only: mod_mult_self2)
qed

lemma mul_row_value:
  assumes "mul_row R xs y p carry res = (carry', res')" "length res = R"
  shows "length res' = R \<and> (\<forall>i. p + length xs \<le> i \<longrightarrow> res' ! i = res ! i) \<and>
    (wval res' + unat carry' * BASE ^ (p + length xs)) mod BASE ^ R =
    (wval res + (unat carry + wval xs * unat y) * BASE ^ p) mod BASE ^ R"
  using assms
proof (induction xs arbitrary: p carry res)
  case (Cons x xs)
  show ?case
  proof (cases "p < R")
    case False
    then have "carry' = carry" "res' = res" using Cons.prems by simp_all
    then show ?thesis
      using Cons.prems False mod_pow_drop[of R p] mod_pow_drop[of R "p + length (x # xs)"] by simp
  next
    case True
    obtain hi lo s0 c0 s1 c1 s2 c2 where
      v: "mulx x y = (hi, lo)" "addc lo (res ! p) False = (s0, c0)"
        "addc s0 carry False = (s1, c1)" "addc hi (of_bool c0) c1 = (s2, c2)"
      by (metis surj_pair)
    note val = mul_step_value[OF v]
    have run: "mul_row R xs y (Suc p) s2 (res[p := s1]) = (carry', res')"
      using Cons.prems(1) True v by simp
    have len: "length (res[p := s1]) = R" using Cons.prems(2) by simp
    have "wval (res[p := s1]) + BASE ^ p * unat (res ! p) = wval res + BASE ^ p * unat s1"
      using wval_update[of p res s1] True Cons.prems(2) by simp
    moreover have "BASE ^ p * (unat s1 + BASE * unat s2) =
        BASE ^ p * (unat (res ! p) + unat carry + unat x * unat y)"
      using val by simp
    ultimately have "wval (res[p := s1]) + (unat s2 + wval xs * unat y) * BASE ^ Suc p =
        wval res + (unat carry + wval (x # xs) * unat y) * BASE ^ p"
      by (simp add: algebra_simps)
    with Cons.IH[OF run len] show ?thesis by simp
  qed
qed simp

lemma mul_rows_value:
  assumes "length res = R" "\<And>i. j + length x \<le> i \<Longrightarrow> i < R \<Longrightarrow> res ! i = 0"
  shows "length (mul_rows R x ys j res) = R \<and>
    wval (mul_rows R x ys j res) mod BASE ^ R = (wval res + wval x * wval ys * BASE ^ j) mod BASE ^ R"
  using assms
proof (induction ys arbitrary: j res)
  case (Cons y ys)
  obtain carry res1 where row: "mul_row R x y j 0 res = (carry, res1)" by fastforce
  let ?k = "j + length x"
  let ?res2 = "if ?k < R then res1[?k := carry] else res1"
  note r = mul_row_value[OF row Cons.prems(1)]
  have len: "length ?res2 = R" using r by simp
  have "wval ?res2 mod BASE ^ R = (wval res1 + unat carry * BASE ^ ?k) mod BASE ^ R"
  proof (cases "?k < R")
    case True
    then have "res1 ! ?k = 0" using r Cons.prems(2) by simp
    then have "wval (res1[?k := carry]) = wval res1 + BASE ^ ?k * unat carry"
      using wval_update[of ?k res1 carry] True r by simp
    then show ?thesis using True by (simp add: mult.commute)
  next
    case False
    then show ?thesis using mod_pow_drop[of R ?k "wval res1" "unat carry"] by simp
  qed
  then have v: "wval ?res2 mod BASE ^ R = (wval res + wval x * unat y * BASE ^ j) mod BASE ^ R"
    using r by simp
  have "?res2 ! i = 0" if "Suc j + length x \<le> i" "i < R" for i
    using that r Cons.prems(2)[of i] by auto
  from Cons.IH[OF len this] have
    IH: "length (mul_rows R x ys (Suc j) ?res2) = R"
      "wval (mul_rows R x ys (Suc j) ?res2) mod BASE ^ R =
        (wval ?res2 + wval x * wval ys * BASE ^ Suc j) mod BASE ^ R"
    by blast+
  have "(wval ?res2 + wval x * wval ys * BASE ^ Suc j) mod BASE ^ R =
      (wval res + wval x * unat y * BASE ^ j + wval x * wval ys * BASE ^ Suc j) mod BASE ^ R"
    using v by (metis mod_add_left_eq)
  also have "wval res + wval x * unat y * BASE ^ j + wval x * wval ys * BASE ^ Suc j =
      wval res + wval x * wval (y # ys) * BASE ^ j"
    by (simp add: algebra_simps)
  finally show ?case using IH row by (simp add: Let_def)
qed simp

lemma truncating_mul_portable_value:
  "length (truncating_mul_portable R x y) = R"
  "wval (truncating_mul_portable R x y) = wval x * wval y mod BASE ^ R"
proof -
  have "length (truncating_mul_portable R x y) = R \<and>
      wval (truncating_mul_portable R x y) mod BASE ^ R = wval x * wval y mod BASE ^ R"
    using mul_rows_value[of "replicate R 0" R 0 x y] by (simp add: truncating_mul_portable_def)
  moreover have "wval (truncating_mul_portable R x y) < BASE ^ R"
    using wval_bound[of "truncating_mul_portable R x y"] calculation by simp
  ultimately show "length (truncating_mul_portable R x y) = R"
    "wval (truncating_mul_portable R x y) = wval x * wval y mod BASE ^ R"
    by simp_all
qed

section \<open>The unrolled loop\<close>

definition adc_2 :: "u64 \<Rightarrow> u64 \<Rightarrow> u64 \<Rightarrow> u64 \<times> u64" where
  "adc_2 x_1 x_0 y_0 =
     (let (r_0, c) = addc x_0 y_0 False
      in (x_1 + of_bool c, r_0))"

definition adc_2_2 :: "u64 \<Rightarrow> u64 \<Rightarrow> u64 \<Rightarrow> u64 \<Rightarrow> u64 \<times> u64" where
  "adc_2_2 x_1 x_0 y_1 y_0 =
     (let (r_0, c) = addc x_0 y_0 False
      in (x_1 + y_1 + of_bool c, r_0))"

definition adc_3 :: "u64 \<Rightarrow> u64 \<Rightarrow> u64 \<Rightarrow> u64 \<Rightarrow> u64 \<Rightarrow> u64 \<times> u64 \<times> u64" where
  "adc_3 x_2 x_1 x_0 y_1 y_0 =
     (let (r_0, c) = addc x_0 y_0 False;
          (r_1, d) = addc x_1 y_1 c
      in (x_2 + of_bool d, r_1, r_0))"

function mul_line_recur :: "nat \<Rightarrow> nat \<Rightarrow> words \<Rightarrow> u64 \<Rightarrow> words \<Rightarrow> u64 \<Rightarrow> words" where
  "mul_line_recur I R x y result carry =
     (if I < min R (length x) then
        if I + 1 < R then
          let (hi, lo) = mulx (x ! I) y;
              (carry, r) = adc_2 hi lo carry
          in mul_line_recur (I + 1) R x y (result[I := r]) carry
        else result[I := y * x ! I + carry]
      else if length x < R then result[length x := carry]
      else result)"
  by pat_completeness auto
termination by (relation "measure (\<lambda>(I, R, x, _). length x - I)") auto

definition mul_line :: "nat \<Rightarrow> words \<Rightarrow> u64 \<Rightarrow> words \<Rightarrow> words" where
  "mul_line R x y result =
     (let (carry, r) = mulx y (x ! 0)
      in mul_line_recur 1 R x y (result[0 := r]) carry)"

function mul_add_line_recur ::
  "nat \<Rightarrow> nat \<Rightarrow> nat \<Rightarrow> words \<Rightarrow> u64 \<Rightarrow> words \<Rightarrow> u64 \<Rightarrow> u64 \<Rightarrow> words" where
  "mul_add_line_recur J I R x y result c_hi c_lo =
     (if J + 1 < length x \<and> I + J < R then
        if I + J + 2 < R then
          let (hi, lo) = mulx (x ! (J + 1)) y;
              (c_hi, c_lo, r) = adc_3 hi lo (result ! (I + J)) c_hi c_lo
          in mul_add_line_recur (J + 1) I R x y (result[I + J := r]) c_hi c_lo
        else if I + J + 1 < R then
          let lo = x ! (J + 1) * y;
              (c_lo, r) = adc_2_2 lo (result ! (I + J)) c_hi c_lo
          in mul_add_line_recur (J + 1) I R x y (result[I + J := r]) c_hi c_lo
        else mul_add_line_recur (J + 1) I R x y (result[I + J := result ! (I + J) + c_lo]) c_hi c_lo
      else if I + length x < R then
        let (r1, r0) = adc_2 c_hi c_lo (result ! (I + length x - 1))
        in result[I + length x := r1, I + length x - 1 := r0]
      else if I + length x < R + 1 then
        result[I + length x - 1 := result ! (I + length x - 1) + c_lo]
      else result)"
  by pat_completeness auto
termination by (relation "measure (\<lambda>(J, I, R, x, _). length x - J)") auto

definition mul_add_line :: "nat \<Rightarrow> nat \<Rightarrow> words \<Rightarrow> u64 \<Rightarrow> words \<Rightarrow> words" where
  "mul_add_line I R x y result =
     (let (c_hi, c_lo) = (if I + 1 < R then mulx (x ! 0) y else (0, x ! 0 * y))
      in mul_add_line_recur 0 I R x y result c_hi c_lo)"

primrec truncating_mul_recur :: "words \<Rightarrow> nat \<Rightarrow> nat \<Rightarrow> words \<Rightarrow> words \<Rightarrow> words" where
  "truncating_mul_recur [] I R x result = result"
| "truncating_mul_recur (y # ys) I R x result =
     truncating_mul_recur ys (I + 1) R x (mul_add_line I R x y result)"

definition truncating_mul :: "words \<Rightarrow> nat \<Rightarrow> words \<Rightarrow> words \<Rightarrow> words" where
  "truncating_mul uninit R x y =
     truncating_mul_recur (tl y) 1 R x (mul_line R x (hd y) uninit)"

definition uint256_mul :: "words \<Rightarrow> words \<Rightarrow> words \<Rightarrow> words" where
  "uint256_mul uninit lhs rhs = truncating_mul uninit 4 lhs rhs"

declare mul_line_recur.simps [simp del] mul_add_line_recur.simps [simp del]

lemma unat_plus_mod: "unat (a + b :: u64) = (unat a + unat b) mod BASE"
  by (simp add: unat_word_ariths BASE_def)

lemma unat_times_mod: "unat (a * b :: u64) = unat a * unat b mod BASE"
  by (simp add: unat_word_ariths BASE_def)

lemma unat_of_bool_64: "unat (of_bool c :: u64) = of_bool c"
  by simp

lemma adc_2_value:
  assumes "adc_2 x1 x0 y0 = (r1, r0)" "unat x0 + BASE * unat x1 + unat y0 < BASE * BASE"
  shows "unat r0 + BASE * unat r1 = unat x0 + BASE * unat x1 + unat y0"
proof -
  obtain c where a: "addc x0 y0 False = (r0, c)" and r1: "r1 = x1 + of_bool c"
    using assms(1) by (auto simp: adc_2_def Let_def split: prod.splits)
  have v: "unat r0 + BASE * of_bool c = unat x0 + unat y0" using addc_value[OF a] by simp
  then have "BASE * (unat x1 + of_bool c) < BASE * BASE"
    using assms(2) by (simp only: distrib_left)
  then have "unat r1 = unat x1 + of_bool c"
    by (simp add: r1 unat_plus_mod unat_of_bool_64)
  with v show ?thesis by (simp only: distrib_left)
qed

lemma adc_2_2_value:
  assumes "adc_2_2 x1 x0 y1 y0 = (r1, r0)"
  shows "(unat r0 + BASE * unat r1) mod (BASE * BASE) =
    (unat x0 + unat y0 + BASE * (unat x1 + unat y1)) mod (BASE * BASE)"
proof -
  obtain c where a: "addc x0 y0 False = (r0, c)" and r1: "r1 = x1 + y1 + of_bool c"
    using assms by (auto simp: adc_2_2_def Let_def split: prod.splits)
  have v: "unat r0 + BASE * of_bool c = unat x0 + unat y0" using addc_value[OF a] by simp
  have "unat r1 = (unat x1 + unat y1 + of_bool c) mod BASE"
    by (simp only: r1 unat_plus_mod unat_of_bool_64 mod_add_left_eq)
  then have "BASE * unat r1 = (BASE * (unat x1 + unat y1 + of_bool c)) mod (BASE * BASE)"
    by (simp only: mult_mod_right)
  then have "(unat r0 + BASE * unat r1) mod (BASE * BASE) =
      (unat r0 + BASE * (unat x1 + unat y1 + of_bool c)) mod (BASE * BASE)"
    by (simp only: mod_add_right_eq)
  also have "unat r0 + BASE * (unat x1 + unat y1 + of_bool c) =
      unat x0 + unat y0 + BASE * (unat x1 + unat y1)"
    using v by (simp only: distrib_left)
  finally show ?thesis .
qed

lemma adc_3_value:
  assumes "adc_3 x2 x1 x0 y1 y0 = (r2, r1, r0)"
    "unat x0 + unat y0 + BASE * (unat x1 + unat y1 + BASE * unat x2) < BASE * (BASE * BASE)"
  shows "unat r0 + BASE * (unat r1 + BASE * unat r2) =
    unat x0 + unat y0 + BASE * (unat x1 + unat y1 + BASE * unat x2)"
proof -
  obtain c d where a: "addc x0 y0 False = (r0, c)" "addc x1 y1 c = (r1, d)" and r2: "r2 = x2 + of_bool d"
    using assms(1) by (auto simp: adc_3_def Let_def split: prod.splits)
  have v: "unat r0 + BASE * of_bool c = unat x0 + unat y0"
    "unat r1 + BASE * of_bool d = unat x1 + unat y1 + of_bool c"
    using addc_value[OF a(1)] addc_value[OF a(2)] by simp_all
  have "BASE * (unat r1 + BASE * of_bool d) = BASE * (unat x1 + unat y1 + of_bool c)"
    by (simp only: v(2))
  then have e: "unat r0 + BASE * (unat r1 + BASE * (of_bool d + unat x2)) =
      unat x0 + unat y0 + BASE * (unat x1 + unat y1 + BASE * unat x2)"
    using v(1) by (simp only: distrib_left)
  then have "BASE * (BASE * (of_bool d + unat x2)) < BASE * (BASE * BASE)"
    using assms(2) by (simp only: distrib_left)
  then have "unat r2 = unat x2 + of_bool d"
    by (simp add: r2 unat_plus_mod unat_of_bool_64)
  with e show ?thesis by (simp add: add.commute)
qed

lemma wval_take_update:
  assumes "i < k" "k \<le> length xs"
  shows "wval (take k (xs[i := w])) + BASE ^ i * unat (xs ! i) = wval (take k xs) + BASE ^ i * unat w"
  using wval_update[of i "take k xs" w] assms by (simp add: take_update_swap)

lemma wval_take_Suc: "k < length xs \<Longrightarrow> wval (take (Suc k) xs) = wval (take k xs) + BASE ^ k * unat (xs ! k)"
  by (simp add: take_Suc_conv_app_nth wval_snoc)

lemma wval_drop_step: "k < length xs \<Longrightarrow> wval (drop k xs) = unat (xs ! k) + BASE * wval (drop (Suc k) xs)"
  by (simp add: Cons_nth_drop_Suc[symmetric])

lemma wval_take_less: "k \<le> length xs \<Longrightarrow> wval (take k xs) < BASE ^ k"
  using wval_bound[of "take k xs"] by (simp add: min_absorb1)

lemma top_digit_mod:
  "a < b ^ I \<Longrightarrow> (a + n * b ^ I) mod b ^ Suc I = a + b ^ I * (n mod b :: nat)"
proof -
  assume a: "a < b ^ I"
  have "(a + b ^ I * n) mod (b ^ I * b) = b ^ I * ((a + b ^ I * n) div b ^ I mod b) + (a + b ^ I * n) mod b ^ I"
    by (rule mod_mult2_eq)
  moreover have "b ^ I \<noteq> 0" using a by linarith
  then have "(a + b ^ I * n) div b ^ I = n" "(a + b ^ I * n) mod b ^ I = a"
    using a div_mult_self2[of "b ^ I" a n] mod_mult_self2[of a "b ^ I" n] div_less[OF a] mod_less[OF a]
    by linarith+
  ultimately show ?thesis by (simp only: power_Suc2 mult.commute[of n] add.commute[of a])
qed

lemma mul_line_recur_value:
  assumes "length result = R" "I \<le> R" "I \<le> length x"
  shows "length (mul_line_recur I R x y result carry) = R \<and>
    wval (take (min R (length x + 1)) (mul_line_recur I R x y result carry)) =
      (wval (take I result) + (unat carry + wval (drop I x) * unat y) * BASE ^ I) mod BASE ^ R"
  using assms
proof (induction I R x y result carry rule: mul_line_recur.induct)
  case (1 I R x y result carry)
  have a: "wval (take I result) < BASE ^ I" using "1.prems" by (intro wval_take_less) simp
  consider (last) "I < min R (length x)" "\<not> I + 1 < R" | (step) "I < min R (length x)" "I + 1 < R"
    | (carry) "I = length x" "length x < R" | (full) "I = R" "R \<le> length x"
    using "1.prems" by linarith
  then show ?case
  proof cases
    case last
    then have R: "R = Suc I" by simp
    let ?n = "unat carry + wval (drop I x) * unat y"
    have "?n = unat y * unat (x ! I) + unat carry + BASE * (wval (drop (Suc I) x) * unat y)"
      using wval_drop_step[of I x] last by (simp add: algebra_simps)
    then have "?n mod BASE = (unat y * unat (x ! I) + unat carry) mod BASE" by (simp only: mod_mult_self2)
    also have "\<dots> = unat (y * x ! I + carry)" by (simp only: unat_plus_mod unat_times_mod mod_add_left_eq)
    finally have "wval (take I result) + BASE ^ I * unat (y * x ! I + carry) =
        (wval (take I result) + ?n * BASE ^ I) mod BASE ^ R"
      using top_digit_mod[OF a] R by simp
    then show ?thesis
      using last R "1.prems"(1) wval_take_Suc[of I "result[I := y * x ! I + carry]"]
      by (simp add: mul_line_recur.simps[of I] min_absorb1)
  next
    case step
    obtain hi lo c r where m: "mulx (x ! I) y = (hi, lo)" "adc_2 hi lo carry = (c, r)"
      by (metis surj_pair)
    have "unat lo + BASE * unat hi + unat carry < BASE * BASE"
      using word_product_bound[of carry 0 "x ! I" y] mulx_value[OF m(1)] by simp
    from adc_2_value[OF m(2) this]
    have v: "unat r + BASE * unat c = unat (x ! I) * unat y + unat carry"
      using mulx_value[OF m(1)] by simp
    have t: "wval (take (Suc I) (result[I := r])) = wval (take I result) + BASE ^ I * unat r"
      using wval_take_Suc[of I "result[I := r]"] step "1.prems"(1) by simp
    have "BASE ^ I * (unat r + BASE * unat c) = BASE ^ I * (unat (x ! I) * unat y + unat carry)"
      using v by simp
    then have "wval (take (Suc I) (result[I := r])) + (unat c + wval (drop (Suc I) x) * unat y) * BASE ^ Suc I =
        wval (take I result) + (unat carry + wval (drop I x) * unat y) * BASE ^ I"
      using t wval_drop_step[of I x] step by (simp add: algebra_simps)
    with "1.IH"[OF step m(1)[symmetric] refl m(2)[symmetric] refl] step "1.prems" m
    show ?thesis by (simp add: mul_line_recur.simps[of I])
  next
    case carry
    have "wval (take (Suc I) (result[I := carry])) = wval (take I result) + BASE ^ I * unat carry"
      using wval_take_Suc[of I "result[I := carry]"] carry "1.prems"(1) by simp
    moreover have "wval (take (Suc I) (result[I := carry])) < BASE ^ R"
      using wval_take_less[of "Suc I" "result[I := carry]"] carry "1.prems"(1)
        power_increasing[of "Suc I" R BASE] by (simp add: Suc_leI)
    ultimately show ?thesis
      using carry "1.prems"(1) by (simp add: mul_line_recur.simps[of "length x"] mult.commute min_absorb2)
  next
    case full
    then show ?thesis
      using "1.prems"(1) a mod_pow_drop[of R R "wval (take I result)"]
      by (simp add: mul_line_recur.simps[of R] min_absorb1)
  qed
qed

lemma mul_line_value:
  assumes "length result = R" "0 < R" "0 < length x"
  shows "length (mul_line R x y result) = R \<and>
    wval (take (min R (length x + 1)) (mul_line R x y result)) = wval x * unat y mod BASE ^ R"
proof -
  obtain c r where m: "mulx y (x ! 0) = (c, r)" by fastforce
  have "wval (take 1 (result[0 := r])) = unat r"
    using assms wval_take_Suc[of 0 "result[0 := r]"] by simp
  moreover have "unat r + BASE * unat c = unat (x ! 0) * unat y"
    using mulx_value[OF m] by (simp add: mult.commute)
  ultimately have "wval (take 1 (result[0 := r])) + (unat c + wval (drop 1 x) * unat y) * BASE ^ 1 =
      wval x * unat y"
    using wval_drop_step[of 0 x] assms by (simp add: algebra_simps)
  with mul_line_recur_value[of "result[0 := r]" R 1 x y c] assms m
  show ?thesis by (simp add: mul_line_def)
qed

text \<open>
  The two-word carry stays below \<open>BASE * (BASE - 1)\<close>, so that adding a product and a word of the result
  to it never overflows.
\<close>

lemma carry_bound_step:
  assumes "r + b * c' = w + c + b * (x * y)" "w < b" "x < b" "y < b" "c \<le> b * (b - 1)"
  shows "c' \<le> b * (b - 1 :: nat)"
proof -
  obtain d where b: "b = Suc d" using assms(2) by (cases b) auto
  have "x * y \<le> d * d" using assms(3,4) b by (intro mult_le_mono) simp_all
  then have "b * (x * y) \<le> b * (d * d)" by (rule mult_le_mono2)
  moreover have "w \<le> d" "c \<le> b * d" using assms(2,5) b by simp_all
  ultimately have "b * c' \<le> d + b * d + b * (d * d)" using assms(1) by linarith
  also have "\<dots> < b * (d + d * d + 1)" by (simp add: b algebra_simps)
  finally have "c' < d + d * d + 1" by (simp only: mult_less_cancel1)
  then show ?thesis by (simp add: b)
qed

definition add_line_ok :: "nat \<Rightarrow> nat \<Rightarrow> nat \<Rightarrow> u64 \<Rightarrow> u64 \<Rightarrow> bool" where
  "add_line_ok J I R c_hi c_lo \<longleftrightarrow> (I + J + 1 < R \<longrightarrow> unat c_lo + BASE * unat c_hi \<le> BASE * (BASE - 1))"

lemma shift_eq:
  assumes "W' + B * w = W + B * r" "r + b * c' = w + c + b * (xj * y)" "X = xj + b * X'"
  shows "W' + (c' + b * y * X') * (B * b) = W + (c + b * y * X) * (B :: nat)"
proof -
  have "B * (r + b * c') = B * (w + c + b * (xj * y))" using assms(2) by simp
  then have "B * r + B * (b * c') = B * w + B * c + B * (b * (xj * y))" by (simp only: distrib_left)
  with assms(1) have "W' + B * (b * c') = W + B * c + B * (b * (xj * y))" by linarith
  then show ?thesis unfolding assms(3) by (simp add: algebra_simps)
qed

lemma square_word_bound: "unat (x :: u64) * unat (y :: u64) \<le> BASE * (BASE - 1)"
  using u64_bound[of x] u64_bound[of y] by (intro mult_le_mono) simp_all

lemma mul_add_exact_step:
  assumes "mulx x y = (hi, lo)" "adc_3 hi lo w c_hi c_lo = (c_hi', c_lo', r)"
    "unat c_lo + BASE * unat c_hi \<le> BASE * (BASE - 1)"
  shows "unat r + BASE * (unat c_lo' + BASE * unat c_hi') =
      unat w + (unat c_lo + BASE * unat c_hi) + BASE * (unat x * unat y)"
    and "unat c_lo' + BASE * unat c_hi' \<le> BASE * (BASE - 1)"
proof -
  let ?c = "unat c_lo + BASE * unat c_hi"
  have m: "unat lo + BASE * unat hi = unat x * unat y" by (rule mulx_value[OF assms(1)])
  have sum: "unat w + unat c_lo + BASE * (unat lo + unat c_hi + BASE * unat hi) =
      unat w + ?c + BASE * (unat x * unat y)"
    unfolding m[symmetric] by (simp add: algebra_simps)
  obtain d where b: "BASE = Suc d" using BASE_pos(1) by (cases BASE) auto
  have "BASE * (unat x * unat y) \<le> BASE * (d * d)"
    using u64_bound[of x] u64_bound[of y] unfolding b by (intro mult_le_mono) simp_all
  moreover have "unat w \<le> d" using u64_bound[of w] by (simp add: b)
  moreover have "?c \<le> BASE * d" using assms(3) by (simp add: b)
  moreover have "d + BASE * d + BASE * (d * d) < BASE * (BASE * BASE)"
    by (simp add: b algebra_simps)
  ultimately have "unat w + ?c + BASE * (unat x * unat y) < BASE * (BASE * BASE)" by linarith
  from adc_3_value[OF assms(2)] this sum
  show e: "unat r + BASE * (unat c_lo' + BASE * unat c_hi') =
      unat w + ?c + BASE * (unat x * unat y)" by simp
  show "unat c_lo' + BASE * unat c_hi' \<le> BASE * (BASE - 1)"
    by (rule carry_bound_step[OF e]) (rule u64_bound | rule assms(3))+
qed

lemma mod_eq_int: "int a - int b = int n * k \<Longrightarrow> a mod n = b mod n"
  by (metis dvd_triv_left mod_eq_dvd_iff of_nat_eq_iff of_nat_mod)

lemma mod_witness: "a mod n = b mod n \<Longrightarrow> \<exists>t. int a = int b + int n * t"
  by (metis add.commute diff_add_cancel dvdE mod_eq_dvd_iff of_nat_mod)

lemma digit_witness: "unat (r :: u64) = n mod BASE \<Longrightarrow> \<exists>s. int (unat r) = int n + int BASE * s"
  by (rule mod_witness) (use mod_mod_trivial in simp)

lemma low_digits_int:
  fixes W W' w r c c' lo xj y X X' h c_hi B P s t :: int
  assumes "W' + P * w = W + P * r" "r + B * c' = w + c + B * (lo + c_hi) + B * B * t"
    "lo = xj * y + B * s" "X = xj + B * X'"
  shows "W' + (c' + B * h + B * y * X') * (P * B) - (W + (c + B * c_hi + B * y * X) * P) =
    P * (B * B) * (t + s + h)"
proof -
  have "r = w + c + B * (lo + c_hi) + B * B * t - B * c'" using assms(2) by linarith
  then have "P * r = P * (w + c + B * (lo + c_hi) + B * B * t - B * c')" by simp
  with assms(1) have "W' = W + P * (w + c + B * (lo + c_hi) + B * B * t - B * c') - P * w" by linarith
  then show ?thesis unfolding assms(3,4) by (simp add: algebra_simps)
qed

lemma top_digit_int:
  fixes W W' w r c B P s q :: int
  assumes "W' + P * w = W + P * r" "r = w + c + B * s"
  shows "W' - (W + (c + B * q) * P) = P * B * (s - q)"
proof -
  have "W' = W + P * (w + c + B * s) - P * w" using assms by (simp add: algebra_simps)
  then show ?thesis by (simp add: algebra_simps)
qed

lemma top_digit_add:
  assumes "W' + B * unat w = W + B * unat (w + c :: u64)"
  shows "W' mod (B * BASE) = (W + (unat c + BASE * q) * B) mod (B * BASE)"
proof -
  obtain s where s: "int (unat (w + c)) = int (unat w + unat c) + int BASE * s"
    using digit_witness[OF unat_plus_mod] by blast
  show ?thesis
  proof (rule mod_eq_int)
    show "int W' - int (W + (unat c + BASE * q) * B) = int (B * BASE) * (s - int q)"
      using top_digit_int[of "int W'" "int B" "int (unat w)" "int W" "int (unat (w + c))"
          "int (unat c)" "int BASE" s "int q"] arg_cong[OF assms, of int] s by simp
  qed
qed

lemma wval_last_digits:
  assumes "i < k" "k < length xs"
  shows "wval (take (Suc k) (xs[k := r1, i := r0])) = wval (take k (xs[i := r0])) + BASE ^ k * unat r1"
proof -
  have "take k (xs[k := r1, i := r0]) = take k (xs[i := r0])"
    by (simp add: take_update_swap list_update_beyond)
  moreover have "xs[k := r1, i := r0] ! k = r1" using assms by simp
  ultimately show ?thesis using wval_take_Suc[of k "xs[k := r1, i := r0]"] assms(2) by simp
qed

lemma mul_add_line_recur_value:
  assumes "length result = R" "J < length x" "add_line_ok J I R c_hi c_lo"
  shows "length (mul_add_line_recur J I R x y result c_hi c_lo) = R \<and>
    wval (take (min R (I + length x + 1)) (mul_add_line_recur J I R x y result c_hi c_lo)) =
      (wval (take (min R (I + length x)) result) +
        (unat c_lo + BASE * unat c_hi + BASE * unat y * wval (drop (J + 1) x)) * BASE ^ (I + J)) mod BASE ^ R"
  using assms
proof (induction J I R x y result c_hi c_lo rule: mul_add_line_recur.induct)
  case (1 J I R x y result c_hi c_lo)
  let ?M = "length x" and ?c = "unat c_lo + BASE * unat c_hi"
  let ?k = "min R (I + ?M)" and ?w = "result ! (I + J)"
  let ?W = "wval (take ?k result)"
  have W: "?W < BASE ^ R"
    using wval_take_less[of ?k result] power_increasing[of ?k R BASE] "1.prems"(1) by (simp add: Suc_leI)
  have upd: "wval (take ?k (result[I + J := r])) + BASE ^ (I + J) * unat ?w = ?W + BASE ^ (I + J) * unat r"
    if "I + J < R" for r
    using wval_take_update[of "I + J" ?k result r] that "1.prems" by simp
  have x: "wval (drop (J + 1) x) = unat (x ! (J + 1)) + BASE * wval (drop (J + 1 + 1) x)" if "J + 1 < ?M"
    using wval_drop_step[of "J + 1" x] that by simp
  consider (step) "J + 1 < ?M \<and> I + J < R" "I + J + 2 < R"
    | (low) "J + 1 < ?M \<and> I + J < R" "\<not> I + J + 2 < R" "I + J + 1 < R"
    | (top) "J + 1 < ?M \<and> I + J < R" "\<not> I + J + 2 < R" "\<not> I + J + 1 < R"
    | (out) "R \<le> I + J" | (last) "J + 1 = ?M" "I + J < R" "I + ?M < R" | (filled) "J + 1 = ?M" "I + ?M = R"
    using "1.prems"(2) by linarith
  then show ?case
  proof cases
    case step
    obtain hi lo c_hi' c_lo' r where m: "mulx (x ! (J + 1)) y = (hi, lo)"
      "adc_3 hi lo ?w c_hi c_lo = (c_hi', c_lo', r)" by (metis surj_pair)
    have "?c \<le> BASE * (BASE - 1)" using "1.prems"(3) step by (simp add: add_line_ok_def)
    note e = mul_add_exact_step[OF m this]
    have "wval (take ?k (result[I + J := r])) +
        (unat c_lo' + BASE * unat c_hi' + BASE * unat y * wval (drop (J + 1 + 1) x)) * (BASE ^ (I + J) * BASE) =
        ?W + (?c + BASE * unat y * wval (drop (J + 1) x)) * BASE ^ (I + J)"
      by (rule shift_eq[OF upd e(1) x]) (use step in auto)
    moreover have "add_line_ok (J + 1) I R c_hi' c_lo'" using e(2) by (simp add: add_line_ok_def)
    ultimately show ?thesis
      using "1.IH"(1)[OF step m(1)[symmetric] refl m(2)[symmetric] refl refl] step "1.prems" m
      by (simp add: mul_add_line_recur.simps[of J] mult.commute[of BASE "BASE ^ (I + J)"])
  next
    case low
    then have R: "R = I + J + 2" by simp
    obtain c_lo' r where m: "adc_2_2 (x ! (J + 1) * y) ?w c_hi c_lo = (c_lo', r)" by (metis surj_pair)
    obtain t where t: "int (unat r + BASE * unat c_lo') =
        int (unat ?w + unat c_lo + BASE * (unat (x ! (J + 1) * y) + unat c_hi)) + int (BASE * BASE) * t"
      using mod_witness[OF adc_2_2_value[OF m]] by blast
    obtain s where s: "int (unat (x ! (J + 1) * y)) = int (unat (x ! (J + 1)) * unat y) + int BASE * s"
      using digit_witness[OF unat_times_mod] by blast
    have "(wval (take ?k (result[I + J := r])) +
        (unat c_lo' + BASE * unat c_hi + BASE * unat y * wval (drop (J + 1 + 1) x)) * (BASE ^ (I + J) * BASE))
        mod (BASE ^ (I + J) * (BASE * BASE)) =
        (?W + (?c + BASE * unat y * wval (drop (J + 1) x)) * BASE ^ (I + J)) mod (BASE ^ (I + J) * (BASE * BASE))"
      by (rule mod_eq_int, simp only: of_nat_add of_nat_mult,
        rule low_digits_int[OF arg_cong[OF upd, of int, simplified of_nat_add of_nat_mult]
          t[simplified of_nat_add of_nat_mult] s[simplified of_nat_mult]
          arg_cong[OF x, of int, simplified of_nat_add of_nat_mult]]) (use low in auto)
    note e = this
    have "length (result[I + J := r]) = R" "J + 1 < length x" "add_line_ok (J + 1) I R c_hi c_lo'"
      using low "1.prems" by (simp_all add: add_line_ok_def)
    note ih = "1.IH"(2)[OF low refl m[symmetric] refl this]
    have rec: "mul_add_line_recur J I R x y result c_hi c_lo =
        mul_add_line_recur (J + 1) I R x y (result[I + J := r]) c_hi c_lo'"
      using low m by (simp add: mul_add_line_recur.simps[of J])
    have pow: "BASE ^ R = BASE ^ (I + J) * (BASE * BASE)" "BASE ^ (I + (J + 1)) = BASE ^ (I + J) * BASE"
      by (simp_all add: R mult.commute)
    show ?thesis using ih unfolding rec pow e by simp
  next
    case top
    then have R: "R = I + J + 1" by simp
    let ?res = "result[I + J := ?w + c_lo]"
    have W': "wval (take ?k ?res) mod (BASE ^ (I + J) * BASE) =
        (?W + (unat c_lo + BASE * (unat c_hi + unat y * wval (drop (J + 1) x))) * BASE ^ (I + J))
        mod (BASE ^ (I + J) * BASE)"
      using upd[of "?w + c_lo"] top by (intro top_digit_add) simp
    have "length ?res = R" "J + 1 < length x" "add_line_ok (J + 1) I R c_hi c_lo"
      using top "1.prems" by (simp_all add: add_line_ok_def)
    note ih = "1.IH"(3)[OF top this]
    have rec: "mul_add_line_recur J I R x y result c_hi c_lo =
        mul_add_line_recur (J + 1) I R x y ?res c_hi c_lo"
      using top by (simp add: mul_add_line_recur.simps[of J])
    have pow: "BASE ^ R = BASE ^ (I + J) * BASE" by (simp add: R)
    have q: "unat c_lo + BASE * (unat c_hi + unat y * wval (drop (J + 1) x)) =
        ?c + BASE * unat y * wval (drop (J + 1) x)" by (simp add: algebra_simps)
    have "R \<le> I + (J + 1)" using R by simp
    then show ?thesis using ih unfolding rec mod_pow_drop[OF \<open>R \<le> I + (J + 1)\<close>] W'[folded pow, unfolded q] by simp
  next
    case out
    then show ?thesis
      using "1.prems" W mod_pow_drop[of R "I + J" ?W]
      by (simp add: mul_add_line_recur.simps[of J] min_absorb1)
  next
    case last
    then have top: "I + length x - 1 = I + J" "\<not> J + 1 < length x" by linarith+
    obtain r1 r0 where m: "adc_2 c_hi c_lo ?w = (r1, r0)" by (metis surj_pair)
    have c: "?c \<le> BASE * (BASE - 1)" using "1.prems"(3) last by (simp add: add_line_ok_def)
    obtain d where d: "BASE = Suc d" using BASE_pos(1) by (cases BASE) auto
    have "BASE * (BASE - 1) + (BASE - 1) < BASE * BASE" by (simp add: d)
    with c u64_bound[of ?w] have "?c + unat ?w < BASE * BASE" by linarith
    from adc_2_value[OF m this] have v: "unat r0 + BASE * unat r1 = ?c + unat ?w" .
    have "BASE ^ (I + J) * (unat r0 + BASE * unat r1) = BASE ^ (I + J) * (?c + unat ?w)" by (simp only: v)
    moreover have "wval (take (Suc (I + ?M)) (result[I + ?M := r1, I + J := r0])) =
        wval (take (I + ?M) (result[I + J := r0])) + BASE ^ (I + ?M) * unat r1"
      using last "1.prems"(1) by (intro wval_last_digits) simp_all
    moreover have "BASE ^ (I + ?M) * unat r1 = BASE ^ (I + J) * (BASE * unat r1)"
      by (simp add: mult.assoc flip: last(1))
    moreover have "?k = I + ?M" using last by simp
    ultimately have "wval (take (Suc (I + ?M)) (result[I + ?M := r1, I + J := r0])) = ?W + BASE ^ (I + J) * ?c"
      using upd[OF last(2), of r0] by (simp only: distrib_left)
    moreover have "wval (take (Suc (I + ?M)) (result[I + ?M := r1, I + J := r0])) < BASE ^ R"
      using wval_take_less[of "Suc (I + ?M)" "result[I + ?M := r1, I + J := r0]"] last "1.prems"(1)
        power_increasing[of "Suc (I + ?M)" R BASE] by (simp add: Suc_leI)
    moreover have "mul_add_line_recur J I R x y result c_hi c_lo = result[I + ?M := r1, I + J := r0]"
      using last m top by (simp add: mul_add_line_recur.simps[of J])
    moreover have "drop (J + 1) x = []" using last by simp
    ultimately show ?thesis using last "1.prems"(1) by (simp add: mult.commute)
  next
    case filled
    let ?res = "result[I + J := ?w + c_lo]"
    have R: "R = I + J + 1" and last: "I + length x - 1 = I + J" using filled by linarith+
    have "wval (take ?k ?res) mod (BASE ^ (I + J) * BASE) =
        (?W + (unat c_lo + BASE * unat c_hi) * BASE ^ (I + J)) mod (BASE ^ (I + J) * BASE)"
      using upd[of "?w + c_lo"] R by (intro top_digit_add) simp
    moreover have "wval (take ?k ?res) < BASE ^ (I + J) * BASE"
      using wval_take_less[of R ?res] "1.prems"(1) filled R by (simp add: mult.commute)
    moreover have "mul_add_line_recur J I R x y result c_hi c_lo = ?res"
      using filled R last by (simp add: mul_add_line_recur.simps[of J])
    moreover have "drop (J + 1) x = []" using filled by simp
    ultimately show ?thesis using filled "1.prems"(1) R by (simp add: mult.commute)
  qed
qed

lemma top_mod_cong:
  assumes "R \<le> Suc I" "n mod b = m mod b"
  shows "(a + n * b ^ I) mod b ^ R = (a + m * b ^ I) mod (b ^ R :: nat)"
proof -
  have "(a + n * b ^ I) mod b ^ R = (a + n mod b * b ^ I) mod b ^ R" for n
  proof -
    have "(n mod b + n div b * b) * b ^ I = n mod b * b ^ I + n div b * b ^ Suc I"
      by (simp only: distrib_right mult.assoc power_Suc)
    then have "n * b ^ I = n mod b * b ^ I + n div b * b ^ Suc I" by (simp only: mod_div_mult_eq)
    then show ?thesis using mod_pow_drop[OF assms(1), of "a + n mod b * b ^ I" "n div b" b]
      by (simp only: add.assoc)
  qed
  from this[of n] this[of m] show ?thesis by (simp only: assms(2))
qed

lemma mul_add_line_value:
  assumes "length result = R" "0 < length x"
  shows "length (mul_add_line I R x y result) = R \<and>
    wval (take (min R (I + length x + 1)) (mul_add_line I R x y result)) =
      (wval (take (min R (I + length x)) result) + wval x * unat y * BASE ^ I) mod BASE ^ R"
proof -
  obtain c_hi c_lo where m: "(if I + 1 < R then mulx (x ! 0) y else (0, x ! 0 * y)) = (c_hi, c_lo)"
    by fastforce
  have x: "wval x = unat (x ! 0) + BASE * wval (drop (0 + 1) x)"
    using wval_drop_step[of 0 x] assms(2) by simp
  have "add_line_ok 0 I R c_hi c_lo"
    unfolding add_line_ok_def
  proof
    assume "I + 0 + 1 < R"
    then have "mulx (x ! 0) y = (c_hi, c_lo)" using m by simp
    from mulx_value[OF this] show "unat c_lo + BASE * unat c_hi \<le> BASE * (BASE - 1)"
      by (simp only: square_word_bound)
  qed
  note v = mul_add_line_recur_value[OF assms(1,2) this, of y]
  have "(wval (take (min R (I + length x)) result) +
      (unat c_lo + BASE * unat c_hi + BASE * unat y * wval (drop (0 + 1) x)) * BASE ^ (I + 0)) mod BASE ^ R =
      (wval (take (min R (I + length x)) result) + wval x * unat y * BASE ^ I) mod BASE ^ R"
  proof (cases "I + 1 < R")
    case True
    then have "unat c_lo + BASE * unat c_hi = unat (x ! 0) * unat y"
      using m mulx_value by simp
    then have "unat c_lo + BASE * unat c_hi + BASE * unat y * wval (drop (0 + 1) x) = wval x * unat y"
      unfolding x by (simp add: algebra_simps)
    then show ?thesis by simp
  next
    case False
    then have m': "c_hi = 0" "c_lo = x ! 0 * y" using m by simp_all
    have "(unat c_lo + BASE * unat c_hi + BASE * unat y * wval (drop (0 + 1) x)) mod BASE =
        (wval x * unat y) mod BASE"
      unfolding x m'
      by (simp only: unat_0 mult_0_right add_0_right unat_times_mod distrib_right mult.assoc
          mod_mult_self2 mod_mod_trivial)
    then show ?thesis
      unfolding add_0_right using False by (intro top_mod_cong) simp_all
  qed
  then show ?thesis using v m by (simp add: mul_add_line_def)
qed

lemma truncating_mul_recur_value:
  assumes "length result = R" "0 < length x" "min R (I + length x) = k"
  shows "length (truncating_mul_recur ys I R x result) = R \<and>
    wval (take (min R (I + length ys + length x)) (truncating_mul_recur ys I R x result)) =
      (wval (take k result) + wval x * wval ys * BASE ^ I) mod BASE ^ R"
  using assms
proof (induction ys arbitrary: I k result)
  case Nil
  have k: "k \<le> R" using Nil by linarith
  have "wval (take k result) < BASE ^ R"
    using wval_take_less[of k result] power_increasing[of k R BASE] k Nil(1) by (simp add: Suc_leI)
  then show ?case using Nil by simp
next
  case (Cons y ys)
  let ?res = "mul_add_line I R x y result"
  have l: "length ?res = R" and v: "wval (take (min R (I + length x + 1)) ?res) =
      (wval (take k result) + wval x * unat y * BASE ^ I) mod BASE ^ R"
    using mul_add_line_value[OF Cons.prems(1,2), of I y] Cons.prems(3) by simp_all
  have "I + length x + 1 = I + 1 + length x" by simp
  note ih = Cons.IH[OF l Cons.prems(2) refl, of "I + 1", folded this, unfolded v]
  have "(wval (take k result) + wval x * unat y * BASE ^ I) + wval x * wval ys * BASE ^ (I + 1) =
      wval (take k result) + wval x * wval (y # ys) * BASE ^ I"
    by (simp add: distrib_left distrib_right mult.assoc mult.commute mult.left_commute)
  note e = this
  show ?case using ih unfolding mod_add_left_eq e by simp
qed

lemma truncating_mul_value:
  assumes "length uninit = R" "0 < R" "x \<noteq> []" "y \<noteq> []" "R \<le> length x + length y"
  shows "length (truncating_mul uninit R x y) = R \<and>
    wval (truncating_mul uninit R x y) = wval x * wval y mod BASE ^ R"
proof -
  have x: "0 < length x" using assms(3) by simp
  have l: "length (mul_line R x (hd y) uninit) = R"
    and v: "wval (take (min R (length x + 1)) (mul_line R x (hd y) uninit)) = wval x * unat (hd y) mod BASE ^ R"
    using mul_line_value[OF assms(1,2) x] by simp_all
  have R: "min R (1 + length (tl y) + length x) = R"
    using assms(4,5) by (cases y) simp_all
  have "1 + length x = length x + 1" by simp
  note r = truncating_mul_recur_value[OF l x refl, of "tl y" 1, unfolded this v R]
  have "wval x * unat (hd y) + wval x * wval (tl y) * BASE ^ 1 = wval x * wval y"
    using assms(4) by (cases y) (simp_all add: distrib_left mult.assoc mult.commute mult.left_commute)
  note e = this
  have "length (truncating_mul uninit R x y) = R" using r by (simp add: truncating_mul_def)
  then show ?thesis using r unfolding mod_add_left_eq e truncating_mul_def by simp
qed

lemma uint256_mul_correct:
  "length uninit = 4 \<Longrightarrow> uint256_mul uninit (of_u256 x) (of_u256 y) = of_u256 (x * y)"
proof -
  assume u: "length uninit = 4"
  have ne: "of_u256 z \<noteq> []" for z by (simp add: of_u256_def)
  have "unat (x * y) = unat x * unat y mod BASE ^ 4"
    by (simp add: unat_word_ariths BASE_power)
  then show ?thesis
    using truncating_mul_value[OF u _ ne ne, of x y]
    by (intro wval_inject) (simp_all add: uint256_mul_def)
qed

text \<open>
  C25: The multiplication compiled into the client, whose unrolled loop accumulates each line with a
  two-word carry and truncates early, returns for any operands and any width \<open>R\<close> that the template
  admits the words of the product modulo \<open>2 ^ (64 * R)\<close>, whatever the uninitialised result array held,
  and these are the words of the constant-evaluated schoolbook loop.
\<close>
theorem truncating_mul_correct:
  assumes "length uninit = R" "0 < R" "0 < length x" "0 < length y" "R \<le> length x + length y"
  shows "truncating_mul uninit R x y = truncating_mul_portable R x y \<and>
    wval (truncating_mul uninit R x y) = wval x * wval y mod 2 ^ (64 * R)"
proof -
  have v: "length (truncating_mul uninit R x y) = R"
    "wval (truncating_mul uninit R x y) = wval x * wval y mod BASE ^ R"
    using truncating_mul_value[OF assms(1,2) _ _ assms(5)] assms(3,4) by simp_all
  then have "truncating_mul uninit R x y = truncating_mul_portable R x y"
    by (intro wval_inject) (simp_all only: truncating_mul_portable_value)
  then show ?thesis using v(2) by (simp only: BASE_power)
qed

theorem truncating_mul_correct_witness:
  "truncating_mul [7, 7] 2 [0xFFFFFFFFFFFFFFFF, 1] [2] = truncating_mul_portable 2 [0xFFFFFFFFFFFFFFFF, 1] [2] \<and>
    wval (truncating_mul [7, 7] 2 [0xFFFFFFFFFFFFFFFF, 1] [2]) =
      wval [0xFFFFFFFFFFFFFFFF, 1] * wval [2] mod 2 ^ (64 * 2)"
  by (rule truncating_mul_correct) simp_all

end
