(* ===== verification/Uint256_Div.thy ===== *)
theory Uint256_Div
  imports Uint256_Mul
begin

unbundle bit_operations_syntax

text \<open>
  Division of multi-word numbers: \<open>long_div\<close> by one word, Knuth's algorithm D in \<open>knuth_div\<close> with its
  single pre-adjustment of the digit estimate and its single add-back, and \<open>udivrem\<close>, which normalises
  the divisor and chooses between them; then the modular and signed operations built on it.
  A debug assertion that fails and the fault that the hardware division raises on an overflowing
  quotient are the value \<^term>\<open>None\<close>; the theorems show that neither is reached.
\<close>

section \<open>Definitions\<close>

definition div_checked :: "u64 \<Rightarrow> u64 \<Rightarrow> u64 \<Rightarrow> (u64 \<times> u64) option" where
  "div_checked u_hi u_lo v = (if u_hi < v then Some (div_words u_hi u_lo v) else None)"

primrec count_significant_words_upto :: "words \<Rightarrow> nat \<Rightarrow> nat" where
  "count_significant_words_upto x 0 = 0"
| "count_significant_words_upto x (Suc i) =
     (if x ! i \<noteq> 0 then Suc i else count_significant_words_upto x i)"

definition count_significant_words :: "words \<Rightarrow> nat" where
  "count_significant_words x = count_significant_words_upto x (length x)"

definition countl_zero64 :: "u64 \<Rightarrow> nat" where
  "countl_zero64 x = length (takeWhile (\<lambda>i. \<not> bit x i) (rev [0..<64]))"

primrec long_div_loop :: "nat \<Rightarrow> words \<Rightarrow> u64 \<Rightarrow> u64 \<Rightarrow> words \<Rightarrow> (u64 \<times> words) option" where
  "long_div_loop 0 u v rem quot = Some (rem, quot)"
| "long_div_loop (Suc ix) u v rem quot =
     (case div_checked rem (u ! ix) v of
        None \<Rightarrow> None
      | Some (q, r) \<Rightarrow> long_div_loop ix u v r (quot[ix := q]))"

definition long_div :: "nat \<Rightarrow> words \<Rightarrow> u64 \<Rightarrow> words \<Rightarrow> (u64 \<times> words) option" where
  "long_div m u v quot =
     (if m = 0 \<or> v = 0 then None
      else case div_checked 0 (u ! (m - 1)) v of
        None \<Rightarrow> None
      | Some (q, r) \<Rightarrow> long_div_loop (m - 1) u v r (quot[m - 1 := q]))"

primrec sub_mul_loop :: "u128 \<Rightarrow> words \<Rightarrow> nat \<Rightarrow> words \<Rightarrow> u128 \<Rightarrow> words \<times> u128" where
  "sub_mul_loop q_hat [] p u k = (u, k)"
| "sub_mul_loop q_hat (v # vs) p u k =
     (let prod = q_hat * ucast v;
          t = ucast (u ! p) - k - (prod AND 0xffffffffffffffff)
      in sub_mul_loop q_hat vs (Suc p) (u[p := ucast t]) (drop_bit 64 prod - signed_drop_bit 64 t))"

primrec add_back_loop :: "words \<Rightarrow> nat \<Rightarrow> words \<Rightarrow> u128 \<Rightarrow> words \<times> u128" where
  "add_back_loop [] p u k = (u, k)"
| "add_back_loop (v # vs) p u k =
     (let t = ucast (u ! p) + ucast v + k
      in add_back_loop vs (Suc p) (u[p := ucast t]) (drop_bit 64 t))"

text \<open>
  The estimate of the next quotient digit. The inner \<^term>\<open>None\<close> is the \<open>continue\<close> of the loop for an
  estimate of zero.
\<close>
definition knuth_q_hat :: "nat \<Rightarrow> words \<Rightarrow> nat \<Rightarrow> words \<Rightarrow> u128 option option" where
  "knuth_q_hat n v ix u =
     (if \<not> u ! (ix + n) \<le> v ! (n - 1) then None
      else if u ! (ix + n) = v ! (n - 1) then Some (Some (ucast (NOT 0 :: u64)))
      else case div_checked (u ! (ix + n)) (u ! (ix + n - 1)) (v ! (n - 1)) of
        None \<Rightarrow> None
      | Some (q_hat0, r_hat0) \<Rightarrow>
          if q_hat0 = 0 then Some None
          else let q_hat = ucast q_hat0; r_hat = ucast r_hat0 :: u128
               in if q_hat * ucast (v ! (n - 2)) > push_bit 64 r_hat + ucast (u ! (ix + n - 2))
                  then Some (Some (q_hat - 1)) else Some (Some q_hat))"

definition knuth_step :: "nat \<Rightarrow> words \<Rightarrow> nat \<Rightarrow> words \<Rightarrow> words \<Rightarrow> (words \<times> words) option" where
  "knuth_step n v ix u quot =
     (case knuth_q_hat n v ix u of
        None \<Rightarrow> None
      | Some None \<Rightarrow> Some (u, quot)
      | Some (Some q_hat) \<Rightarrow>
          let (u, k) = sub_mul_loop q_hat (take n v) ix u 0;
              t = ucast (u ! (ix + n)) - k;
              u = u[ix + n := ucast t]
          in if drop_bit 127 t \<noteq> 0 then
               let q_hat = q_hat - 1;
                   (u, k) = add_back_loop (take n v) ix u 0;
                   u = u[ix + n := u ! (ix + n) + ucast k]
               in Some (u, quot[ix := ucast q_hat])
             else Some (u, quot[ix := ucast q_hat]))"

primrec knuth_loop :: "nat \<Rightarrow> words \<Rightarrow> nat \<Rightarrow> words \<Rightarrow> words \<Rightarrow> (words \<times> words) option" where
  "knuth_loop n v 0 u quot = Some (u, quot)"
| "knuth_loop n v (Suc ix) u quot =
     (case knuth_step n v ix u quot of
        None \<Rightarrow> None
      | Some (u, quot) \<Rightarrow> knuth_loop n v ix u quot)"

definition knuth_div :: "nat \<Rightarrow> words \<Rightarrow> nat \<Rightarrow> words \<Rightarrow> words \<Rightarrow> (words \<times> words) option" where
  "knuth_div m u n v quot =
     (if n \<le> m \<and> 1 < n \<and> v ! (n - 1) AND push_bit 63 1 \<noteq> 0
      then knuth_loop n v (m - n + 1) u quot
      else None)"

definition shift_words :: "nat \<Rightarrow> words \<Rightarrow> words" where
  "shift_words s u = push_bit s (u ! 0) # map (\<lambda>i. shld (u ! i) (u ! (i - 1)) s) [1..<length u]"

definition udivrem :: "words \<Rightarrow> words \<Rightarrow> (words \<times> words) option" where
  "udivrem u v =
     (let M = length u; N = length v;
          m = count_significant_words u;
          n = count_significant_words v;
          zeros = replicate M 0
      in if n = 0 then None
         else if m < n then Some (zeros, take N u)
         else if m = 1 then
           (case div_checked 0 (u ! 0) (v ! 0) of
              None \<Rightarrow> None
            | Some (q0, r0) \<Rightarrow> Some (zeros[0 := q0], (replicate N 0)[0 := r0]))
         else if n = 1 then
           (case long_div m u (v ! 0) zeros of
              None \<Rightarrow> None
            | Some (r, quot) \<Rightarrow> Some (quot, (replicate N 0)[0 := r]))
         else
           let s = countl_zero64 (v ! (n - 1));
               u_norm = shift_words s u @ [drop_bit (63 - s) (drop_bit 1 (u ! (M - 1)))];
               v_norm = shift_words s v
           in case knuth_div m u_norm n v_norm zeros of
                None \<Rightarrow> None
              | Some (u_norm, quot) \<Rightarrow>
                  Some (quot, map (\<lambda>i. shrd (u_norm ! (i + 1)) (u_norm ! i) s) [0..<N - 1] @
                    [drop_bit s (u_norm ! (N - 1))]))"

section \<open>The inner loops\<close>

lemma borrow_bound:
  fixes b u k q v lo hi T kk :: int
  assumes "0 \<le> u" "u < b" "0 \<le> k" "k < b" "0 \<le> q" "q < b" "0 \<le> v" "v < b"
    "q * v = lo + b * hi" "0 \<le> lo" "lo < b" "T = u - k - lo" "kk = hi - T div b"
  shows "u - k - q * v = T mod b - b * kk" "0 \<le> kk" "kk < b"
proof -
  have "T = b * (T div b) + T mod b" by simp
  then show e: "u - k - q * v = T mod b - b * kk"
    using assms(9,12,13) by (simp only: right_diff_distrib)
  have "0 \<le> q * v" using assms(5,7) by (rule mult_nonneg_nonneg)
  then have "- lo \<le> b * hi" using assms(9) by linarith
  then have "- b < b * hi" using assms(11) by linarith
  have "0 \<le> hi"
  proof (rule ccontr)
    assume "\<not> 0 \<le> hi"
    then have "b * hi \<le> b * - 1" using assms(1,2) by (intro mult_left_mono) auto
    with \<open>- b < b * hi\<close> show False by simp
  qed
  moreover have "T \<le> b - 1" using assms(2,3,10,12) by linarith
  then have "T div b \<le> (b - 1) div b" using assms(1,2) by (intro zdiv_mono1) auto
  then have "T div b \<le> 0" using assms(1,2) by (simp add: div_pos_pos_trivial)
  ultimately show "0 \<le> kk" using assms(13) by linarith
  have "q * v \<le> (b - 1) * (b - 1)" using assms(1,2,5,6,7,8) by (intro mult_mono) linarith+
  also have "\<dots> = b * b - 2 * b + 1" by (simp add: algebra_simps)
  finally have "b * kk \<le> (b - 1) + (b - 1) + (b * b - 2 * b + 1)"
    using e assms(1,2,3,4) pos_mod_bound[of b T] by linarith
  then have "b * kk < b * b" by linarith
  then show "kk < b" using assms(1,2) by simp
qed

lemma int_less: "m < n \<Longrightarrow> int m < int n" by simp

lemma sint_of_int_128: "- (2 ^ 127) \<le> T \<Longrightarrow> T < 2 ^ 127 \<Longrightarrow> sint (word_of_int T :: u128) = T"
  by (simp add: signed_of_int signed_take_bit_int_eq_self)

lemma uint_ucast_of_int_128: "uint (ucast (word_of_int T :: u128) :: u64) = T mod 2 ^ 64"
  by (simp add: unsigned_ucast_eq unsigned_of_int take_bit_eq_mod mod_mod_cancel)

lemma uint_drop_bit_128: "uint (drop_bit 64 (w :: u128)) = uint w div 2 ^ 64"
  by (simp add: drop_bit_eq_div uint_div)

lemma of_int_sint_128: "word_of_int (sint (w :: u128)) = w"
  by simp

lemma sub_mul_word:
  fixes u v :: u64 and q k :: u128
  assumes "unat q < BASE" "unat k < BASE"
    "pr = q * ucast v" "t = ucast u - k - (pr AND 0xffffffffffffffff)"
    "k' = drop_bit 64 pr - signed_drop_bit 64 t"
  shows "int (unat u) - int (unat k) - int (unat q) * int (unat v) =
      int (unat (ucast t :: u64)) - int BASE * int (unat k')" "unat k' < BASE"
proof -
  let ?b = "2 ^ 64 :: int"
  let ?T = "uint u - uint k - uint pr mod ?b"
  have b: "int BASE = ?b" by (simp add: BASE_def)
  have bound: "0 \<le> uint u" "uint u < ?b" "0 \<le> uint v" "uint v < ?b" "0 \<le> uint q" "uint q < ?b" "0 \<le> uint k" "uint k < ?b"
    using int_less[OF assms(1)] int_less[OF assms(2)] uint_bounded[of u] uint_bounded[of v] b
    by simp_all
  have "uint q * uint v \<le> (?b - 1) * (?b - 1)" using bound by (intro mult_mono) auto
  then have pr: "uint pr = uint q * uint v"
    using assms(3) bound by (simp add: uint_word_ariths unsigned_ucast_eq take_bit_eq_mod)
  have "pr AND 0xffffffffffffffff = take_bit 64 pr"
    by (simp add: take_bit_eq_mask mask_eq_exp_minus_1)
  also have "\<dots> = word_of_int (uint pr mod ?b)"
    using word_of_int_uint[of "take_bit 64 pr"] unfolding unsigned_take_bit_eq take_bit_eq_mod[of 64 "uint pr"] by (rule sym)
  finally have "t = word_of_int (uint u) - word_of_int (uint k) - word_of_int (uint pr mod ?b)"
    using assms(4) by (simp add: word_of_int_uint unsigned_of_int)
  then have t: "t = word_of_int ?T" by simp
  have m: "0 \<le> uint pr mod ?b" "uint pr mod ?b < ?b" by simp_all
  have width: "2 * ?b \<le> 2 ^ 127" by simp
  have "- (2 ^ 127) \<le> ?T" "?T < 2 ^ 127"
    using bound m width by linarith+
  then have "sint t = ?T" unfolding t by (rule sint_of_int_128)
  then have sd: "sint (signed_drop_bit 64 t) = ?T div ?b"
    by (simp add: sint_signed_drop_bit_eq drop_bit_eq_div)
  have "drop_bit 64 pr = word_of_int (uint pr div ?b)"
    using word_of_int_uint[of "drop_bit 64 pr"] unfolding uint_drop_bit_128 by (rule sym)
  moreover have "signed_drop_bit 64 t = word_of_int (?T div ?b)"
    using of_int_sint_128[of "signed_drop_bit 64 t"] unfolding sd by (rule sym)
  ultimately have k': "k' = word_of_int (uint pr div ?b - ?T div ?b)"
    using assms(5) by simp
  have pd: "uint q * uint v = uint pr mod ?b + ?b * (uint pr div ?b)" by (simp add: pr)
  note r = borrow_bound[OF bound(1,2) bound(7,8) bound(5,6) bound(3,4) pd m refl refl]
  have uk: "uint k' = uint pr div ?b - ?T div ?b"
    unfolding k' by (rule word_of_int_inverse) (use r in simp_all)
  have ut: "uint (ucast t :: u64) = ?T mod ?b" unfolding t by (rule uint_ucast_of_int_128)
  show "int (unat u) - int (unat k) - int (unat q) * int (unat v) =
      int (unat (ucast t :: u64)) - int BASE * int (unat k')"
    using r(1) unfolding of_nat_unat b ut uk pr .
  show "unat k' < BASE"
    using r(3) uk b by (simp only: of_nat_less_iff[where 'a = int, symmetric] of_nat_unat)
qed

lemma wval_update_int:
  "i < length xs \<Longrightarrow> int (wval (xs[i := w])) = int (wval xs) + int (BASE ^ i) * (int (unat w) - int (unat (xs ! i)))"
  using arg_cong[OF wval_update[of i xs w], of int] by (simp add: right_diff_distrib)

lemma sub_mul_algebra:
  fixes A A1 A' P b k k1 q v V w x K :: int
  assumes "A1 = A + P * (w - x)" "x - k - q * v = w - b * k1" "A' = A1 - P * b * (k1 + q * V) + K"
  shows "A' = A - P * (k + q * (v + b * V)) + K"
proof -
  have w: "w = x - k - q * v + b * k1" using assms(2) by simp
  show ?thesis unfolding assms(3) assms(1) w by (simp add: algebra_simps)
qed

lemma sub_mul_loop_value:
  assumes "sub_mul_loop q vs p u k = (u', k')" "unat q < BASE" "unat k < BASE" "p + length vs \<le> length u"
  shows "length u' = length u \<and> unat k' < BASE \<and> take p u' = take p u \<and>
    drop (p + length vs) u' = drop (p + length vs) u \<and>
    int (wval u') = int (wval u) - int (BASE ^ p) * (int (unat k) + int (unat q) * int (wval vs)) +
      int (BASE ^ (p + length vs)) * int (unat k')"
  using assms
proof (induction vs arbitrary: p u k)
  case Nil
  then show ?case by (simp add: right_diff_distrib)
next
  case (Cons v vs)
  define pr where "pr = q * ucast v"
  define t where "t = ucast (u ! p) - k - (pr AND 0xffffffffffffffff)"
  define k1 where "k1 = drop_bit 64 pr - signed_drop_bit 64 t"
  define w where "w = (ucast t :: u64)"
  have step: "sub_mul_loop q vs (Suc p) (u[p := w]) k1 = (u', k')"
    using Cons.prems(1) by (simp add: Let_def pr_def t_def k1_def w_def)
  note word = sub_mul_word[OF Cons.prems(2,3) pr_def t_def k1_def, folded w_def]
  have len: "Suc p + length vs \<le> length (u[p := w])" "p < length u" using Cons.prems(4) by simp_all
  have ih: "length u' = length u" "unat k' < BASE" "take (Suc p) u' = take (Suc p) (u[p := w])"
    "drop (Suc p + length vs) u' = drop (Suc p + length vs) (u[p := w])"
    "int (wval u') = int (wval (u[p := w])) - int (BASE ^ Suc p) * (int (unat k1) + int (unat q) * int (wval vs)) +
      int (BASE ^ (Suc p + length vs)) * int (unat k')"
    using Cons.IH[OF step Cons.prems(2) word(2) len(1)] by simp_all
  have "take p u' = take p u"
    using arg_cong[OF ih(3), of "take p"] by (simp add: take_update_swap list_update_beyond)
  moreover have "int (wval u') = int (wval u) - int (BASE ^ p) * (int (unat k) + int (unat q) * (int (unat v) + int BASE * int (wval vs))) +
      int (BASE ^ (Suc p + length vs)) * int (unat k')"
    by (rule sub_mul_algebra[OF wval_update_int[OF len(2)] word(1)])
      (use ih(5) in \<open>simp only: power_Suc of_nat_mult mult.commute\<close>)
  ultimately show ?case using ih(1,2,4) by simp
qed

lemma add_back_word:
  fixes u v :: u64 and k :: u128
  assumes "unat k \<le> 1" "t = ucast u + ucast v + k"
  shows "int (unat u) + int (unat v) + int (unat k) = int (unat (ucast t :: u64)) + int BASE * int (unat (drop_bit 64 t))"
    "unat (drop_bit 64 t) \<le> 1"
proof -
  have "unat u + unat v + unat k < 2 ^ 128" "unat u + unat v + unat k < BASE + BASE"
    using u64_bound[of u] u64_bound[of v] assms(1) by (simp_all add: BASE_def)
  then have t: "unat t = unat u + unat v + unat k"
    unfolding assms(2) by (simp add: unat_word_ariths unat_ucast_up)
  have d: "unat (drop_bit 64 t) = unat t div BASE" "unat (ucast t :: u64) = unat t mod BASE"
    by (simp_all add: BASE_def drop_bit_eq_div unat_div unsigned_ucast_eq take_bit_eq_mod)
  have "int (unat t) = int (unat (ucast t :: u64)) + int BASE * int (unat (drop_bit 64 t))"
    unfolding d by (metis mod_mult_div_eq of_nat_add of_nat_mult)
  then show "int (unat u) + int (unat v) + int (unat k) = int (unat (ucast t :: u64)) + int BASE * int (unat (drop_bit 64 t))"
    using t by simp
  show "unat (drop_bit 64 t) \<le> 1"
    unfolding d using t \<open>_ < BASE + BASE\<close> by (simp add: div_less_iff_less_mult flip: less_Suc_eq_le)
qed

lemma add_back_algebra:
  fixes A A1 A' P b k k1 v V w x K :: int
  assumes "A1 = A + P * (w - x)" "x + v + k = w + b * k1" "A' = A1 + P * b * (k1 + V) - K"
  shows "A' = A + P * (k + (v + b * V)) - K"
proof -
  have w: "w = x + v + k - b * k1" using assms(2) by simp
  show ?thesis unfolding assms(3) assms(1) w by (simp add: algebra_simps)
qed

lemma add_back_loop_value:
  assumes "add_back_loop vs p u k = (u', k')" "unat k \<le> 1" "p + length vs \<le> length u"
  shows "length u' = length u \<and> unat k' \<le> 1 \<and> take p u' = take p u \<and>
    drop (p + length vs) u' = drop (p + length vs) u \<and>
    int (wval u') = int (wval u) + int (BASE ^ p) * (int (unat k) + int (wval vs)) -
      int (BASE ^ (p + length vs)) * int (unat k')"
  using assms
proof (induction vs arbitrary: p u k)
  case Nil
  then show ?case by (simp add: right_diff_distrib)
next
  case (Cons v vs)
  define t where "t = ucast (u ! p) + ucast v + k"
  define w where "w = (ucast t :: u64)"
  have step: "add_back_loop vs (Suc p) (u[p := w]) (drop_bit 64 t) = (u', k')"
    using Cons.prems(1) by (simp add: Let_def t_def w_def)
  note word = add_back_word[OF Cons.prems(2) t_def, folded w_def]
  have len: "Suc p + length vs \<le> length (u[p := w])" "p < length u" using Cons.prems(3) by simp_all
  have ih: "length u' = length u" "unat k' \<le> 1" "take (Suc p) u' = take (Suc p) (u[p := w])"
    "drop (Suc p + length vs) u' = drop (Suc p + length vs) (u[p := w])"
    "int (wval u') = int (wval (u[p := w])) + int (BASE ^ Suc p) * (int (unat (drop_bit 64 t)) + int (wval vs)) -
      int (BASE ^ (Suc p + length vs)) * int (unat k')"
    using Cons.IH[OF step word(2) len(1)] by simp_all
  have "take p u' = take p u"
    using arg_cong[OF ih(3), of "take p"] by (simp add: take_update_swap list_update_beyond)
  moreover have "int (wval u') = int (wval u) + int (BASE ^ p) * (int (unat k) + (int (unat v) + int BASE * int (wval vs))) -
      int (BASE ^ (Suc p + length vs)) * int (unat k')"
    by (rule add_back_algebra[OF wval_update_int[OF len(2)] word(1)])
      (use ih(5) in \<open>simp only: power_Suc of_nat_mult mult.commute\<close>)
  ultimately show ?case using ih(1,2,4) by simp
qed

section \<open>The digit estimate\<close>

lemma digit_upper: "0 < V div c \<Longrightarrow> a div V \<le> (a div c) div (V div c :: nat)"
proof -
  assume pos: "0 < V div c"
  then have "0 < c * (V div c)" by (cases "c = 0") auto
  moreover have "c * (V div c) \<le> V" by simp
  ultimately have "a div V \<le> a div (c * (V div c))" by (rule div_le_mono2)
  then show ?thesis by (simp add: div_mult2_eq)
qed

lemma digit_lower:
  assumes "q * (V div c) \<le> a div c" "q * c \<le> j * V" "0 < V" "0 < c"
  shows "q \<le> a div V + (j :: nat)"
proof -
  have "V \<le> (V div c) * c + c"
    using assms(4) by (metis add_left_mono div_mult_mod_eq mod_less_divisor less_imp_le)
  then have "q * V \<le> q * ((V div c) * c + c)" by (rule mult_le_mono2)
  also have "\<dots> = q * (V div c) * c + q * c" by (simp add: distrib_left)
  also have "\<dots> \<le> (a div c) * c + j * V" using assms(1,2) by (intro add_mono mult_le_mono1) simp_all
  also have "\<dots> \<le> a + j * V" by simp
  finally have "(q - j) * V \<le> a" by (simp add: diff_mult_distrib)
  then have "(q - j) \<le> a div V" using assms(3) by (simp add: less_eq_div_iff_mult_less_eq)
  then show ?thesis by simp
qed

lemma digit_lower_equal:
  assumes "a div (c * b) = V div c" "b \<le> 2 * (V div c)" "0 < c" "1 < b"
  shows "b - 1 \<le> a div V + (1 :: nat)"
proof -
  let ?x = "V div c"
  have x: "0 < ?x" using assms(2,4) by linarith
  then have V: "0 < V" by (cases "V = 0") simp_all
  have "V \<le> (?x + 1) * c"
    using assms(3) by (metis add_left_mono div_mult_mod_eq mod_less_divisor less_imp_le distrib_right mult_1)
  then have "(b - 2) * V \<le> (b - 2) * ((?x + 1) * c)" by (rule mult_le_mono2)
  also have "(b - 2) * (?x + 1) \<le> b * ?x"
  proof -
    obtain d where b: "b = d + 2" using assms(4) by (metis Suc_leI add.commute le_Suc_ex numeral_2_eq_2 One_nat_def)
    show ?thesis using assms(2) unfolding b by (simp add: algebra_simps)
  qed
  then have "(b - 2) * ((?x + 1) * c) \<le> b * ?x * c"
    by (metis mult.assoc mult_le_mono1)
  also have "b * ?x * c = (a div (c * b)) * (c * b)" by (simp add: assms(1))
  also have "\<dots> \<le> a" by simp
  finally have "b - 2 \<le> a div V" using V by (simp add: less_eq_div_iff_mult_less_eq)
  then show ?thesis by simp
qed

lemma q_hat_test:
  fixes r u q v :: u64
  shows "push_bit 64 (ucast r :: u128) + ucast u < ucast q * ucast v \<longleftrightarrow> unat u + BASE * unat r < unat q * unat v"
proof -
  have r: "unat u + BASE * unat r < BASE * BASE" by (rule digit_less) (rule u64_bound)+
  have q: "unat q * unat v < BASE * BASE"
    using u64_bound[of q] u64_bound[of v] by (simp add: mult_strict_mono)
  have B: "BASE * BASE = 2 ^ 128" by (simp add: BASE_def)
  have "unat (push_bit 64 (ucast r :: u128)) = BASE * unat r"
    using r B by (simp add: push_bit_eq_mult unat_word_ariths unat_ucast_up BASE_def)
  then have "unat (push_bit 64 (ucast r :: u128) + ucast u) = unat u + BASE * unat r"
    using r B by (simp add: unat_word_ariths unat_ucast_up)
  moreover have "unat (ucast q * ucast v :: u128) = unat q * unat v"
    using q B by (simp add: unat_word_ariths unat_ucast_up)
  ultimately show ?thesis by (simp add: word_less_nat_alt)
qed

lemma Suc_0_BASE [simp]: "Suc 0 < BASE"
  by (simp add: BASE_def)

lemma unat_of_nat_BASE: "n < BASE \<Longrightarrow> unat (of_nat n :: u64) = n"
  by (simp add: unat_of_nat BASE_def)

lemma div_words_unat:
  assumes "u_hi < v" "div_words u_hi u_lo v = (q, r)"
  shows "unat q = (unat u_lo + BASE * unat u_hi) div unat v" "unat r = (unat u_lo + BASE * unat u_hi) mod unat v"
proof -
  have v: "0 < unat v" using assms(1) by (simp add: word_less_nat_alt)
  have "(unat u_lo + BASE * unat u_hi) mod unat v < BASE"
    using mod_less_divisor[OF v] u64_bound[of v] by (rule less_trans)
  then show "unat q = (unat u_lo + BASE * unat u_hi) div unat v" "unat r = (unat u_lo + BASE * unat u_hi) mod unat v"
    using div_words_value[OF assms(1), of u_lo] assms(2) by (auto simp: unat_of_nat_BASE)
qed

definition divisor_ok :: "nat \<Rightarrow> words \<Rightarrow> bool" where
  "divisor_ok n v \<longleftrightarrow> 2 \<le> n \<and> n \<le> length v \<and> BASE \<le> 2 * unat (v ! (n - 1))"

lemma divisor_digits:
  assumes "divisor_ok n v" "V = wval (take n v)"
  shows "V div BASE ^ (n - 1) = unat (v ! (n - 1))"
    "V div BASE ^ (n - 2) = unat (v ! (n - 2)) + BASE * unat (v ! (n - 1))"
    "0 < V" "BASE ^ n \<le> 2 * V" "V < BASE ^ n"
proof -
  obtain n' where n: "n = Suc (Suc n')" using assms(1) unfolding divisor_ok_def by (metis add_2_eq_Suc le_Suc_ex)
  have len: "length (take n v) = n" using assms(1) by (simp add: divisor_ok_def)
  have d: "wval (drop k (take n v)) = V div BASE ^ k" if "k \<le> n" for k
    using wval_drop[of k "take n v"] that len assms(2) by simp
  show 1: "V div BASE ^ (n - 1) = unat (v ! (n - 1))"
    using d[of "n - 1"] wval_drop_step[of "n - 1" "take n v"] len n by simp
  show "V div BASE ^ (n - 2) = unat (v ! (n - 2)) + BASE * unat (v ! (n - 1))"
    using d[of "n - 2"] d[of "n - 1"] wval_drop_step[of "n - 2" "take n v"] len n 1 by simp
  have "BASE \<le> 2 * (V div BASE ^ (n - 1))" using assms(1) 1 by (simp add: divisor_ok_def)
  then have "BASE * BASE ^ (n - 1) \<le> 2 * (V div BASE ^ (n - 1)) * BASE ^ (n - 1)" by (rule mult_le_mono1)
  also have "\<dots> \<le> 2 * V" by simp
  finally show "BASE ^ n \<le> 2 * V" by (simp add: n)
  then show "0 < V" by (cases "V = 0") simp_all
  show "V < BASE ^ n" using wval_bound[of "take n v"] len assms(2) by simp
qed

lemma window_digits:
  assumes "2 \<le> n" "ix + n < length u" "a = wval (drop ix u)" "a < BASE * V" "V < BASE ^ n"
  shows "a div BASE ^ n = unat (u ! (ix + n))"
    "a div BASE ^ (n - 1) = unat (u ! (ix + n - 1)) + BASE * unat (u ! (ix + n))"
    "a div BASE ^ (n - 2) = unat (u ! (ix + n - 2)) + BASE * (a div BASE ^ (n - 1))"
    "wval (drop (ix + n + 1) u) = 0"
proof -
  obtain n' where n: "n = Suc (Suc n')" using assms(1) by (metis add_2_eq_Suc le_Suc_ex)
  have d: "wval (drop (ix + k) u) = a div BASE ^ k" if "k \<le> n + 1" for k
    using wval_drop[of k "drop ix u"] that assms(2,3) by (simp add: add.commute)
  have "BASE * V \<le> BASE * BASE ^ n" using assms(5) by (intro mult_le_mono2) simp
  then have "a < BASE * BASE ^ n" using assms(4) by linarith
  then have "a < BASE ^ (n + 1)" by simp
  then show 0: "wval (drop (ix + n + 1) u) = 0" using d[of "n + 1"] by simp
  show 1: "a div BASE ^ n = unat (u ! (ix + n))"
    using d[of n] 0 wval_drop_step[of "ix + n" u] assms(2) by simp
  show 2: "a div BASE ^ (n - 1) = unat (u ! (ix + n - 1)) + BASE * unat (u ! (ix + n))"
    using d[of "n - 1"] d[of n] 1 wval_drop_step[of "ix + n - 1" u] assms(2) n by simp
  show "a div BASE ^ (n - 2) = unat (u ! (ix + n - 2)) + BASE * (a div BASE ^ (n - 1))"
    using d[of "n - 2"] d[of "n - 1"] wval_drop_step[of "ix + n - 2" u] assms(2) n by simp
qed

definition digit_estimate :: "nat \<Rightarrow> u128 option option \<Rightarrow> bool" where
  "digit_estimate q r \<longleftrightarrow>
     (r = Some None \<and> q = 0) \<or> (\<exists>q_hat. r = Some (Some q_hat) \<and> unat q_hat < BASE \<and> q \<le> unat q_hat \<and> unat q_hat \<le> q + 1)"

lemma knuth_q_hat_value:
  assumes v: "divisor_ok n v" and V: "V = wval (take n v)" and u: "ix + n < length u"
    and a: "a = wval (drop ix u)" "a < BASE * V"
  shows "digit_estimate (a div V) (knuth_q_hat n v ix u)"
proof -
  note dv = divisor_digits[OF v V]
  have n: "2 \<le> n" using v by (simp add: divisor_ok_def)
  note du = window_digits[OF n u a dv(5)]
  let ?uh = "u ! (ix + n)" and ?vh = "v ! (n - 1)" and ?q = "a div V"
  let ?c1 = "BASE ^ (n - 1)" and ?c2 = "BASE ^ (n - 2)"
  have c: "?c1 = ?c2 * BASE" "BASE ^ n = ?c1 * BASE"
    using power_minus_mult[of "n - 1" BASE] power_minus_mult[of n BASE] n by (simp_all add: numeral_2_eq_2)
  have q: "?q < BASE" using a(2) by (simp add: less_mult_imp_div_less)
  have vh: "0 < unat ?vh" "BASE \<le> 2 * unat ?vh" using v BASE_pos(1) unfolding divisor_ok_def by linarith+
  have "a div BASE \<le> V - 1" using a(2) dv(3) by (simp add: div_less_iff_less_mult mult.commute flip: less_eq_Suc_le less_Suc_eq_le)
  then have "(a div BASE) div ?c1 \<le> V div ?c1" by (intro div_le_mono) simp
  then have le: "?uh \<le> ?vh" using du(1) dv(1) c(2) by (simp add: word_le_nat_alt div_mult2_eq[symmetric] mult.commute)
  show ?thesis
  proof (cases "?uh = ?vh")
    case True
    have "BASE - 1 \<le> ?q + 1"
      using du(1) dv(1) vh c(2) True by (intro digit_lower_equal[of a ?c1 BASE V]) simp_all
    moreover have "unat (ucast (NOT 0 :: u64) :: u128) = BASE - 1"
      by (simp add: unat_ucast_up BASE_def unsigned_minus_1_eq_mask mask_eq_exp_minus_1)
    ultimately show ?thesis using True q by (simp add: knuth_q_hat_def digit_estimate_def)
  next
    case False
    then have less: "?uh < ?vh" using le by simp
    let ?A2 = "unat (u ! (ix + n - 1)) + BASE * unat ?uh"
    obtain q0 r0 where d: "div_words ?uh (u ! (ix + n - 1)) ?vh = (q0, r0)" by fastforce
    have q0: "unat q0 = ?A2 div unat ?vh" and r0: "unat r0 = ?A2 mod unat ?vh"
      using div_words_unat[OF less d] by simp_all
    have up: "?q \<le> unat q0" using digit_upper[of V ?c1 a] dv(1) du(2) vh q0 by simp
    show ?thesis
    proof (cases "q0 = 0")
      case True
      then show ?thesis
        using up le False less d by (simp add: knuth_q_hat_def digit_estimate_def div_checked_def)
    next
      case nz: False
      let ?test = "unat (u ! (ix + n - 2)) + BASE * unat r0 < unat q0 * unat (v ! (n - 2))"
      have "unat q0 * unat ?vh + unat r0 = ?A2" unfolding q0 r0 by simp
      then have A2: "a div ?c1 = unat q0 * unat ?vh + unat r0" using du(2) by simp
      have test: "?test \<longleftrightarrow> a div ?c2 < unat q0 * (V div ?c2)"
        unfolding du(3) dv(2) A2 by (simp add: distrib_left algebra_simps)
      have res: "knuth_q_hat n v ix u = Some (Some (if ?test then ucast q0 - 1 else ucast q0))"
        using le False less d nz by (simp add: knuth_q_hat_def div_checked_def Let_def q_hat_test)
      show ?thesis
      proof (cases ?test)
        case True
        then have "(a div ?c2) div (V div ?c2) < unat q0"
          using test dv(2) vh by (simp add: div_less_iff_less_mult)
        moreover have "?q \<le> (a div ?c2) div (V div ?c2)"
          using dv(2) vh by (intro digit_upper) simp
        ultimately have "?q \<le> unat q0 - 1" by linarith
        moreover have "unat q0 \<le> ?q + 2"
        proof (rule digit_lower[of _ V ?c1])
          show "unat q0 * (V div ?c1) \<le> a div ?c1" using A2 dv(1) by simp
          have "unat q0 * ?c1 \<le> BASE * ?c1" using u64_bound[of q0] by (intro mult_le_mono1) simp
          then show "unat q0 * ?c1 \<le> 2 * V" using dv(4)[unfolded c(2)] by (metis le_trans mult.commute)
        qed (use dv in simp_all)
        moreover have "unat (ucast q0 - 1 :: u128) = unat q0 - 1"
          using nz by (subst unat_minus_one) (simp_all add: unat_ucast_up flip: unat_eq_zero)
        ultimately have "?q \<le> unat (ucast q0 - 1 :: u128)" "unat (ucast q0 - 1 :: u128) \<le> ?q + 1"
          "unat (ucast q0 - 1 :: u128) < BASE"
          using u64_bound[of q0] by linarith+
        then show ?thesis using res True by (simp add: digit_estimate_def)
      next
        case t: False
        have "unat q0 \<le> ?q + 1"
        proof (rule digit_lower[of _ V ?c2])
          show "unat q0 * (V div ?c2) \<le> a div ?c2" using test t by simp
          have "unat q0 * ?c2 \<le> BASE * ?c2" using u64_bound[of q0] by (intro mult_le_mono1) simp
          also have "\<dots> \<le> V"
          proof -
            have "0 < V div ?c1" using vh(1) dv(1) by simp
            then have "?c1 \<le> V" by (simp only: div_greater_zero_iff)
            then show ?thesis unfolding c(1) by (simp only: mult.commute)
          qed
          finally show "unat q0 * ?c2 \<le> 1 * V" by simp
        qed (use dv in simp_all)
        then show ?thesis
          using res t up u64_bound[of q0] by (simp add: digit_estimate_def unat_ucast_up)
      qed
    qed
  qed
qed

section \<open>One digit, and all of them\<close>

lemma top_borrow:
  fixes uh :: u64 and k :: u128
  assumes "unat k < BASE"
  shows "drop_bit 127 (ucast uh - k) \<noteq> 0 \<longleftrightarrow> unat uh < unat k"
    "int (unat (ucast (ucast uh - k) :: u64)) = int (unat uh) - int (unat k) + int BASE * of_bool (unat uh < unat k)"
proof -
  let ?t = "ucast uh - k"
  have u: "unat (ucast uh :: u128) = unat uh" by (simp add: unat_ucast_up)
  have t: "unat ?t = (if unat k \<le> unat uh then unat uh - unat k else unat uh + 2 ^ 128 - unat k)"
    by (simp add: unat_sub_if' u)
  have d: "drop_bit 127 ?t \<noteq> 0 \<longleftrightarrow> 2 ^ 127 \<le> unat ?t"
    by (simp add: drop_bit_eq_div unat_div div_eq_0_iff not_less flip: unat_eq_zero)
  have c: "unat (ucast ?t :: u64) = unat ?t mod BASE"
    by (simp add: unsigned_ucast_eq take_bit_eq_mod BASE_def)
  show "drop_bit 127 ?t \<noteq> 0 \<longleftrightarrow> unat uh < unat k"
    unfolding d t using u64_bound[of uh] assms by (auto simp: BASE_def)
  show "int (unat (ucast ?t :: u64)) = int (unat uh) - int (unat k) + int BASE * of_bool (unat uh < unat k)"
  proof (cases "unat k \<le> unat uh")
    case True
    then show ?thesis unfolding c t using u64_bound[of uh] by simp
  next
    case False
    have "unat uh + 2 ^ 128 - unat k = (BASE + unat uh - unat k) + BASE * (BASE - 1)"
      using assms by (simp add: BASE_def)
    then have "unat ?t = (BASE + unat uh - unat k) + BASE * (BASE - 1)"
      unfolding t using False by simp
    then have "unat ?t mod BASE = (BASE + unat uh - unat k) mod BASE" by (simp only: mod_mult_self2)
    also have "\<dots> = BASE + unat uh - unat k" using False assms by (intro mod_less) linarith
    finally have "unat ?t mod BASE = BASE + unat uh - unat k" .
    then show ?thesis unfolding c using False assms by simp
  qed
qed

lemma window_change:
  assumes "take ix x' = take ix x" "ix \<le> length x" "length x' = length x"
    "int (wval x') = int (wval x) + int (BASE ^ ix) * d"
  shows "int (wval (drop ix x')) = int (wval (drop ix x)) + d"
proof -
  have "int (BASE ^ ix) * int (wval (drop ix x')) = int (BASE ^ ix) * (int (wval (drop ix x)) + d)"
    using assms(4) arg_cong[OF wval_take_drop[of ix x], of int] arg_cong[OF wval_take_drop[of ix x'], of int] assms(1-3)
    by (simp add: distrib_left)
  then show ?thesis by simp
qed

lemma window_bound:
  assumes "wval (drop (ix + n + 1) x) = 0" "ix + n < length x"
  shows "wval (drop ix x) < BASE ^ (n + 1)"
proof -
  have "wval (drop ix x) = wval (take (n + 1) (drop ix x)) + BASE ^ (n + 1) * wval (drop (n + 1) (drop ix x))"
    using assms(2) by (intro wval_take_drop) simp
  then have "wval (drop ix x) = wval (take (n + 1) (drop ix x))" using assms(1) by (simp add: add.commute)
  then show ?thesis using wval_bound[of "take (n + 1) (drop ix x)"] assms(2) by simp
qed

lemma drop_update_above: "i < k \<Longrightarrow> drop k (xs[i := w]) = drop k xs"
  by (simp add: drop_update_swap)

lemma quotient_exact:
  assumes "int a2 = int a - int q * int V" "a div V \<le> q" "0 < V"
  shows "q = a div V \<and> a2 = a mod (V :: nat)"
proof -
  have "a2 + q * V = a" using assms(1) by (metis add_diff_cancel_left' add.commute diff_add_cancel of_nat_add of_nat_eq_iff of_nat_mult)
  then have "q \<le> a div V" using assms(3) by (metis le_add2 less_eq_div_iff_mult_less_eq)
  then have "q = a div V" using assms(2) by simp
  then show ?thesis using \<open>a2 + q * V = a\<close> by (metis add.commute add_diff_cancel_left' minus_div_mult_eq_mod)
qed

lemma wrapped_sum: "int (unat (w + ucast k :: u64)) = int (unat w) + int (unat (k :: u128)) - int BASE * of_bool (BASE \<le> unat w + unat k)"
  if "unat k \<le> 1"
proof -
  have k: "unat (ucast k :: u64) = unat k" using that by (simp add: unsigned_ucast_eq take_bit_eq_mod)
  have m: "unat (w + ucast k) = (unat w + unat k) mod BASE" by (simp only: unat_plus_mod k)
  show ?thesis
  proof (cases "unat w + unat k < BASE")
    case False
    then have "(unat w + unat k) mod BASE = unat w + unat k - BASE"
      using that u64_bound[of w] by (simp add: le_mod_geq)
    then show ?thesis unfolding m using False by (simp add: of_nat_diff)
  qed (simp add: m)
qed

lemma nth_of_drop: "drop k xs = drop k ys \<Longrightarrow> k < length xs \<Longrightarrow> k < length ys \<Longrightarrow> xs ! k = ys ! k"
  by (metis hd_drop_conv_nth)

lemma knuth_step_value:
  assumes v: "divisor_ok n v" and V: "V = wval (take n v)" and u: "ix + n < length u"
    and a: "a = wval (drop ix u)" "a < BASE * V" and quot: "ix < length quot" "quot ! ix = 0"
  shows "\<exists>u'. knuth_step n v ix u quot = Some (u', quot[ix := of_nat (a div V)]) \<and>
    length u' = length u \<and> take ix u' = take ix u \<and> wval (drop ix u') = a mod V"
proof -
  note dv = divisor_digits[OF v V]
  have n: "2 \<le> n" "n \<le> length v" using v by (simp_all add: divisor_ok_def)
  note du = window_digits[OF n(1) u a dv(5)]
  consider (skip) "knuth_q_hat n v ix u = Some None" "a div V = 0"
    | (digit) q where "knuth_q_hat n v ix u = Some (Some q)" "unat q < BASE" "a div V \<le> unat q" "unat q \<le> a div V + 1"
    using knuth_q_hat_value[OF v V u a] unfolding digit_estimate_def by (elim disjE exE conjE) simp_all
  then show ?thesis
  proof cases
    case skip
    then have "a mod V = a" by (metis div_eq_0_iff dv(3) mod_less not_gr_zero)
    moreover have "quot[ix := 0] = quot" using quot(2) by (metis list_update_id)
    ultimately show ?thesis using skip a(1) by (simp add: knuth_step_def)
  next
    case digit
    obtain u1 k where s: "sub_mul_loop q (take n v) ix u 0 = (u1, k)" by fastforce
    have l: "length (take n v) = n" using n by simp
    have s1: "length u1 = length u" "unat k < BASE" "take ix u1 = take ix u" "drop (ix + n) u1 = drop (ix + n) u"
      "int (wval u1) = int (wval u) - int (BASE ^ ix) * (int (unat q) * int V) + int (BASE ^ (ix + n)) * int (unat k)"
      using sub_mul_loop_value[OF s digit(2)] u V l by simp_all
    have top: "u1 ! (ix + n) = u ! (ix + n)"
      using s1(1,4) u by (intro nth_of_drop) simp_all
    let ?t = "ucast (u1 ! (ix + n)) - k"
    define w where "w = (ucast ?t :: u64)"
    define u2 where "u2 = u1[ix + n := w]"
    let ?br = "unat (u ! (ix + n)) < unat k"
    have w: "int (unat w) = int (unat (u ! (ix + n))) - int (unat k) + int BASE * of_bool ?br"
      using top_borrow(2)[OF s1(2), of "u1 ! (ix + n)"] by (simp add: w_def top)
    have "int (wval u2) = int (wval u) + int (BASE ^ ix) * (- (int (unat q) * int V) + int (BASE ^ n) * (int BASE * of_bool ?br))"
      unfolding u2_def using wval_update_int[of "ix + n" u1 w] s1(1,5) u top w
      by (simp add: power_add distrib_left right_diff_distrib)
    then have a2: "int (wval (drop ix u2)) = int a - int (unat q) * int V + int (BASE ^ n) * (int BASE * of_bool ?br)"
      using window_change[of ix u2 u] s1(1,3) u a(1) by (simp add: u2_def take_update_swap list_update_beyond)
    have above: "drop (ix + n + 1) x = drop (ix + n + 1) u" if "drop (ix + n) x = drop (ix + n) u" for x
      using arg_cong[OF that, of "drop 1"] by simp
    have hi2: "wval (drop (ix + n + 1) u2) = 0"
      using above[OF s1(4)] du(4) by (simp add: u2_def drop_update_swap)
    have len2: "length u2 = length u" "take ix u2 = take ix u"
      using s1(1,3) by (simp_all add: u2_def take_update_swap list_update_beyond)
    have test: "drop_bit 127 ?t \<noteq> 0 \<longleftrightarrow> ?br" using top_borrow(1)[OF s1(2)] top by simp
    show ?thesis
    proof (cases ?br)
      case False
      then have "unat q = a div V" "wval (drop ix u2) = a mod V"
        using quotient_exact[of "wval (drop ix u2)" a "unat q" V] a2 digit(3) dv(3) by simp_all
      moreover have "knuth_step n v ix u quot = Some (u2, quot[ix := ucast q])"
        using test False by (simp add: knuth_step_def digit(1) s u2_def w_def Let_def)
      ultimately show ?thesis using len2 by (metis of_nat_unat)
    next
      case True
      obtain u3 k3 where ab: "add_back_loop (take n v) ix u2 0 = (u3, k3)" by fastforce
      have s3: "length u3 = length u" "unat k3 \<le> 1" "take ix u3 = take ix u" "drop (ix + n) u3 = drop (ix + n) u2"
        "int (wval u3) = int (wval u2) + int (BASE ^ ix) * int V - int (BASE ^ (ix + n)) * int (unat k3)"
        using add_back_loop_value[OF ab] u V l len2 by simp_all
      have top3: "u3 ! (ix + n) = w"
        using nth_of_drop[OF s3(4)] s3(1) u s1(1) by (simp add: u2_def)
      define w' where "w' = w + ucast k3"
      define u4 where "u4 = u3[ix + n := w']"
      let ?wrap = "BASE \<le> unat w + unat k3"
      have w': "int (unat w') = int (unat w) + int (unat k3) - int BASE * of_bool ?wrap"
        unfolding w'_def by (rule wrapped_sum[OF s3(2)])
      have len4: "length u4 = length u" "take ix u4 = take ix u"
        using s3(1,3) by (simp_all add: u4_def take_update_swap list_update_beyond)
      have "int (wval u4) = int (wval u2) + int (BASE ^ ix) * (int V - int (BASE ^ n) * (int BASE * of_bool ?wrap))"
        unfolding u4_def using wval_update_int[of "ix + n" u3 w'] s3(1,5) u top3 w'
        by (simp add: power_add distrib_left right_diff_distrib)
      then have "int (wval (drop ix u4)) = int (wval (drop ix u2)) + (int V - int (BASE ^ n) * (int BASE * of_bool ?wrap))"
        using window_change[of ix u4 u2] len4 len2 u by simp
      then have a4: "int (wval (drop ix u4)) =
          int a - int (unat q) * int V + int V + int (BASE ^ (n + 1)) * (1 - of_bool ?wrap)"
        using a2 True by (simp add: right_diff_distrib)
      have b2: "wval (drop ix u2) < BASE ^ (n + 1)" using hi2 u len2 by (intro window_bound) simp_all
      have "drop (ix + n + 1) u4 = drop (ix + n + 1) u2"
        using arg_cong[OF s3(4), of "drop 1"] by (simp add: u4_def drop_update_swap)
      then have b4: "wval (drop ix u4) < BASE ^ (n + 1)" using hi2 u len4 by (intro window_bound) simp_all
      have "int (wval (drop ix u2)) < int (BASE ^ n * BASE)"
        using b2 by (simp only: of_nat_less_iff power_add power_one_right)
      then have "int a < int (unat q * V)" using a2 True by simp
      then have "a div V < unat q" using dv(3) by (simp only: of_nat_less_iff div_less_iff_less_mult)
      then have q: "unat q = a div V + 1" using digit(4) by simp
      have "int a - int (unat q) * int V + int V = int (a mod V)"
        unfolding q by (simp add: distrib_right zmod_int zdiv_int minus_div_mult_eq_mod)
      then have a4': "int (wval (drop ix u4)) = int (a mod V) + int (BASE ^ (n + 1)) * (1 - of_bool ?wrap)"
        using a4 by linarith
      have "wval (drop ix u4) = a mod V"
      proof (cases ?wrap)
        case False
        then have "int (BASE ^ (n + 1)) \<le> int (wval (drop ix u4))" using a4' by simp
        then have "BASE ^ (n + 1) \<le> wval (drop ix u4)" by (simp only: of_nat_le_iff)
        with b4 show ?thesis by linarith
      qed (use a4' in simp)
      moreover have "ucast (q - 1) = (of_nat (a div V) :: u64)"
      proof -
        have "q \<noteq> 0" using q by auto
        then have "unat (q - 1) = a div V" using q by (simp add: unat_minus_one)
        then show ?thesis by (metis of_nat_unat)
      qed
      moreover have "knuth_step n v ix u quot = Some (u4, quot[ix := ucast (q - 1)])"
        using test True ab top3
        by (simp add: knuth_step_def digit(1) s u2_def[symmetric] w_def[symmetric] u4_def w'_def Let_def)
      ultimately show ?thesis using len4 by simp
    qed
  qed
qed

lemma knuth_loop_value:
  assumes "divisor_ok n v" "V = wval (take n v)" "k + n \<le> length u" "wval (drop k u) < V"
    "k \<le> length quot" "\<forall>i < k. quot ! i = 0"
  shows "\<exists>u' quot'. knuth_loop n v k u quot = Some (u', quot') \<and> length u' = length u \<and>
    length quot' = length quot \<and> drop k quot' = drop k quot \<and>
    wval u' = wval u mod V \<and> wval (take k quot') = wval u div V"
  using assms(3-)
proof (induction k arbitrary: u quot)
  case 0
  then show ?case by simp
next
  case (Suc k)
  define a where "a = wval (drop k u)"
  have a: "a = unat (u ! k) + BASE * wval (drop (Suc k) u)"
    unfolding a_def using Suc.prems(1) by (intro wval_drop_step) simp
  have "BASE * (wval (drop (Suc k) u) + 1) \<le> BASE * V" using Suc.prems(2) by (intro mult_le_mono2) simp
  then have "a < BASE * V" using a u64_bound[of "u ! k"] by simp
  then obtain u1 where s: "knuth_step n v k u quot = Some (u1, quot[k := of_nat (a div V)])"
    "length u1 = length u" "take k u1 = take k u" "wval (drop k u1) = a mod V"
    using knuth_step_value[OF assms(1,2), of k u a quot] Suc.prems a_def by auto
  let ?quot = "quot[k := of_nat (a div V)]"
  have V: "0 < V" by (rule divisor_digits(3)[OF assms(1,2)])
  have "wval (drop k u1) < V" using s(4) V by simp
  then obtain u' quot' where r: "knuth_loop n v k u1 ?quot = Some (u', quot')" "length u' = length u1"
    "length quot' = length ?quot" "drop k quot' = drop k ?quot" "wval u' = wval u1 mod V"
    "wval (take k quot') = wval u1 div V"
    using Suc.IH[of u1 ?quot] Suc.prems s(2) by auto
  have "wval u = wval (take k u) + BASE ^ k * a" "wval u1 = wval (take k u) + BASE ^ k * (a mod V)"
    using wval_take_drop[of k u] wval_take_drop[of k u1] s Suc.prems(1) by (simp_all add: a_def)
  moreover have "BASE ^ k * a = BASE ^ k * (a mod V) + (BASE ^ k * (a div V)) * V"
    by (metis distrib_left mod_div_mult_eq mult.assoc)
  ultimately have u: "wval u = wval u1 + (BASE ^ k * (a div V)) * V" by simp
  have "a div V < BASE" using \<open>a < BASE * V\<close> by (simp add: less_mult_imp_div_less)
  then have d: "unat (of_nat (a div V) :: u64) = a div V" by (rule unat_of_nat_BASE)
  have "quot' ! k = ?quot ! k" using nth_of_drop[OF r(4)] r(3) Suc.prems(3) by simp
  then have "wval (take (Suc k) quot') = wval u1 div V + BASE ^ k * (a div V)"
    using wval_take_Suc[of k quot'] r(3,6) Suc.prems(3) d by simp
  moreover have "wval u div V = wval u1 div V + BASE ^ k * (a div V)" "wval u mod V = wval u1 mod V"
    unfolding u using V by simp_all
  moreover have "drop (Suc k) quot' = drop (Suc k) quot"
    using arg_cong[OF r(4), of "drop 1"] by (simp add: drop_update_swap)
  ultimately show ?case using s(1,2) r by simp
qed

section \<open>Division by one word, significant words\<close>

lemma long_div_loop_value:
  assumes "rem < v" "k \<le> length u" "k \<le> length quot"
  shows "\<exists>r quot'. long_div_loop k u v rem quot = Some (r, quot') \<and> r < v \<and> length quot' = length quot \<and>
    drop k quot' = drop k quot \<and>
    BASE ^ k * unat rem + wval (take k u) = wval (take k quot') * unat v + unat r"
  using assms
proof (induction k arbitrary: rem quot)
  case 0
  then show ?case by simp
next
  case (Suc k)
  obtain q r where d: "div_words rem (u ! k) v = (q, r)" by fastforce
  note qr = div_words_unat[OF Suc.prems(1) d]
  have v: "0 < unat v" using Suc.prems(1) by (simp add: word_less_nat_alt)
  have r: "r < v" using qr(2) v by (simp add: word_less_nat_alt)
  obtain r' quot' where i: "long_div_loop k u v r (quot[k := q]) = Some (r', quot')" "r' < v"
    "length quot' = length quot" "drop k quot' = drop k (quot[k := q])"
    "BASE ^ k * unat r + wval (take k u) = wval (take k quot') * unat v + unat r'"
    using Suc.IH[OF r, of "quot[k := q]"] Suc.prems by auto
  have "quot' ! k = q" using nth_of_drop[OF i(4)] i(3) Suc.prems(3) by simp
  then have q: "wval (take (Suc k) quot') = wval (take k quot') + BASE ^ k * unat q"
    using wval_take_Suc[of k quot'] i(3) Suc.prems(3) by simp
  have "unat (u ! k) + BASE * unat rem = unat q * unat v + unat r" unfolding qr by simp
  then have "BASE ^ k * (unat (u ! k) + BASE * unat rem) = BASE ^ k * (unat q * unat v + unat r)" by simp
  then have "BASE ^ Suc k * unat rem + wval (take (Suc k) u) = wval (take (Suc k) quot') * unat v + unat r'"
    using i(5) wval_take_Suc[of k u] Suc.prems(2) unfolding q by (simp add: distrib_left distrib_right mult.assoc mult.left_commute)
  moreover have "drop (Suc k) quot' = drop (Suc k) quot"
    using arg_cong[OF i(4), of "drop 1"] by (simp add: drop_update_swap)
  ultimately show ?case using i Suc.prems(1) d by (simp add: div_checked_def)
qed

lemma long_div_value:
  assumes "0 < m" "v \<noteq> 0" "m \<le> length u" "m \<le> length quot"
  shows "\<exists>r quot'. long_div m u v quot = Some (r, quot') \<and> length quot' = length quot \<and>
    drop m quot' = drop m quot \<and> wval (take m quot') = wval (take m u) div unat v \<and> unat r = wval (take m u) mod unat v"
proof -
  have v: "0 < v" using assms(2) by (simp add: word_neq_0_conv)
  have e: "long_div m u v quot = long_div_loop m u v 0 quot"
    using assms(1,2) by (cases m) (auto simp: long_div_def split: option.split)
  obtain r quot' where l: "long_div_loop m u v 0 quot = Some (r, quot')" "r < v" "length quot' = length quot"
    "drop m quot' = drop m quot" "wval (take m u) = wval (take m quot') * unat v + unat r"
    using long_div_loop_value[OF v assms(3,4)] by auto
  have "unat r < unat v" using l(2) by (simp add: word_less_nat_alt)
  then show ?thesis using e l by simp
qed

lemma count_significant_words_upto_props:
  assumes "k \<le> length x"
  shows "count_significant_words_upto x k \<le> k"
    "wval (take k x) = wval (take (count_significant_words_upto x k) x)"
    "0 < count_significant_words_upto x k \<Longrightarrow> x ! (count_significant_words_upto x k - 1) \<noteq> 0"
  using assms
proof (induction k)
  case (Suc k)
  {
    case 1
    then show ?case using Suc.IH(1) by auto
  next
    case 2
    then show ?case using Suc.IH(2) wval_take_Suc[of k x] by simp
  next
    case 3
    then show ?case using Suc.IH(3) by (auto split: if_splits)
  }
qed simp_all

lemma count_significant_words_props:
  assumes "n = count_significant_words x"
  shows "n \<le> length x" "wval (take n x) = wval x" "wval x < BASE ^ n"
    "0 < n \<Longrightarrow> x ! (n - 1) \<noteq> 0" "0 < n \<Longrightarrow> BASE ^ (n - 1) \<le> wval x" "n = 0 \<longleftrightarrow> wval x = 0"
proof -
  show l: "n \<le> length x" and t: "wval (take n x) = wval x" and nz: "0 < n \<Longrightarrow> x ! (n - 1) \<noteq> 0"
    using count_significant_words_upto_props[of "length x" x] assms by (simp_all add: count_significant_words_def)
  show "wval x < BASE ^ n" using wval_bound[of "take n x"] l t by simp
  have le: "BASE ^ (n - 1) \<le> wval x" if "0 < n"
  proof -
    have "wval (take n x) = wval (take (n - 1) x) + BASE ^ (n - 1) * unat (x ! (n - 1))"
      using wval_take_Suc[of "n - 1" x] l that by simp
    moreover have "0 < unat (x ! (n - 1))" using nz[OF that] by (simp add: unat_gt_0)
    then have "BASE ^ (n - 1) * 1 \<le> BASE ^ (n - 1) * unat (x ! (n - 1))" by (intro mult_le_mono2) simp
    ultimately show ?thesis using t by linarith
  qed
  then show "0 < n \<Longrightarrow> BASE ^ (n - 1) \<le> wval x" .
  show "n = 0 \<longleftrightarrow> wval x = 0"
  proof
    assume "wval x = 0"
    then show "n = 0" using le by (cases "n = 0") auto
  qed (use t in simp)
qed

lemma countl_zero64_value:
  assumes "x \<noteq> 0" "s = countl_zero64 x"
  shows "s < 64" "BASE \<le> 2 * (unat x * 2 ^ s)" "unat x * 2 ^ s < BASE"
proof -
  let ?P = "\<lambda>i. \<not> bit x i" and ?xs = "rev [0..<64]"
  have len: "length ?xs = 64" by simp
  obtain i where i: "bit x i" "i < 64" 
  proof (rule ccontr)
    assume "\<not> thesis"
    then have "x = 0" using that by (intro bit_word_eqI) auto
    with assms(1) show False ..
  qed
  have "s \<noteq> 64"
  proof
    assume "s = 64"
    then have "takeWhile ?P ?xs = ?xs"
      using assms(2) len by (metis countl_zero64_def takeWhile_eq_take take_all_iff order_refl)
    then show False using i by (metis (no_types, lifting) atLeastLessThan_iff set_rev set_upt set_takeWhileD zero_le)
  qed
  moreover have "s \<le> 64" using assms(2) length_takeWhile_le[of ?P ?xs] len by (simp add: countl_zero64_def)
  ultimately show s: "s < 64" by simp
  have nth: "?xs ! j = 63 - j" if "j < 64" for j using that by (simp add: rev_nth)
  have set: "bit x (63 - s)"
    using nth_length_takeWhile[of ?P ?xs] s assms(2) nth[of s] by (simp add: countl_zero64_def)
  have clear: "\<not> bit x (63 - j)" if "j < s" for j
  proof -
    have "takeWhile ?P ?xs ! j \<in> set (takeWhile ?P ?xs)" using that assms(2) by (simp add: countl_zero64_def)
    then have "?P (takeWhile ?P ?xs ! j)" by (rule set_takeWhileD[THEN conjunct2])
    then show ?thesis using takeWhile_nth[of j ?P ?xs] that assms(2) s nth[of j] by (simp add: countl_zero64_def)
  qed
  have "odd (unat x div 2 ^ (63 - s))" using set by (simp add: bit_unsigned_iff flip: bit_iff_odd)
  then have "2 ^ (63 - s) \<le> unat x" by (metis div_less even_zero not_less)
  then have "2 ^ (63 - s) * 2 ^ s \<le> unat x * 2 ^ s" by (rule mult_le_mono1)
  moreover have "(2 :: nat) ^ (63 - s) * 2 ^ s = 2 ^ 63" using s by (simp flip: power_add)
  ultimately show "BASE \<le> 2 * (unat x * 2 ^ s)" by (simp add: BASE_def)
  have "take_bit (64 - s) x = x"
  proof (rule bit_word_eqI)
    fix i assume "i < LENGTH(64)"
    then show "bit (take_bit (64 - s) x) i = bit x i"
      using clear[of "63 - i"] s by (cases "i < 64 - s") (simp_all add: bit_take_bit_iff)
  qed
  then have "unat x = unat x mod 2 ^ (64 - s)" by (metis take_bit_eq_mod unsigned_take_bit_eq)
  then have "unat x < 2 ^ (64 - s)" by (metis mod_less_divisor zero_less_numeral zero_less_power)
  then have "unat x * 2 ^ s < 2 ^ (64 - s) * 2 ^ s" by simp
  moreover have "(2 :: nat) ^ (64 - s) * 2 ^ s = BASE" using s by (simp add: BASE_def flip: power_add)
  ultimately show "unat x * 2 ^ s < BASE" by simp
qed

section \<open>Normalisation\<close>

lemma split_base: "s < 64 \<Longrightarrow> BASE = 2 ^ s * 2 ^ (64 - s)"
  by (simp add: BASE_def flip: power_add)

lemma unat_push_bit_64: "s < 64 \<Longrightarrow> unat (push_bit s (w :: u64)) = 2 ^ s * (unat w mod 2 ^ (64 - s))"
proof -
  assume s: "s < 64"
  have "unat (push_bit s w) = (2 ^ s * unat w) mod (2 ^ s * 2 ^ (64 - s))"
    unfolding unsigned_push_bit_eq using split_base[OF s] by (simp add: push_bit_eq_mult take_bit_eq_mod BASE_def mult.commute)
  then show ?thesis by (simp only: mult_mod_right)
qed

lemma unat_drop_bit_64: "unat (drop_bit n (w :: u64)) = unat w div 2 ^ n"
  unfolding unsigned_drop_bit_eq using u64_bound[of w] by (simp add: drop_bit_eq_div take_bit_eq_mod BASE_def)

lemma shld_value:
  assumes "s < 64"
  shows "unat (shld h l s) = 2 ^ s * (unat h mod 2 ^ (64 - s)) + unat l div 2 ^ (64 - s)"
proof -
  have sub: "Suc (63 - s) = 64 - s" using assms by simp
  let ?a = "push_bit s h" and ?b = "drop_bit (64 - s) l"
  have b: "drop_bit (63 - s) (drop_bit 1 l) = ?b" using assms by (simp add: drop_bit_drop_bit sub del: drop_bit_Suc)
  have "?a OR ?b = ?a + ?b"
  proof (rule disjunctive_add[symmetric])
    fix n
    show "\<not> bit ?a n \<or> \<not> bit ?b n"
      using assms bit_imp_le_length[of l "64 - s + n"] by (auto simp: bit_push_bit_iff bit_drop_bit_eq)
  qed
  then have e: "shld h l s = ?a + ?b" unfolding shld_def b .
  have bd: "unat ?b = unat l div 2 ^ (64 - s)" by (rule unat_drop_bit_64)
  have "unat l < 2 ^ s * 2 ^ (64 - s)" using u64_bound[of l] split_base[OF assms] by simp
  then have "unat l div 2 ^ (64 - s) < 2 ^ s" by (rule less_mult_imp_div_less)
  then have "unat l div 2 ^ (64 - s) + 2 ^ s * (unat h mod 2 ^ (64 - s)) < 2 ^ s * 2 ^ (64 - s)"
    by (intro digit_less) simp_all
  then have "unat ?a + unat ?b < BASE"
    unfolding unat_push_bit_64[OF assms] bd split_base[OF assms] by simp
  then show ?thesis
    unfolding e unat_plus_mod by (simp only: mod_less unat_push_bit_64[OF assms] bd)
qed

lemma shrd_value:
  assumes "s < 64"
  shows "unat (shrd h l s) = unat l div 2 ^ s + 2 ^ (64 - s) * (unat h mod 2 ^ s)"
proof -
  have sub: "Suc (63 - s) = 64 - s" using assms by simp
  let ?a = "push_bit (64 - s) h" and ?b = "drop_bit s l"
  have a: "push_bit (63 - s) (push_bit 1 h) = ?a" using assms by (simp add: push_bit_push_bit sub del: push_bit_Suc)
  have "?b OR ?a = ?b + ?a"
  proof (rule disjunctive_add[symmetric])
    fix n
    show "\<not> bit ?b n \<or> \<not> bit ?a n"
      using assms bit_imp_le_length[of l "s + n"] by (auto simp: bit_push_bit_iff bit_drop_bit_eq)
  qed
  then have e: "shrd h l s = ?b + ?a" unfolding shrd_def a .
  have bd: "unat ?b = unat l div 2 ^ s" by (rule unat_drop_bit_64)
  have ad: "unat ?a = 2 ^ (64 - s) * (unat h mod 2 ^ s)"
  proof (cases "s = 0")
    case True
    then show ?thesis using bit_imp_le_length[of "?a"] by (auto simp: unat_eq_zero intro!: bit_word_eqI simp: bit_push_bit_iff)
  next
    case False
    then show ?thesis using unat_push_bit_64[of "64 - s" h] assms by simp
  qed
  have "unat l < 2 ^ (64 - s) * 2 ^ s" using u64_bound[of l] split_base[OF assms] by (simp add: mult.commute)
  then have "unat l div 2 ^ s < 2 ^ (64 - s)" by (rule less_mult_imp_div_less)
  then have "unat l div 2 ^ s + 2 ^ (64 - s) * (unat h mod 2 ^ s) < 2 ^ (64 - s) * 2 ^ s"
    by (intro digit_less) simp_all
  then have "unat ?b + unat ?a < BASE" unfolding ad bd split_base[OF assms] by (simp add: mult.commute)
  then show ?thesis unfolding e unat_plus_mod by (simp only: mod_less ad bd)
qed

lemma shift_tail_value:
  assumes "s < 64"
  shows "wval (map2 (\<lambda>h l. shld h l s) xs (x # xs)) + BASE ^ length xs * (unat (last (x # xs)) div 2 ^ (64 - s)) =
    2 ^ s * wval xs + unat x div 2 ^ (64 - s)"
proof (induction xs arbitrary: x)
  case (Cons y ys)
  let ?D = "2 ^ (64 - s) :: nat" and ?S = "2 ^ s :: nat"
  have "BASE * (wval (map2 (\<lambda>h l. shld h l s) ys (y # ys)) + BASE ^ length ys * (unat (last (y # ys)) div ?D)) =
      BASE * (?S * wval ys + unat y div ?D)"
    using Cons.IH[of y] by simp
  moreover have "?S * unat y = ?S * (unat y mod ?D) + BASE * (unat y div ?D)"
    unfolding split_base[OF assms] by (metis distrib_left mod_mult_div_eq mult.assoc)
  ultimately show ?case
    by (simp add: shld_value[OF assms] distrib_left mult.assoc mult.left_commute)
qed simp

lemma shift_words_Cons: "shift_words s (x # xs) = push_bit s x # map2 (\<lambda>h l. shld h l s) xs (x # xs)"
proof -
  have "map (\<lambda>i. shld ((x # xs) ! i) ((x # xs) ! (i - 1)) s) [1..<length (x # xs)] = map2 (\<lambda>h l. shld h l s) xs (x # xs)"
    by (rule nth_equalityI) (simp_all del: upt_Suc)
  then show ?thesis by (simp add: shift_words_def)
qed

lemma shift_words_value:
  assumes "s < 64" "u \<noteq> []"
  shows "wval (shift_words s u) + BASE ^ length u * (unat (last u) div 2 ^ (64 - s)) = 2 ^ s * wval u"
proof -
  obtain x xs where u: "u = x # xs" using assms(2) by (cases u) auto
  let ?D = "2 ^ (64 - s) :: nat" and ?S = "2 ^ s :: nat"
  have "BASE * (wval (map2 (\<lambda>h l. shld h l s) xs (x # xs)) + BASE ^ length xs * (unat (last (x # xs)) div ?D)) =
      BASE * (?S * wval xs + unat x div ?D)"
    using shift_tail_value[OF assms(1)] by simp
  moreover have "?S * unat x = ?S * (unat x mod ?D) + BASE * (unat x div ?D)"
    unfolding split_base[OF assms(1)] by (metis distrib_left mod_mult_div_eq mult.assoc)
  ultimately show ?thesis
    unfolding u shift_words_Cons by (simp add: unat_push_bit_64[OF assms(1)] distrib_left mult.assoc mult.left_commute)
qed

lemma length_shift_words [simp]: "u \<noteq> [] \<Longrightarrow> length (shift_words s u) = length u"
  by (simp add: shift_words_def Suc_leI)

lemma unshift_value:
  assumes "s < 64" "x \<noteq> []"
  shows "wval (map (\<lambda>i. shrd (x ! (i + 1)) (x ! i) s) [0..<length x - 1] @ [drop_bit s (last x)]) = wval x div 2 ^ s"
  using assms(2)
proof (induction x)
  case (Cons a xs)
  show ?case
  proof (cases xs)
    case Nil
    then show ?thesis by (simp add: unat_drop_bit_64)
  next
    case xs: (Cons b ys)
    let ?f = "\<lambda>x. map (\<lambda>i. shrd (x ! (i + 1)) (x ! i) s) [0..<length x - 1] @ [drop_bit s (last x)]"
    let ?D = "2 ^ (64 - s) :: nat" and ?S = "2 ^ s :: nat" and ?W = "wval xs"
    have f: "?f (a # xs) = shrd (xs ! 0) a s # ?f xs"
      using xs by (simp add: upt_conv_Cons map_Suc_upt[symmetric] del: upt_Suc)
    have W: "unat (xs ! 0) mod ?S = ?W mod ?S"
      using xs by (simp add: split_base[OF assms(1)] mult.assoc)
    have ih: "wval (?f xs) = ?W div ?S" using Cons.IH xs by simp
    have "wval (?f (a # xs)) = unat a div ?S + ?D * (?W mod ?S) + BASE * (?W div ?S)"
      unfolding f wval.simps shrd_value[OF assms(1)] W ih by simp
    moreover have "?D * (?W mod ?S + ?S * (?W div ?S)) = ?D * ?W" by simp
    then have "?D * (?W mod ?S) + BASE * (?W div ?S) = ?D * ?W"
      unfolding split_base[OF assms(1)] by (simp only: distrib_left mult.assoc mult.left_commute)
    moreover have "(unat a + BASE * ?W) div ?S = unat a div ?S + ?D * ?W"
      unfolding split_base[OF assms(1)] mult.assoc by simp
    ultimately show ?thesis by (simp only: wval.simps add.assoc)
  qed
qed simp

section \<open>The whole division\<close>

lemma Suc_0_le_BASE [simp]: "Suc 0 \<le> BASE"
  by (simp add: Suc_leI)

lemma top_bit_set: "BASE \<le> 2 * unat (w :: u64) \<Longrightarrow> w AND push_bit 63 1 \<noteq> 0"
proof -
  assume "BASE \<le> 2 * unat w"
  then have "unat w div 2 ^ 63 = 1" using u64_bound[of w] by (simp add: BASE_def div_nat_eqI)
  then have "bit (unat w) 63" by (simp add: bit_iff_odd)
  then have "bit w 63" by (simp add: bit_unsigned_iff)
  then have "bit (w AND push_bit 63 1) 63" by (simp add: bit_and_iff bit_push_bit_iff)
  then show ?thesis by auto
qed

lemma wval_zero: "wval xs = 0 \<Longrightarrow> \<forall>w \<in> set xs. w = 0"
  by (induction xs) (simp_all add: unat_eq_zero)

lemma divisor_normalised:
  assumes n: "n = count_significant_words v" "2 \<le> n" and s: "s = countl_zero64 (v ! (n - 1))"
  shows "s < 64" "divisor_ok n (shift_words s v)" "wval (take n (shift_words s v)) = 2 ^ s * wval v"
proof -
  note cv = count_significant_words_props[OF n(1)]
  have vh: "v ! (n - 1) \<noteq> 0" using cv(4) n(2) by simp
  note cz = countl_zero64_value[OF vh s]
  show s64: "s < 64" by (rule cz(1))
  let ?D = "2 ^ (64 - s) :: nat" and ?S = "2 ^ s :: nat"
  have small: "unat (v ! (n - 1)) < ?D" using cz(3)[unfolded split_base[OF s64]] by (simp add: mult.commute)
  have ne: "v \<noteq> []" "length v - 1 < length v" using cv(1) n(2) by auto
  have len: "n \<le> length (shift_words s v)" using cv(1) ne by simp
  have nth: "shift_words s v ! (n - 1) = shld (v ! (n - 1)) (v ! (n - 2)) s"
  proof -
    obtain k where k: "n = Suc (Suc k)" using n(2) by (metis add_2_eq_Suc le_Suc_ex)
    then have "[1..<length v] ! k = Suc k" using cv(1) by (subst nth_upt) simp_all
    then show ?thesis using cv(1) k by (simp add: shift_words_def Suc_le_eq del: upt_Suc)
  qed
  have "?S * unat (v ! (n - 1)) \<le> unat (shift_words s v ! (n - 1))"
    unfolding nth shld_value[OF s64] using small by simp
  then have "BASE \<le> 2 * unat (shift_words s v ! (n - 1))" using cz(2) by (simp add: mult.commute)
  then show "divisor_ok n (shift_words s v)" using len n(2) by (simp add: divisor_ok_def)
  have "unat (last v) div ?D = 0"
  proof (cases "n = length v")
    case True
    then show ?thesis using small ne by (simp add: last_conv_nth)
  next
    case False
    have "wval (drop n v) = 0" using cv(1,2) wval_take_drop[of n v] by simp
    then have "\<forall>w \<in> set (drop n v). w = 0" by (rule wval_zero)
    then have "last v = 0" using False cv(1) by (metis last_drop last_in_set le_neq_implies_less drop_eq_Nil not_le)
    then show ?thesis by simp
  qed
  then have w: "wval (shift_words s v) = ?S * wval v"
    using shift_words_value[OF s64 ne(1)] by simp
  have "wval v < BASE ^ (n - 1) * ?D"
  proof -
    have "wval v = wval (take (n - 1) v) + BASE ^ (n - 1) * unat (v ! (n - 1))"
      using cv(1,2) wval_take_Suc[of "n - 1" v] n(2) by simp
    then show ?thesis using wval_take_less[of "n - 1" v] cv(1) small by (metis digit_less diff_le_self le_trans)
  qed
  then have "?S * wval v < ?S * (BASE ^ (n - 1) * ?D)" by simp
  also have "\<dots> = BASE ^ n"
  proof -
    have "?S * (BASE ^ (n - 1) * ?D) = BASE ^ (n - 1) * BASE"
      unfolding split_base[OF s64] by (simp only: mult.left_commute)
    moreover have "BASE ^ (n - 1) * BASE = BASE ^ n" by (rule power_minus_mult) (use n(2) in simp)
    ultimately show ?thesis by (rule trans)
  qed
  finally show "wval (take n (shift_words s v)) = ?S * wval v"
    using wval_take[OF len] w by simp
qed

lemma udivrem_short:
  assumes m: "m = count_significant_words u" and n: "n = count_significant_words v" and "m < n" "length v \<le> length u"
  shows "wval u div wval v = 0" "wval u mod wval v = wval u" "wval (take (length v) u) = wval u"
proof -
  note cu = count_significant_words_props[OF m] and cv = count_significant_words_props[OF n]
  have "BASE ^ m \<le> BASE ^ (n - 1)" using assms(3) by (intro power_increasing) simp_all
  then have less: "wval u < wval v" using cu(3) cv(5) assms(3) by linarith
  then show "wval u div wval v = 0" "wval u mod wval v = wval u" by simp_all
  have "BASE ^ m \<le> BASE ^ length v" using assms(3) cv(1) by (intro power_increasing) simp_all
  then have "wval u < BASE ^ length v" using cu(3) by linarith
  then show "wval (take (length v) u) = wval u" using wval_take[OF assms(4)] by simp
qed

lemma one_word: "count_significant_words x = 1 \<Longrightarrow> wval x = unat (x ! 0) \<and> x ! 0 \<noteq> 0 \<and> x \<noteq> []"
  using count_significant_words_props[of 1 x] wval_take_Suc[of 0 x] by (cases x) simp_all

lemma wval_word: "0 < n \<Longrightarrow> wval ((replicate n 0)[0 := w]) = unat w"
  by (cases n) simp_all

lemma udivrem_long:
  assumes m: "m = count_significant_words u" and n: "count_significant_words v = 1" and "0 < m" "0 < length v"
  shows "\<exists>r quot. long_div m u (v ! 0) (replicate (length u) 0) = Some (r, quot) \<and> length quot = length u \<and>
    wval quot = wval u div wval v \<and> unat r = wval u mod wval v"
proof -
  note cu = count_significant_words_props[OF m]
  have v: "wval v = unat (v ! 0)" "v ! 0 \<noteq> 0" using one_word[OF n] by simp_all
  obtain r quot where l: "long_div m u (v ! 0) (replicate (length u) 0) = Some (r, quot)" "length quot = length u"
    "drop m quot = drop m (replicate (length u) 0)" "wval (take m quot) = wval u div wval v" "unat r = wval u mod wval v"
    using long_div_value[OF assms(3) v(2) cu(1), of "replicate (length u) 0"] cu(1,2) v(1) by auto
  have "wval quot = wval (take m quot) + BASE ^ m * wval (drop m quot)" using cu(1) l(2) by (intro wval_take_drop) simp
  then have "wval quot = wval (take m quot)" using l(3) by (simp add: drop_replicate)
  then show ?thesis using l by simp
qed

lemma udivrem_knuth:
  assumes m: "m = count_significant_words u" and n: "n = count_significant_words v" and le: "n \<le> m" "2 \<le> n" "length v \<le> length u"
    and s: "s = countl_zero64 (v ! (n - 1))"
    and u_norm: "u_norm = shift_words s u @ [drop_bit (63 - s) (drop_bit 1 (u ! (length u - 1)))]"
  shows "\<exists>u' quot. knuth_div m u_norm n (shift_words s v) (replicate (length u) 0) = Some (u', quot) \<and>
    length u' = length u + 1 \<and> length quot = length u \<and>
    wval quot = wval u div wval v \<and> wval (take (length v) u') = 2 ^ s * (wval u mod wval v)"
proof -
  note cu = count_significant_words_props[OF m] and cv = count_significant_words_props[OF n]
  note nv = divisor_normalised[OF n le(2) s]
  let ?S = "2 ^ s :: nat" and ?V = "wval (take n (shift_words s v))" and ?k = "m - n + 1"
  have ne: "u \<noteq> []" using cu(1) le by auto
  have "drop_bit (63 - s) (drop_bit 1 (u ! (length u - 1))) = drop_bit (64 - s) (last u)"
    using nv(1) ne by (simp add: last_conv_nth drop_bit_drop_bit flip: Suc_diff_le)
  then have w: "wval u_norm = ?S * wval u"
    using shift_words_value[OF nv(1) ne] ne by (simp add: u_norm wval_snoc unat_drop_bit_64)
  have len: "length u_norm = length u + 1" using ne by (simp add: u_norm)
  have k: "?k + n \<le> length u_norm" "?k \<le> length u" "?k + (n - 1) = m" using cu(1) le len by simp_all
  have "wval (drop ?k u_norm) < ?V"
  proof -
    have "?S * wval u < ?S * BASE ^ m" using cu(3) by simp
    also have "BASE ^ m = BASE ^ (n - 1) * BASE ^ ?k" using k(3) by (metis power_add add.commute)
    finally have "?S * wval u div BASE ^ ?k < ?S * BASE ^ (n - 1)"
      by (intro less_mult_imp_div_less) (simp add: mult.assoc)
    also have "\<dots> \<le> ?V" using nv(3) cv(5) le by simp
    finally show ?thesis using wval_drop[of ?k u_norm] w k(1) by simp
  qed
  note start = this
  have "?k \<le> length (replicate (length u) 0 :: words)" "\<forall>i < ?k. (replicate (length u) 0 :: words) ! i = 0"
    using k(2) by simp_all
  from knuth_loop_value[OF nv(2) refl k(1) start this]
  obtain u' quot where l: "knuth_loop n (shift_words s v) ?k u_norm (replicate (length u) 0) = Some (u', quot)"
    "length u' = length u + 1" "length quot = length u" "drop ?k quot = drop ?k (replicate (length u) 0)"
    "wval u' = wval u_norm mod ?V" "wval (take ?k quot) = wval u_norm div ?V"
    using len by (elim exE conjE) simp
  have "knuth_div m u_norm n (shift_words s v) (replicate (length u) 0) = Some (u', quot)"
    using l(1) le nv(2) top_bit_set by (simp add: knuth_div_def divisor_ok_def)
  moreover have "wval quot = wval u div wval v"
  proof -
    have "wval quot = wval (take ?k quot) + BASE ^ ?k * wval (drop ?k quot)" using k(2) l(3) by (intro wval_take_drop) simp
    then show ?thesis using l(4,6) w nv(3) by (simp add: drop_replicate)
  qed
  moreover have "wval (take (length v) u') = ?S * (wval u mod wval v)"
  proof -
    have u': "wval u' = ?S * (wval u mod wval v)" unfolding l(5) w nv(3) by (rule mult_mod_right[symmetric])
    have "0 < ?V" by (rule divisor_digits(3)[OF nv(2) refl])
    then have "wval u' < ?V" unfolding l(5) by (rule mod_less_divisor)
    also have "?V < BASE ^ n" by (rule divisor_digits(5)[OF nv(2) refl])
    also have "BASE ^ n \<le> BASE ^ length v" using cv(1) by (intro power_increasing) simp_all
    finally have "wval u' mod BASE ^ length v = wval u'" by (rule mod_less)
    moreover have "length v \<le> length u'" using le(3) l(2) by simp
    ultimately show ?thesis using wval_take u' by simp
  qed
  ultimately show ?thesis using l(2,3) by blast
qed

lemma udivrem_value:
  assumes "0 < length v" "length v \<le> length u" "wval v \<noteq> 0"
  shows "\<exists>quot rem. udivrem u v = Some (quot, rem) \<and> length quot = length u \<and> length rem = length v \<and>
    wval quot = wval u div wval v \<and> wval rem = wval u mod wval v"
proof -
  define m where "m = count_significant_words u"
  define n where "n = count_significant_words v"
  note cu = count_significant_words_props[OF m_def] and cv = count_significant_words_props[OF n_def]
  have n: "n \<noteq> 0" using cv(6) assms(3) by simp
  have lu: "0 < length u" using assms(1,2) by linarith
  consider (short) "m < n" | (word) "n \<le> m" "m = 1" | (long) "n \<le> m" "m \<noteq> 1" "n = 1" | (knuth) "n \<le> m" "m \<noteq> 1" "n \<noteq> 1"
    by linarith
  then show ?thesis
  proof cases
    case short
    then show ?thesis
      using udivrem_short[OF m_def n_def short assms(2)] n assms(2)
      by (simp add: udivrem_def Let_def m_def n_def)
  next
    case word
    then have n1: "n = 1" using n by simp
    have u: "wval u = unat (u ! 0)" and v: "wval v = unat (v ! 0)" "v ! 0 \<noteq> 0"
      using one_word[of u] one_word[of v] word n1 by (simp_all add: m_def n_def)
    have less: "0 < v ! 0" using v(2) by (simp add: word_neq_0_conv)
    obtain q r where d: "div_words 0 (u ! 0) (v ! 0) = (q, r)" by fastforce
    have "udivrem u v = Some ((replicate (length u) 0)[0 := q], (replicate (length v) 0)[0 := r])"
      using word n1 less d by (simp add: udivrem_def Let_def div_checked_def m_def[symmetric] n_def[symmetric])
    then show ?thesis
      using div_words_unat[OF less d] u v(1) assms(1) lu by (simp add: wval_word)
  next
    case long
    have "0 < m" using long by simp
    from udivrem_long[OF m_def long(3)[unfolded n_def] this assms(1)]
    obtain r quot where l: "long_div m u (v ! 0) (replicate (length u) 0) = Some (r, quot)" "length quot = length u"
      "wval quot = wval u div wval v" "unat r = wval u mod wval v"
      by (elim exE conjE)
    have "udivrem u v = Some (quot, (replicate (length v) 0)[0 := r])"
      using long l(1) by (simp add: udivrem_def Let_def m_def[symmetric] n_def[symmetric])
    then show ?thesis using l assms(1) by (simp add: wval_word)
  next
    case knuth
    define s where "s = countl_zero64 (v ! (n - 1))"
    have n2: "2 \<le> n" using knuth n by linarith
    from udivrem_knuth[OF m_def n_def knuth(1) n2 assms(2) s_def refl]
    obtain u' quot where l: "knuth_div m (shift_words s u @ [drop_bit (63 - s) (drop_bit 1 (u ! (length u - 1)))]) n
        (shift_words s v) (replicate (length u) 0) = Some (u', quot)"
      "length u' = length u + 1" "length quot = length u" "wval quot = wval u div wval v"
      "wval (take (length v) u') = 2 ^ s * (wval u mod wval v)"
      by (elim exE conjE)
    let ?t = "take (length v) u'"
    have t: "?t \<noteq> []" "length ?t = length v" using assms(1,2) l(2) by auto
    define rem where "rem = map (\<lambda>i. shrd (?t ! (i + 1)) (?t ! i) s) [0..<length ?t - 1] @ [drop_bit s (last ?t)]"
    have "map (\<lambda>i. shrd (u' ! (i + 1)) (u' ! i) s) [0..<length v - 1] @ [drop_bit s (u' ! (length v - 1))] = rem"
      using t assms(1) by (simp add: rem_def last_conv_nth del: length_take)
    moreover have "udivrem u v = Some (quot, map (\<lambda>i. shrd (u' ! (i + 1)) (u' ! i) s) [0..<length v - 1] @
        [drop_bit s (u' ! (length v - 1))])"
      unfolding udivrem_def Let_def m_def[symmetric] n_def[symmetric] s_def[symmetric] l(1) using n knuth by simp
    moreover have "wval rem = wval u mod wval v"
      using unshift_value[OF divisor_normalised(1)[OF n_def n2 s_def] t(1)] l(5) by (simp add: rem_def)
    moreover have "length rem = length v" using t assms(1) by (simp add: rem_def del: length_take)
    ultimately show ?thesis using l(3,4) by simp
  qed
qed

text \<open>
  C26: Division is exact: for operands of any admitted lengths, \<open>udivrem\<close> aborts exactly for a zero
  divisor and otherwise returns, without reaching a debug assertion or a division fault, the quotient
  and the remainder of the values of its operands, in as many words as the operands have.
\<close>
theorem udivrem_correct:
  assumes "0 < length v" "length v \<le> length u"
  shows "case udivrem u v of
      None \<Rightarrow> wval v = 0
    | Some (quot, rem) \<Rightarrow> wval v \<noteq> 0 \<and> length quot = length u \<and> length rem = length v \<and>
        wval u = wval quot * wval v + wval rem \<and> wval rem < wval v"
proof (cases "wval v = 0")
  case True
  then have "count_significant_words v = 0" using count_significant_words_props(6)[OF refl, of v] by simp
  then show ?thesis using True by (simp add: udivrem_def)
next
  case False
  then show ?thesis using udivrem_value[OF assms] by auto
qed

theorem udivrem_correct_witness:
  "case udivrem [5, 7, 9] [3, 1] of
      None \<Rightarrow> wval [3, 1] = 0
    | Some (quot, rem) \<Rightarrow> wval [3, 1] \<noteq> 0 \<and> length quot = length [5 :: u64, 7, 9] \<and> length rem = length [3 :: u64, 1] \<and>
        wval [5, 7, 9] = wval quot * wval [3, 1] + wval rem \<and> wval rem < wval [3, 1]"
  by (rule udivrem_correct) simp_all

end
