(* ===== verification/Uint256_Arith.thy ===== *)
theory Uint256_Arith
  imports Uint256_Div "HOL-Library.Signed_Division"
begin

unbundle bit_operations_syntax

text \<open>
  The 256-bit operations built on multiplication and division: modular addition with its fast path,
  modular multiplication, signed division, signed comparison, left shift and exponentiation. Each
  is related to the arithmetic of 256-bit machine words.
\<close>

section \<open>Definitions\<close>

definition uint256_shl :: "words \<Rightarrow> u64 \<Rightarrow> words" where
  "uint256_shl x shift0 =
     (if 256 \<le> shift0 then [0, 0, 0, 0]
      else
        let shift = unat shift0
        in if shift < 128 then
             if shift < 64 then
               [push_bit shift (x ! 0), shld (x ! 1) (x ! 0) shift,
                shld (x ! 2) (x ! 1) shift, shld (x ! 3) (x ! 2) shift]
             else let shift = shift mod 64 in
               [0, push_bit shift (x ! 0), shld (x ! 1) (x ! 0) shift, shld (x ! 2) (x ! 1) shift]
           else if shift < 192 then let shift = shift mod 128 in
             [0, 0, push_bit shift (x ! 0), shld (x ! 1) (x ! 0) shift]
           else let shift = shift mod 64 in
             [0, 0, 0, push_bit shift (x ! 0)])"

definition uint256_shl256 :: "words \<Rightarrow> words \<Rightarrow> words" where
  "uint256_shl256 x shift =
     (if shift ! 3 OR shift ! 2 OR shift ! 1 \<noteq> 0 then [0, 0, 0, 0] else uint256_shl x (shift ! 0))"

definition addmod_sum :: "words \<Rightarrow> words \<Rightarrow> words" where
  "addmod_sum x y =
     (let (s0, c0) = addc (x ! 0) (y ! 0) False;
          (s1, c1) = addc (x ! 1) (y ! 1) c0;
          (s2, c2) = addc (x ! 2) (y ! 2) c1;
          (s3, c3) = addc (x ! 3) (y ! 3) c2
      in [s0, s1, s2, s3, of_bool c3])"

definition addmod :: "words \<Rightarrow> words \<Rightarrow> words \<Rightarrow> words option" where
  "addmod x y m =
     (if m ! 3 \<noteq> 0 \<and> x ! 3 \<le> m ! 3 \<and> y ! 3 \<le> m ! 3 then
        let (x_sub, x_borrow) = subb256 x m;
            x_norm = (if x_borrow then x else x_sub);
            (y_sub, y_borrow) = subb256 y m;
            y_norm = (if y_borrow then y else y_sub);
            (xy_sum, xy_carry) = addc256 x_norm y_norm;
            (rem, rem_borrow) = subb256 xy_sum m
        in Some (if xy_carry \<or> \<not> rem_borrow then rem else xy_sum)
      else map_option snd (udivrem (addmod_sum x y) m))"

definition mulmod :: "words \<Rightarrow> words \<Rightarrow> words \<Rightarrow> words \<Rightarrow> words option" where
  "mulmod uninit u v m = map_option snd (udivrem (truncating_mul uninit 8 u v) m)"

definition sdivrem :: "words \<Rightarrow> words \<Rightarrow> (words \<times> words) option" where
  "sdivrem x y =
     (let x_neg = x ! 3 AND push_bit 63 1;
          y_neg = y ! 3 AND push_bit 63 1;
          x_abs = (if x_neg \<noteq> 0 then uint256_neg x else x);
          y_abs = (if y_neg \<noteq> 0 then uint256_neg y else y);
          quot_neg = x_neg XOR y_neg
      in case udivrem x_abs y_abs of
           None \<Rightarrow> None
         | Some (quot, rem) \<Rightarrow>
             Some (if quot_neg \<noteq> 0 then uint256_neg quot else quot,
                   if x_neg \<noteq> 0 then uint256_neg rem else rem))"

definition slt :: "words \<Rightarrow> words \<Rightarrow> bool" where
  "slt x y =
     (let x_neg = drop_bit 63 (x ! 3); y_neg = drop_bit 63 (y ! 3); diff = x_neg XOR y_neg
      in ((NOT diff) AND of_bool (uint256_less x y)) OR (x_neg AND NOT y_neg) \<noteq> 0)"

primrec exp_word :: "words \<Rightarrow> nat \<Rightarrow> u64 \<Rightarrow> words \<Rightarrow> words \<Rightarrow> words \<times> words" where
  "exp_word uninit 0 word_exp result base = (result, base)"
| "exp_word uninit (Suc significant_bits) word_exp result base =
     exp_word uninit significant_bits (drop_bit 1 word_exp)
       (if word_exp AND 1 \<noteq> 0 then uint256_mul uninit result base else result)
       (uint256_mul uninit base base)"

primrec exp_words :: "words \<Rightarrow> words \<Rightarrow> nat \<Rightarrow> nat \<Rightarrow> nat \<Rightarrow> words \<Rightarrow> words \<Rightarrow> words" where
  "exp_words uninit exponent sig_words w 0 result base = result"
| "exp_words uninit exponent sig_words w (Suc left) result base =
     (let word_exp = exponent ! w;
          significant_bits = (if w + 1 = sig_words then 64 - countl_zero64 word_exp else 64);
          (result, base) = exp_word uninit significant_bits word_exp result base
      in exp_words uninit exponent sig_words (w + 1) left result base)"

definition uint256_exp :: "words \<Rightarrow> words \<Rightarrow> words \<Rightarrow> words" where
  "uint256_exp uninit base exponent =
     (let result = [1, 0, 0, 0]
      in if uint256_eq base [2, 0, 0, 0] then uint256_shl256 result exponent
         else let sig_words = count_significant_words exponent
              in exp_words uninit exponent sig_words 0 sig_words result base)"

section \<open>Shifts and exponentiation\<close>

lemma BASE_4: "BASE ^ 4 = 2 ^ 256"
  by (simp add: BASE_power)

lemma wval_replicate_append [simp]: "wval (replicate k 0 @ ys) = BASE ^ k * wval ys"
  by (simp add: wval_append)

lemma shift_words_mod:
  assumes "s < 64" "u \<noteq> []"
  shows "wval (shift_words s u) = 2 ^ s * wval u mod BASE ^ length u"
proof -
  have "2 ^ s * wval u mod BASE ^ length u = wval (shift_words s u) mod BASE ^ length u"
    unfolding shift_words_value[OF assms, symmetric] by simp
  also have "\<dots> = wval (shift_words s u)"
    using wval_bound[of "shift_words s u"] assms(2) by simp
  finally show ?thesis by simp
qed

lemma unat_push_bit_256: "unat (push_bit n (x :: u256)) = 2 ^ n * unat x mod BASE ^ 4"
  unfolding unsigned_push_bit_eq BASE_4 by (simp add: push_bit_eq_mult take_bit_eq_mod mult.commute)

lemma shifted_words:
  assumes "k < 4" "s < 64"
  shows "replicate k 0 @ shift_words s (take (4 - k) (of_u256 x)) = of_u256 (push_bit (64 * k + s) x)"
proof (rule wval_inject)
  let ?t = "take (4 - k) (of_u256 x)"
  have t: "?t \<noteq> []" "length ?t = 4 - k" using assms(1) by (simp_all add: of_u256_def)
  show "length (replicate k 0 @ shift_words s ?t) = length (of_u256 (push_bit (64 * k + s) x))"
    using assms(1) t by simp
  have "wval ?t = unat x mod BASE ^ (4 - k)" using wval_take[of "4 - k" "of_u256 x"] by simp
  then have "wval (shift_words s ?t) = 2 ^ s * unat x mod BASE ^ (4 - k)"
    unfolding shift_words_mod[OF assms(2) t(1)] t(2) by (simp only: mod_mult_right_eq)
  then have "BASE ^ k * wval (shift_words s ?t) = BASE ^ k * (2 ^ s * unat x) mod (BASE ^ k * BASE ^ (4 - k))"
    by (simp only: mult_mod_right)
  also have "BASE ^ k * BASE ^ (4 - k) = BASE ^ 4" using assms(1) by (simp flip: power_add)
  also have "BASE ^ k * (2 ^ s * unat x) = 2 ^ (64 * k + s) * unat x"
    by (simp add: BASE_power power_add)
  finally show "wval (replicate k 0 @ shift_words s ?t) = wval (of_u256 (push_bit (64 * k + s) x))"
    by (simp only: wval_replicate_append wval_of_u256 unat_push_bit_256)
qed

lemma shift_words_literal:
  "shift_words s [a] = [push_bit s a]"
  "shift_words s [a, b] = [push_bit s a, shld b a s]"
  "shift_words s [a, b, c] = [push_bit s a, shld b a s, shld c b s]"
  "shift_words s [a, b, c, d] = [push_bit s a, shld b a s, shld c b s, shld d c s]"
  by (simp_all add: shift_words_Cons)

lemma of_u256_0: "of_u256 0 = [0, 0, 0, 0]"
  by (simp add: of_u256_def)

lemma of_u256_eq_words: "of_u256 x = [of_u256 x ! 0, of_u256 x ! 1, of_u256 x ! 2, of_u256 x ! 3]"
  by (simp add: of_u256_def)

lemma uint256_shl_correct: "uint256_shl (of_u256 x) shift = of_u256 (push_bit (unat shift) x)"
proof (cases "256 \<le> shift")
  case True
  then have "256 \<le> unat shift" by (simp add: word_le_nat_alt)
  then have "push_bit (unat shift) x = 0" by (intro bit_word_eqI) (simp add: bit_push_bit_iff)
  then show ?thesis using True by (simp add: uint256_shl_def of_u256_0)
next
  case False
  then have n: "unat shift < 256" by (simp add: word_le_nat_alt)
  define k s where "k = unat shift div 64" and "s = unat shift mod 64"
  have ks: "unat shift = 64 * k + s" "k < 4" "s < 64" using n by (simp_all add: k_def s_def)
  obtain a b c d where x: "of_u256 x = [a, b, c, d]" using of_u256_eq_words by blast
  have lit: "replicate 2 0 = [0, 0 :: u64]" "replicate 3 0 = [0, 0, 0 :: u64]"
    "take 4 [a, b, c, d] = [a, b, c, d]" "take 3 [a, b, c, d] = [a, b, c]" "take 2 [a, b, c, d] = [a, b]"
    by (simp_all add: numeral_2_eq_2 numeral_3_eq_3)
  have top: "(192 + s) mod 64 = s" using ks(3) mod_mult_self1[of s 3 64] by (simp add: add.commute)
  consider "k = 0" | "k = 1" | "k = 2" | "k = 3" using ks(2) by linarith
  then have "uint256_shl [a, b, c, d] shift = replicate k 0 @ shift_words s (take (4 - k) [a, b, c, d])"
    using False ks(1,3) by cases (simp_all add: uint256_shl_def lit shift_words_literal top)
  then show ?thesis using shifted_words[OF ks(2,3), of x] unfolding x ks(1) by simp
qed

lemma exp_word_correct:
  assumes "length uninit = 4"
  shows "exp_word uninit n e (of_u256 r) (of_u256 b) =
    (of_u256 (r * b ^ (unat e mod 2 ^ n)), of_u256 (b ^ (2 ^ n)))"
proof (induction n arbitrary: e r b)
  case (Suc n)
  have odd: "e AND 1 \<noteq> 0 \<longleftrightarrow> odd (unat e)"
    by (simp add: and_one_eq unat_mod odd_iff_mod_2_eq_one flip: unat_eq_zero)
  have half: "unat (drop_bit 1 e) = unat e div 2" using unat_drop_bit_64[of 1 e] by simp
  let ?m = "unat e div 2 mod 2 ^ n"
  have m: "unat e mod 2 ^ Suc n = 2 * ?m + unat e mod 2"
    by (simp add: mod_mult2_eq)
  have sq: "(b * b) ^ k = b ^ (2 * k)" for k by (simp add: power_mult power2_eq_square)
  have r': "(if e AND 1 \<noteq> 0 then r * b else r) * b ^ (2 * ?m) = r * b ^ (unat e mod 2 ^ Suc n)"
    unfolding m odd by (auto simp: power_add odd_iff_mod_2_eq_one even_iff_mod_2_eq_zero)
  have "exp_word uninit (Suc n) e (of_u256 r) (of_u256 b) =
      exp_word uninit n (drop_bit 1 e) (of_u256 (if e AND 1 \<noteq> 0 then r * b else r)) (of_u256 (b * b))"
    by (simp add: uint256_mul_correct[OF assms])
  also have "\<dots> = (of_u256 ((if e AND 1 \<noteq> 0 then r * b else r) * b ^ (2 * ?m)), of_u256 (b ^ (2 * 2 ^ n)))"
    unfolding Suc.IH sq half ..
  finally show ?case unfolding r' by simp
qed simp

lemma exp_words_correct:
  assumes "length uninit = 4" "n = count_significant_words e" "w + k = n"
  shows "exp_words uninit e n w k (of_u256 r) (of_u256 b) = of_u256 (r * b ^ wval (take k (drop w e)))"
  using assms(3)
proof (induction k arbitrary: w r b)
  case (Suc k)
  note ce = count_significant_words_props[OF assms(2)]
  let ?e = "e ! w" and ?bits = "if w + 1 = n then 64 - countl_zero64 (e ! w) else 64"
  have w: "w < length e" using Suc.prems ce(1) by simp
  have bits: "unat ?e mod 2 ^ ?bits = unat ?e"
  proof (cases "w + 1 = n")
    case True
    then have "?e \<noteq> 0" using ce(4) by auto
    note cz = countl_zero64_value[OF this refl]
    have "unat ?e < 2 ^ (64 - countl_zero64 ?e)"
      using cz(3)[unfolded split_base[OF cz(1)]] by (simp add: mult.commute)
    then show ?thesis using True by simp
  next
    case False
    then show ?thesis using u64_bound[of ?e] by (simp add: BASE_def)
  qed
  have rest: "of_u256 (r * b ^ unat ?e * (b ^ (2 ^ ?bits)) ^ wval (take k (drop (w + 1) e))) =
      of_u256 (r * b ^ (unat ?e + BASE * wval (take k (drop (w + 1) e))))"
  proof (cases "w + 1 = n")
    case True
    then have "k = 0" using Suc.prems by simp
    then show ?thesis by simp
  next
    case False
    then show ?thesis by (simp add: power_add power_mult mult.assoc BASE_def)
  qed
  have "take (Suc k) (drop w e) = ?e # take k (drop (w + 1) e)"
    using w by (simp flip: Cons_nth_drop_Suc)
  moreover have "exp_words uninit e n w (Suc k) (of_u256 r) (of_u256 b) =
      exp_words uninit e n (w + 1) k (of_u256 (r * b ^ unat ?e)) (of_u256 (b ^ (2 ^ ?bits)))"
    by (simp only: exp_words.simps Let_def exp_word_correct[OF assms(1)] bits prod.case)
  ultimately show ?case
    using Suc.IH[of "w + 1" "r * b ^ unat ?e" "b ^ (2 ^ ?bits)"] Suc.prems rest by simp
qed simp

lemma uint256_shl256_correct: "uint256_shl256 (of_u256 x) (of_u256 n) = of_u256 (push_bit (unat n) x)"
proof -
  obtain a b c d where n: "of_u256 n = [a, b, c, d]" using of_u256_eq_words by blast
  have v: "unat n = unat a + BASE * (unat b + BASE * (unat c + BASE * unat d))"
    using wval_of_u256[of n] unfolding n by simp
  have or: "p OR q = 0 \<longleftrightarrow> p = 0 \<and> q = 0" for p q :: u64 by (simp add: or_eq_0_iff)
  show ?thesis
  proof (cases "b = 0 \<and> c = 0 \<and> d = 0")
    case True
    then show ?thesis
      using v uint256_shl_correct[of x a] by (simp add: uint256_shl256_def n numeral_2_eq_2 numeral_3_eq_3)
  next
    case False
    then have "0 < unat b + BASE * (unat c + BASE * unat d)" by (auto simp: unat_gt_0)
    then have "BASE * 1 \<le> BASE * (unat b + BASE * (unat c + BASE * unat d))"
      by (metis One_nat_def Suc_leI mult_le_mono2)
    then have "256 \<le> unat n" using v by (simp add: BASE_def)
    then have "push_bit (unat n) x = 0" by (intro bit_word_eqI) (simp add: bit_push_bit_iff)
    then show ?thesis
      using False by (auto simp: uint256_shl256_def n or of_u256_0 numeral_2_eq_2 numeral_3_eq_3)
  qed
qed

lemma uint256_exp_correct:
  assumes "length uninit = 4"
  shows "uint256_exp uninit (of_u256 b) (of_u256 e) = of_u256 (b ^ unat e)"
proof -
  have lit: "[1, 0, 0, 0] = of_u256 1" "[2, 0, 0, 0] = of_u256 2" by (simp_all add: of_u256_def)
  note ce = count_significant_words_props[OF refl, of "of_u256 e"]
  have eq: "uint256_eq (of_u256 b) (of_u256 2) \<longleftrightarrow> b = 2"
    by (simp add: uint256_eq_correct) (metis to_of_u256)
  show ?thesis
  proof (cases "b = 2")
    case True
    then show ?thesis
      unfolding uint256_exp_def Let_def lit eq uint256_shl256_correct by (simp add: push_bit_eq_mult)
  next
    case False
    then show ?thesis
      unfolding uint256_exp_def Let_def lit eq
      using exp_words_correct[OF assms refl, of 0 _ "of_u256 e" 1 b] ce(2) by simp
  qed
qed

section \<open>Modular addition and multiplication\<close>

lemma subb256_of_u256: "subb256 (of_u256 x) (of_u256 y) = (of_u256 (x - y), x < y)"
  using uint256_sub_correct[of x y] by (simp add: uint256_sub_def uint256_less_def prod_eq_iff)

lemma carry_iff: "r + N * of_bool c = s \<Longrightarrow> r < N \<Longrightarrow> c \<longleftrightarrow> N \<le> (s :: nat)"
  by (cases c) auto

lemma addc256_of_u256: "addc256 (of_u256 x) (of_u256 y) = (of_u256 (x + y), 2 ^ 256 \<le> unat x + unat y)"
proof -
  obtain r c where a: "addc256 (of_u256 x) (of_u256 y) = (r, c)" by fastforce
  have r: "r = of_u256 (x + y)" using uint256_add_correct[of x y] a by (simp add: uint256_add_def)
  have "unat (x + y) + 2 ^ 256 * of_bool c = unat x + unat y"
    using addc256_value[OF _ _ a] r by simp
  moreover have "unat (x + y) < 2 ^ 256" using unsigned_less[of "x + y"] by simp
  ultimately have "c \<longleftrightarrow> 2 ^ 256 \<le> unat x + unat y" by (rule carry_iff)
  then show ?thesis using a r by simp
qed

lemma of_u256_unique: "length r = 4 \<Longrightarrow> wval r = n \<Longrightarrow> r = of_u256 (of_nat n)"
  using wval_bound4[of r] by (intro wval_inject) (simp_all add: unat_of_nat)

lemma udivrem_rem:
  assumes "4 \<le> length u" "m \<noteq> 0"
  shows "map_option snd (udivrem u (of_u256 m)) = Some (of_u256 (of_nat (wval u mod unat m)))"
proof -
  have "wval (of_u256 m) \<noteq> 0" using assms(2) by (simp add: unat_eq_zero)
  then show ?thesis
    using udivrem_value[of "of_u256 m" u] assms(1) by (auto intro!: of_u256_unique)
qed

lemma udivrem_zero: "map_option snd (udivrem u (of_u256 0)) = None"
  using count_significant_words_props(6)[OF refl, of "of_u256 0"] by (simp add: udivrem_def)

lemma addmod_sum_value: "length (addmod_sum (of_u256 x) (of_u256 y)) = 5 \<and>
    wval (addmod_sum (of_u256 x) (of_u256 y)) = unat x + unat y"
proof -
  obtain r c where a: "addc256 (of_u256 x) (of_u256 y) = (r, c)" by fastforce
  then have s: "addmod_sum (of_u256 x) (of_u256 y) = r @ [of_bool c]"
    by (auto simp: addmod_sum_def addc256_def Let_def split: prod.splits)
  have "length r = 4 \<and> wval r + 2 ^ 256 * of_bool c = unat x + unat y"
    using addc256_value[OF _ _ a] by simp
  then show ?thesis unfolding s by (simp add: wval_snoc BASE_4 unat_of_bool_64)
qed

lemma fast_path_bound:
  assumes "of_u256 m ! 3 \<noteq> 0" "of_u256 x ! 3 \<le> of_u256 m ! 3"
  shows "unat x < 2 * unat m"
proof -
  have top: "unat z div BASE ^ 3 = unat (of_u256 z ! 3)" for z
  proof -
    have "drop 3 (of_u256 z) = [of_u256 z ! 3]" by (simp add: of_u256_def numeral_3_eq_3)
    then show ?thesis using wval_drop[of 3 "of_u256 z"] by simp
  qed
  have "unat x div BASE ^ 3 \<le> unat m div BASE ^ 3" "1 \<le> unat m div BASE ^ 3"
    using assms by (simp_all add: top word_le_nat_alt Suc_leI unat_gt_0)
  then have "unat x div BASE ^ 3 + 1 \<le> 2 * (unat m div BASE ^ 3)" by linarith
  then have "(unat x div BASE ^ 3 + 1) * BASE ^ 3 \<le> 2 * (unat m div BASE ^ 3) * BASE ^ 3" by (rule mult_le_mono1)
  also have "\<dots> \<le> 2 * unat m" by simp
  finally have le: "(unat x div BASE ^ 3 + 1) * BASE ^ 3 \<le> 2 * unat m" .
  have "unat x mod BASE ^ 3 < BASE ^ 3" by simp
  then have "unat x < unat x div BASE ^ 3 * BASE ^ 3 + BASE ^ 3" using div_mult_mod_eq[of "unat x" "BASE ^ 3"] by linarith
  then show ?thesis using le by simp
qed

lemma reduce_once: "unat x < 2 * unat m \<Longrightarrow> unat (if x < m then x else x - m) = unat x mod unat (m :: u256)"
  by (auto simp: word_less_nat_alt not_less unat_sub word_le_nat_alt le_mod_geq)

lemma reduce_sum:
  fixes x y m :: u256
  assumes "unat x < unat m" "unat y < unat m"
  shows "(if 2 ^ 256 \<le> unat x + unat y \<or> \<not> x + y < m then x + y - m else x + y) =
    of_nat ((unat x + unat y) mod unat m)"
proof -
  have m: "unat m < 2 ^ 256" using unsigned_less[of m] by simp
  let ?S = "unat x + unat y"
  have s: "x + y = of_nat ?S" "m = of_nat (unat m)" by simp_all
  have u: "unat (x + y) = ?S mod 2 ^ 256" by (simp add: unat_word_ariths)
  show ?thesis
  proof (cases "unat m \<le> ?S")
    case True
    then have "?S mod unat m = ?S - unat m" using assms by (simp add: le_mod_geq)
    moreover have "x + y - m = of_nat (?S - unat m)" using True by (simp add: of_nat_diff)
    moreover have "2 ^ 256 \<le> ?S \<or> \<not> x + y < m" using True by (auto simp: word_less_nat_alt u)
    ultimately show ?thesis by simp
  next
    case False
    then have "\<not> 2 ^ 256 \<le> ?S" "x + y < m" using m by (simp_all add: word_less_nat_alt u)
    then show ?thesis using False by simp
  qed
qed

lemma addmod_correct:
  "addmod (of_u256 x) (of_u256 y) (of_u256 m) =
    (if m = 0 then None else Some (of_u256 (of_nat ((unat x + unat y) mod unat m))))"
proof (cases "of_u256 m ! 3 \<noteq> 0 \<and> of_u256 x ! 3 \<le> of_u256 m ! 3 \<and> of_u256 y ! 3 \<le> of_u256 m ! 3")
  case True
  then have nz: "m \<noteq> 0" by (auto simp: of_u256_def)
  define x' y' where "x' = (if x < m then x else x - m)" and "y' = (if y < m then y else y - m)"
  have red: "unat x' = unat x mod unat m" "unat y' = unat y mod unat m"
    using True fast_path_bound[of m x] fast_path_bound[of m y] by (simp_all add: x'_def y'_def reduce_once)
  then have less: "unat x' < unat m" "unat y' < unat m" using nz by (simp_all add: unat_gt_0)
  have norm: "(if x < m then of_u256 x else of_u256 (x - m)) = of_u256 x'"
    "(if y < m then of_u256 y else of_u256 (y - m)) = of_u256 y'" by (simp_all add: x'_def y'_def)
  have "addmod (of_u256 x) (of_u256 y) (of_u256 m) =
      Some (of_u256 (if 2 ^ 256 \<le> unat x' + unat y' \<or> \<not> x' + y' < m then x' + y' - m else x' + y'))"
    unfolding addmod_def using True by (simp only: if_True Let_def subb256_of_u256 addc256_of_u256 norm prod.case if_distrib[of of_u256] simp_thms)
  also have "\<dots> = Some (of_u256 (of_nat ((unat x' + unat y') mod unat m)))"
    unfolding reduce_sum[OF less] ..
  finally show ?thesis using nz by (simp add: red mod_add_eq)
next
  case False
  note s = addmod_sum_value[of x y]
  have "addmod (of_u256 x) (of_u256 y) (of_u256 m) = map_option snd (udivrem (addmod_sum (of_u256 x) (of_u256 y)) (of_u256 m))"
    using False by (simp only: addmod_def if_False)
  then show ?thesis
    using s by (cases "m = 0") (simp_all add: udivrem_zero udivrem_rem del: option.map_sel)
qed

lemma mulmod_correct:
  assumes "length uninit = 8"
  shows "mulmod uninit (of_u256 x) (of_u256 y) (of_u256 m) =
    (if m = 0 then None else Some (of_u256 (of_nat (unat x * unat y mod unat m))))"
proof -
  let ?p = "truncating_mul uninit 8 (of_u256 x) (of_u256 y)"
  have ne: "of_u256 z \<noteq> []" for z by (simp add: of_u256_def)
  have b: "unat z < BASE ^ 4" for z :: u256 using wval_bound[of "of_u256 z"] by simp
  have "unat x * unat y < BASE ^ 4 * BASE ^ 4" by (intro mult_strict_mono b) simp_all
  then have less: "unat x * unat y < BASE ^ 8" by (simp flip: power_add)
  have p: "length ?p = 8" "wval ?p = unat x * unat y"
    using truncating_mul_value[OF assms _ ne ne, of x y] less by simp_all
  show ?thesis
    using p by (cases "m = 0") (simp_all add: mulmod_def udivrem_zero udivrem_rem)
qed

section \<open>Signed operations\<close>

lemma unat_256: "unat (x :: u256) < 2 ^ 256"
  using wval_bound4[of "of_u256 x"] by simp

lemma sign_word: "bit (of_u256 x ! 3) 63 \<longleftrightarrow> bit x 255"
  by (simp add: of_u256_def bit_ucast_iff bit_drop_bit_eq)

lemma bit_top_64: "n < 64 \<Longrightarrow> bit (push_bit 63 1 :: u64) n \<longleftrightarrow> n = 63"
  unfolding bit_push_bit_iff by (auto simp: bit_1_iff)

lemma sign_and:
  assumes "h = (push_bit 63 1 :: u64)"
  shows "w AND h = (if bit w 63 then h else 0)"
proof (rule bit_word_eqI)
  fix n assume "n < LENGTH(64)"
  then have "bit h n \<longleftrightarrow> n = 63" unfolding assms using bit_top_64 by simp
  then show "bit (w AND h) n = bit (if bit w 63 then h else 0) n" by (auto simp: bit_and_iff)
qed

lemma sign_shift: "drop_bit 63 (w :: u64) = of_bool (bit w 63)"
proof (rule bit_word_eqI)
  fix n assume "n < LENGTH(64)"
  show "bit (drop_bit 63 w) n = bit (of_bool (bit w 63) :: u64) n"
    using bit_imp_le_length[of w "63 + n"] by (cases n) (auto simp: bit_drop_bit_eq)
qed

lemma sint_256: "sint (x :: u256) = int (unat x) - 2 ^ 256 * of_bool (bit x 255)"
proof -
  have "sint x = signed_take_bit 255 (uint x)" by (simp add: sint_uint)
  then show ?thesis using uint_bounded[of x] by (simp add: signed_take_bit_eq_take_bit_minus bit_uint_iff take_bit_int_eq_self)
qed

lemma bit_255: "bit (x :: u256) 255 \<longleftrightarrow> 2 ^ 255 \<le> unat x"
proof -
  have "bit x 255 \<longleftrightarrow> bit (unat x) 255" by (simp add: bit_unsigned_iff)
  then have "bit x 255 \<longleftrightarrow> odd (unat x div 2 ^ 255)" unfolding bit_iff_odd[of "unat x"] .
  moreover have "unat x div 2 ^ 255 < 2" using unat_256[of x] by (simp add: div_less_iff_less_mult)
  then have "odd (unat x div 2 ^ 255) \<longleftrightarrow> unat x div 2 ^ 255 \<noteq> 0" by (auto simp: less_2_cases_iff)
  ultimately show ?thesis by (simp add: div_eq_0_iff not_less)
qed

definition abs_word :: "u256 \<Rightarrow> u256" where
  "abs_word x = (if bit x 255 then - x else x)"

lemma unat_abs_word: "int (unat (abs_word x)) = \<bar>sint x\<bar>"
proof (cases "bit x 255")
  case True
  then have "0 < unat x" "unat x < 2 ^ 256" "2 ^ 255 \<le> unat x"
    using unat_256[of x] by (simp_all add: bit_255)
  then show ?thesis using True unat_sub_if'[of 0 x] uint_bounded[of x] by (simp add: abs_word_def sint_256)
next
  case False
  then show ?thesis by (simp add: abs_word_def sint_256)
qed

lemma sint_neg_iff: "sint (x :: u256) < 0 \<longleftrightarrow> bit x 255"
  using uint_bounded[of x] by (simp add: sint_256)

lemma sign_test: "(of_u256 x ! 3 AND push_bit 63 1 \<noteq> 0) = bit x 255"
proof -
  have nz: "(push_bit 63 1 :: u64) \<noteq> 0" by simp
  show ?thesis unfolding sign_and[OF refl] sign_word using nz by simp
qed

lemma sign_xor: "((of_u256 x ! 3 AND push_bit 63 1) XOR (of_u256 y ! 3 AND push_bit 63 1) \<noteq> 0) = (bit x 255 \<noteq> bit y 255)"
proof -
  have nz: "(push_bit 63 1 :: u64) \<noteq> 0" by simp
  show ?thesis unfolding sign_and[OF refl] sign_word using nz by (simp add: xor_self_eq)
qed

lemma abs_words: "(if bit x 255 then uint256_neg (of_u256 x) else of_u256 x) = of_u256 (abs_word x)"
  by (simp add: abs_word_def uint256_neg_correct)

lemma udivrem_u256:
  assumes "y \<noteq> 0"
  shows "udivrem (of_u256 x) (of_u256 y) = Some (of_u256 (of_nat (unat x div unat y)), of_u256 (of_nat (unat x mod unat y)))"
proof -
  have "wval (of_u256 y) \<noteq> 0" using assms by (simp add: unat_eq_zero)
  then show ?thesis using udivrem_value[of "of_u256 y" "of_u256 x"] by (auto intro!: of_u256_unique)
qed

lemma udivrem_u256_zero: "udivrem (of_u256 x) (of_u256 0) = None"
  using count_significant_words_props(6)[OF refl, of "of_u256 0"] by (simp add: udivrem_def)

lemma abs_word_zero: "abs_word y = 0 \<longleftrightarrow> y = 0"
  by (simp add: abs_word_def)

lemma sdivrem_correct:
  "sdivrem (of_u256 x) (of_u256 y) =
    (if y = 0 then None
     else Some (of_u256 (of_int (sint x sdiv sint y)), of_u256 (of_int (sint x smod sint y))))"
proof (cases "y = 0")
  case True
  then show ?thesis
    unfolding sdivrem_def Let_def sign_test abs_words by (simp add: abs_word_zero udivrem_u256_zero abs_word_def)
next
  case False
  let ?q = "unat (abs_word x) div unat (abs_word y)" and ?r = "unat (abs_word x) mod unat (abs_word y)"
  have q: "(of_nat ?q :: u256) = of_int (\<bar>sint x\<bar> div \<bar>sint y\<bar>)" "(of_nat ?r :: u256) = of_int (\<bar>sint x\<bar> mod \<bar>sint y\<bar>)"
    unfolding unat_abs_word[symmetric] zdiv_int[symmetric] zmod_int[symmetric] by simp_all
  have nz: "abs_word y \<noteq> 0" using False by (simp add: abs_word_zero)
  have y: "sint y \<noteq> 0" using unat_abs_word[of y] False abs_word_zero[of y] by (auto simp: uint_0_iff)
  have sq: "(if bit x 255 \<noteq> bit y 255 then - of_nat ?q else of_nat ?q) = (of_int (sint x sdiv sint y) :: u256)"
    unfolding q signed_divide_int_def sint_neg_iff[symmetric] using y
    by (cases "sint x" "0 :: int" rule: linorder_cases) (auto simp: sgn_if)
  have sr: "(if bit x 255 then - of_nat ?r else of_nat ?r) = (of_int (sint x smod sint y) :: u256)"
    unfolding q signed_modulo_int_def sint_neg_iff[symmetric] by (simp add: sgn_if)
  have "sdivrem (of_u256 x) (of_u256 y) =
      Some (if bit x 255 \<noteq> bit y 255 then uint256_neg (of_u256 (of_nat ?q)) else of_u256 (of_nat ?q),
        if bit x 255 then uint256_neg (of_u256 (of_nat ?r)) else of_u256 (of_nat ?r))"
    unfolding sdivrem_def Let_def sign_test sign_xor abs_words
    unfolding udivrem_u256[OF nz] by (simp only: option.case prod.case)
  then show ?thesis
    unfolding uint256_neg_correct if_distrib[of of_u256, symmetric] sq sr using False by simp
qed

lemma slt_correct: "slt (of_u256 x) (of_u256 y) \<longleftrightarrow> sint x < sint y"
proof -
  have less: "uint256_less (of_u256 x) (of_u256 y) \<longleftrightarrow> x < y" by (rule uint256_sub_correct(2))
  have b: "int (unat x) < 2 ^ 256" "int (unat y) < 2 ^ 256" using uint_bounded[of x] uint_bounded[of y] by simp_all
  show ?thesis
    unfolding slt_def Let_def sign_shift sign_word less sint_256
    using b by (cases "bit x 255"; cases "bit y 255")
      (auto simp: word_less_def not_less intro: less_le_trans[OF _ uint_ge_0] order_trans[OF _ uint_ge_0])
qed

section \<open>Claims\<close>

text \<open>
  C27: The modular operations do not lose the carry or the upper half of the product: for all operands
  \<open>addmod\<close>, on its fast path and on its slow one, and \<open>mulmod\<close> return the sum and the product in
  unbounded arithmetic, reduced by the modulus, and abort exactly for the modulus zero.
\<close>
theorem modular_operations_exact:
  "length uninit = 8 \<Longrightarrow>
    addmod (of_u256 x) (of_u256 y) (of_u256 m) =
      (if m = 0 then None else Some (of_u256 (of_nat ((unat x + unat y) mod unat m)))) \<and>
    mulmod uninit (of_u256 x) (of_u256 y) (of_u256 m) =
      (if m = 0 then None else Some (of_u256 (of_nat (unat x * unat y mod unat m))))"
  using addmod_correct mulmod_correct by simp

theorem modular_operations_exact_witness:
  "addmod (of_u256 (- 1)) (of_u256 (- 1)) (of_u256 7) =
      (if (7 :: u256) = 0 then None else Some (of_u256 (of_nat ((unat (- 1 :: u256) + unat (- 1 :: u256)) mod unat (7 :: u256))))) \<and>
    mulmod [1, 2, 3, 4, 5, 6, 7, 8] (of_u256 (- 1)) (of_u256 (- 1)) (of_u256 7) =
      (if (7 :: u256) = 0 then None else Some (of_u256 (of_nat (unat (- 1 :: u256) * unat (- 1 :: u256) mod unat (7 :: u256)))))"
  by (rule modular_operations_exact) simp

text \<open>
  C28: The signed and the exponential operations agree with the arithmetic of 256-bit words:
  \<open>sdivrem\<close> truncates towards zero with a remainder of the sign of the dividend (and wraps only for the
  least number divided by minus one), \<open>slt\<close> compares the signed values, and \<open>exp\<close>, with its
  shortcut for the base two, is the power modulo \<open>2 ^ 256\<close> for every exponent.
\<close>
theorem signed_and_power_operations_exact:
  "length uninit = 4 \<Longrightarrow>
    sdivrem (of_u256 x) (of_u256 y) =
      (if y = 0 then None
       else Some (of_u256 (of_int (sint x sdiv sint y)), of_u256 (of_int (sint x smod sint y)))) \<and>
    slt (of_u256 x) (of_u256 y) = (sint x < sint y) \<and>
    uint256_exp uninit (of_u256 x) (of_u256 y) = of_u256 (x ^ unat y)"
  using sdivrem_correct slt_correct uint256_exp_correct by simp

theorem signed_and_power_operations_exact_witness:
  "sdivrem (of_u256 (- 7)) (of_u256 2) =
      (if (2 :: u256) = 0 then None
       else Some (of_u256 (of_int (sint (- 7 :: u256) sdiv sint (2 :: u256))), of_u256 (of_int (sint (- 7 :: u256) smod sint (2 :: u256))))) \<and>
    slt (of_u256 (- 7)) (of_u256 2) = (sint (- 7 :: u256) < sint (2 :: u256)) \<and>
    uint256_exp [0, 0, 0, 0] (of_u256 (- 7)) (of_u256 2) = of_u256 ((- 7) ^ unat (2 :: u256))"
  by (rule signed_and_power_operations_exact) simp

end
