(* ===== verification/Precompiles.thy ===== *)
theory Precompiles
  imports Rlp_Core Uint256_Div
begin

unbundle bit_operations_syntax

text \<open>
  The interface of the precompiled contracts: messages and results as the host exchanges them with the
  virtual machine (\<open>category/vm/evm/message.hpp\<close>, \<open>status_code.h\<close>) and the gas prices
  (\<open>category/execution/ethereum/precompiles_gas_cost_impl.cpp\<close> and, for the Monad revisions,
  \<open>monad/monad_precompiles_gas_cost_impl.cpp\<close>). The price of modular exponentiation is compared with a
  reference over unbounded numbers.
\<close>

section \<open>Messages and results\<close>

datatype evmc_call_kind =
  EVMC_CALL | EVMC_DELEGATECALL | EVMC_CALLCODE | EVMC_CREATE | EVMC_CREATE2 | EVMC_EOFCREATE

datatype evmc_status_code =
    EVMC_SUCCESS | EVMC_FAILURE | EVMC_REVERT | EVMC_OUT_OF_GAS | EVMC_INVALID_INSTRUCTION
  | EVMC_UNDEFINED_INSTRUCTION | EVMC_STACK_OVERFLOW | EVMC_STACK_UNDERFLOW
  | EVMC_BAD_JUMP_DESTINATION | EVMC_INVALID_MEMORY_ACCESS | EVMC_CALL_DEPTH_EXCEEDED
  | EVMC_STATIC_MODE_VIOLATION | EVMC_PRECOMPILE_FAILURE | EVMC_CONTRACT_VALIDATION_FAILURE
  | EVMC_ARGUMENT_OUT_OF_RANGE | EVMC_WASM_UNREACHABLE_INSTRUCTION | EVMC_WASM_TRAP
  | EVMC_INSUFFICIENT_BALANCE | EVMC_MONAD_RESERVE_BALANCE_VIOLATION
  | EVMC_INTERNAL_ERROR | EVMC_REJECTED | EVMC_OUT_OF_MEMORY

definition EVMC_STATIC :: u32 where
  "EVMC_STATIC = 1"

definition EVMC_DELEGATED :: u32 where
  "EVMC_DELEGATED = 2"

text \<open>
  The fields of a message, without those of the interpreter's scratch memory. The depth is never
  negative; gas is a signed number.
\<close>

record evmc_message =
  msg_kind :: evmc_call_kind
  msg_flags :: u32
  msg_depth :: nat
  msg_gas :: int
  msg_recipient :: address
  msg_sender :: address
  msg_input :: bytes
  msg_value :: u256
  msg_create2_salt :: bytes32
  msg_code_address :: address

record evmc_result =
  res_status :: evmc_status_code
  res_gas_left :: int
  res_gas_refund :: int
  res_output :: bytes
  res_create_address :: address

text \<open>\<open>evmc::Result{status, gas_left}\<close>; the gas defaults to 0.\<close>

definition Result :: "evmc_status_code \<Rightarrow> int \<Rightarrow> evmc_result" where
  "Result status gas =
     \<lparr>res_status = status, res_gas_left = gas, res_gas_refund = 0, res_output = [],
      res_create_address = 0\<rparr>"

section \<open>Gas prices\<close>

definition num_words :: "nat \<Rightarrow> nat" where
  "num_words len = (len + 31) div 32"

definition pricing_factor :: "traits \<Rightarrow> u64 \<Rightarrow> u64" where
  "pricing_factor tr n =
     (case monad_rev tr of
        None \<Rightarrow> 1
      | Some r \<Rightarrow> if monad_pricing_version r \<ge> 1 then n else 1)"

definition ecrecover_gas_cost :: "traits \<Rightarrow> bytes \<Rightarrow> u64" where
  "ecrecover_gas_cost tr input = pricing_factor tr 2 * 3000"

definition sha256_gas_cost :: "bytes \<Rightarrow> u64" where
  "sha256_gas_cost input = 60 + 12 * of_nat (num_words (length input))"

definition ripemd160_gas_cost :: "bytes \<Rightarrow> u64" where
  "ripemd160_gas_cost input = 600 + 120 * of_nat (num_words (length input))"

definition identity_gas_cost :: "bytes \<Rightarrow> u64" where
  "identity_gas_cost input = 15 + 3 * of_nat (num_words (length input))"

definition ecadd_gas_cost :: "traits \<Rightarrow> bytes \<Rightarrow> u64" where
  "ecadd_gas_cost tr input = pricing_factor tr 2 * 150"

definition ecmul_gas_cost :: "traits \<Rightarrow> bytes \<Rightarrow> u64" where
  "ecmul_gas_cost tr input = pricing_factor tr 5 * 6000"

definition snarkv_gas_cost_ethereum :: "bytes \<Rightarrow> u64" where
  "snarkv_gas_cost_ethereum input = 34000 * of_nat (length input div 192) + 45000"

definition snarkv_gas_cost :: "traits \<Rightarrow> bytes \<Rightarrow> u64" where
  "snarkv_gas_cost tr input = pricing_factor tr 5 * snarkv_gas_cost_ethereum input"

definition blake2bf_gas_cost_ethereum :: "bytes \<Rightarrow> u64 option" where
  "blake2bf_gas_cost_ethereum input =
     (if length input < 4 then None else Some (of_nat (be_value (take 4 input))))"

definition blake2bf_gas_cost :: "traits \<Rightarrow> bytes \<Rightarrow> u64 option" where
  "blake2bf_gas_cost tr input =
     (case blake2bf_gas_cost_ethereum input of
        Some ethereum_cost \<Rightarrow> Some (pricing_factor tr 2 * ethereum_cost)
      | None \<Rightarrow> None)"

definition point_evaluation_gas_cost :: "traits \<Rightarrow> bytes \<Rightarrow> u64" where
  "point_evaluation_gas_cost tr input = pricing_factor tr 4 * 50000"

definition msm_discount_G1 :: "nat \<Rightarrow> u64" where
  "msm_discount_G1 k =
     [1000, 949, 848, 797, 764, 750, 738, 728, 719, 712, 705, 698, 692,
      687, 682, 677, 673, 669, 665, 661, 658, 654, 651, 648, 645, 642,
      640, 637, 635, 632, 630, 627, 625, 623, 621, 619, 617, 615, 613,
      611, 609, 608, 606, 604, 603, 601, 599, 598, 596, 595, 593, 592,
      591, 589, 588, 586, 585, 584, 582, 581, 580, 579, 577, 576, 575,
      574, 573, 572, 570, 569, 568, 567, 566, 565, 564, 563, 562, 561,
      560, 559, 558, 557, 556, 555, 554, 553, 552, 551, 550, 549, 548,
      547, 547, 546, 545, 544, 543, 542, 541, 540, 540, 539, 538, 537,
      536, 536, 535, 534, 533, 532, 532, 531, 530, 529, 528, 528, 527,
      526, 525, 525, 524, 523, 522, 522, 521, 520, 520, 519] ! (min k 128 - 1)"

definition msm_discount_G2 :: "nat \<Rightarrow> u64" where
  "msm_discount_G2 k =
     [1000, 1000, 923, 884, 855, 832, 812, 796, 782, 770, 759, 749, 740,
      732, 724, 717, 711, 704, 699, 693, 688, 683, 679, 674, 670, 666,
      663, 659, 655, 652, 649, 646, 643, 640, 637, 634, 632, 629, 627,
      624, 622, 620, 618, 615, 613, 611, 609, 607, 606, 604, 602, 600,
      598, 597, 595, 593, 592, 590, 589, 587, 586, 584, 583, 582, 580,
      579, 578, 576, 575, 574, 573, 571, 570, 569, 568, 567, 566, 565,
      563, 562, 561, 560, 559, 558, 557, 556, 555, 554, 553, 552, 552,
      551, 550, 549, 548, 547, 546, 545, 545, 544, 543, 542, 541, 541,
      540, 539, 538, 537, 537, 536, 535, 535, 534, 533, 532, 532, 531,
      530, 530, 529, 528, 528, 527, 526, 526, 525, 524, 524] ! (min k 128 - 1)"

definition bls12_g1_add_gas_cost :: "bytes \<Rightarrow> u64" where
  "bls12_g1_add_gas_cost input = 375"

definition bls12_g2_add_gas_cost :: "bytes \<Rightarrow> u64" where
  "bls12_g2_add_gas_cost input = 600"

definition bls12_map_fp_to_g1_gas_cost :: "bytes \<Rightarrow> u64" where
  "bls12_map_fp_to_g1_gas_cost input = 5500"

definition bls12_map_fp2_to_g2_gas_cost :: "bytes \<Rightarrow> u64" where
  "bls12_map_fp2_to_g2_gas_cost input = 23800"

definition p256_verify_gas_cost :: "bytes \<Rightarrow> u64" where
  "p256_verify_gas_cost input = 6900"

definition bls12_g1_msm_gas_cost :: "bytes \<Rightarrow> u64" where
  "bls12_g1_msm_gas_cost input =
     (let k = length input div (128 + 32) in
      if k = 0 then 0 else (of_nat k * 12000 * msm_discount_G1 k) div 1000)"

definition bls12_g2_msm_gas_cost :: "bytes \<Rightarrow> u64" where
  "bls12_g2_msm_gas_cost input =
     (let k = length input div (256 + 32) in
      if k = 0 then 0 else (of_nat k * 22500 * msm_discount_G2 k) div 1000)"

definition bls12_pairing_check_gas_cost :: "bytes \<Rightarrow> u64" where
  "bls12_pairing_check_gas_cost input = 32600 * of_nat (length input div (128 + 256)) + 37700"

subsection \<open>Modular exponentiation\<close>

definition mult_complexity :: "traits \<Rightarrow> u256 \<Rightarrow> u256" where
  "mult_complexity tr max_len =
     (let words = drop_bit 3 (max_len + 7) in
      if eip_7883_active tr then (if max_len > 32 then 2 * words * words else 16)
      else words * words)"

definition expmod_gas_denominator :: "traits \<Rightarrow> u256" where
  "expmod_gas_denominator tr = (if eip_7883_active tr then 1 else 3)"

definition expmod_iteration_count :: "traits \<Rightarrow> u256 \<Rightarrow> nat \<Rightarrow> u256" where
  "expmod_iteration_count tr exp_len256 bit_len =
     (let adjusted = (if exp_len256 > 32
            then (if eip_7883_active tr then 16 else 8) * (exp_len256 - 32) else 0);
          adjusted = (if bit_len > 1 then adjusted + of_nat (bit_len - 1) else adjusted)
      in max adjusted 1)"

definition expmod_min_gas :: "traits \<Rightarrow> u64" where
  "expmod_min_gas tr = (if eip_7883_active tr then 500 else 200)"

text \<open>\<open>from_bytes\<close>: \<open>n\<close> bytes of a buffer that counts as padded with zeros on the right; \<open>n\<close> is at most 32.\<close>

definition from_bytes :: "nat \<Rightarrow> bytes \<Rightarrow> u256" where
  "from_bytes n src = of_nat (be_value (take n (src @ replicate n 0)))"

definition uint256_load_partial_be :: "bytes \<Rightarrow> nat \<Rightarrow> u256" where
  "uint256_load_partial_be input len = (if input = [] then 0 else from_bytes len input)"

primrec countl_zero_loop :: "words \<Rightarrow> nat \<Rightarrow> nat \<Rightarrow> nat" where
  "countl_zero_loop [] i cnt = cnt"
| "countl_zero_loop (w # ws) i cnt =
     (let cnt = cnt + countl_zero64 w
      in if cnt \<noteq> (i + 1) * 64 then cnt else countl_zero_loop ws (i + 1) cnt)"

definition countl_zero :: "u256 \<Rightarrow> nat" where
  "countl_zero x = countl_zero_loop (rev (of_u256 x)) 0 0"

definition count_significant_bytes :: "u256 \<Rightarrow> nat" where
  "count_significant_bytes x =
     (let significant_words = count_significant_words (of_u256 x) in
      if significant_words = 0 then 0
      else (64 - countl_zero64 (of_u256 x ! (significant_words - 1)) + 7) div 8 +
        (significant_words - 1) * 8)"

text \<open>The index of the exponent is computed in 64 bits.\<close>

definition expmod_gas_cost :: "traits \<Rightarrow> bytes \<Rightarrow> u64 option" where
  "expmod_gas_cost tr input =
     (let min_gas = expmod_min_gas tr;
          base_len256 = uint256_load_partial_be input 32;
          exp_len256 = (if length input \<ge> 32 then uint256_load_partial_be (drop 32 input) 32 else 0);
          mod_len256 = (if length input \<ge> 64 then uint256_load_partial_be (drop 64 input) 32 else 0)
      in if \<not> eip_7883_active tr \<and> base_len256 = 0 \<and> mod_len256 = 0 then Some min_gas
         else if eip_7823_active tr \<and>
           (base_len256 > 1024 \<or> exp_len256 > 1024 \<or> mod_len256 > 1024) then None
         else if \<not> eip_7823_active tr \<and>
           (count_significant_bytes base_len256 > 8 \<or> count_significant_bytes exp_len256 > 8 \<or>
            count_significant_bytes mod_len256 > 8) then Some (- 1)
         else
           let base_len64 = ucast base_len256 :: u64;
               exp_len64 = ucast exp_len256 :: u64;
               exp_index = 96 + base_len64;
               exp_head = (if length input > unat exp_index
                 then uint256_load_partial_be (drop (unat exp_index) input) (min 32 (unat exp_len64))
                 else 0);
               bit_len = 256 - countl_zero exp_head;
               iteration_count = expmod_iteration_count tr exp_len256 bit_len;
               max_length = max mod_len256 base_len256;
               gas = mult_complexity tr max_length * iteration_count div expmod_gas_denominator tr
           in if gas > 0xffffffffffffffff then Some (- 1) else Some (max min_gas (ucast gas)))"

section \<open>Bit lengths\<close>

text \<open>The number of binary digits, the reference for \<open>countl_zero\<close> and \<open>count_significant_bytes\<close>.\<close>

fun bit_length :: "nat \<Rightarrow> nat" where
  "bit_length n = (if n = 0 then 0 else Suc (bit_length (n div 2)))"

declare bit_length.simps [simp del]

lemma bit_length_0 [simp]: "bit_length 0 = 0"
  by (simp add: bit_length.simps)

lemma bit_length_bounds: "n \<noteq> 0 \<Longrightarrow> bit_length n \<noteq> 0 \<and> 2 ^ (bit_length n - 1) \<le> n \<and> n < 2 ^ bit_length n"
proof (induction n rule: bit_length.induct)
  case (1 n)
  note e = bit_length.simps[of n]
  show ?case
  proof (cases "n div 2 = 0")
    case True
    with 1(2) have "n = 1" by simp
    then show ?thesis by (simp add: bit_length.simps)
  next
    case False
    let ?k = "bit_length (n div 2)"
    have ih: "?k \<noteq> 0" "2 ^ (?k - 1) \<le> n div 2" "n div 2 < 2 ^ ?k" using 1(1)[OF 1(2) False] by auto
    obtain j where j: "?k = Suc j" using ih(1) not0_implies_Suc by blast
    have n: "n = 2 * (n div 2) + n mod 2" "n mod 2 < 2" by simp_all
    have "2 * 2 ^ j \<le> n" "n < 4 * 2 ^ j" using ih n unfolding j by simp_all
    then show ?thesis using 1(2) unfolding e j by simp
  qed
qed

lemma bit_length_unique:
  assumes "2 ^ k \<le> n" "n < 2 ^ Suc k"
  shows "bit_length n = Suc k"
proof -
  have "n \<noteq> 0" using assms(1) by (metis not_le zero_less_numeral zero_less_power)
  from bit_length_bounds[OF this] obtain j where j: "bit_length n = Suc j" "2 ^ j \<le> n" "n < 2 ^ Suc j"
    by (cases "bit_length n") auto
  have "(2::nat) ^ k < 2 ^ Suc j" "(2::nat) ^ j < 2 ^ Suc k" using assms j by linarith+
  then have "k < Suc j" "j < Suc k" by (simp_all only: power_strict_increasing_iff)
  with j show ?thesis by simp
qed

lemma bit_length_high:
  assumes "m \<noteq> 0" "r < 2 ^ k"
  shows "bit_length (r + 2 ^ k * m) = k + bit_length m"
proof -
  obtain j where j: "bit_length m = Suc j" "2 ^ j \<le> m" "m < 2 ^ Suc j"
    using bit_length_bounds[OF assms(1)] by (cases "bit_length m") auto
  have "r + 2 ^ k * m < 2 ^ k * (m + 1)" using assms(2) by simp
  also have "\<dots> \<le> 2 ^ k * 2 ^ Suc j" using j(3) by (intro mult_le_mono2) simp
  finally have "r + 2 ^ k * m < 2 ^ Suc (k + j)" by (simp add: power_add)
  moreover have "2 ^ (k + j) \<le> r + 2 ^ k * m" using j(2) by (simp add: power_add trans_le_add2)
  ultimately show ?thesis using j(1) bit_length_unique by simp
qed

lemma countl_zero64_0: "countl_zero64 0 = 64"
  unfolding countl_zero64_def by (subst takeWhile_eq_all_conv[THEN iffD2]) auto

lemma countl_zero64_bit_length: "countl_zero64 w = 64 - bit_length (unat w) \<and> bit_length (unat w) \<le> 64"
proof (cases "w = 0")
  case True
  then show ?thesis by (simp add: countl_zero64_0)
next
  case False
  let ?s = "countl_zero64 w" and ?n = "unat w"
  note v = countl_zero64_value[OF False refl]
  obtain k where k: "64 - ?s = Suc k" "63 - ?s = k" using v(1) by (cases "64 - ?s") auto
  have p: "(2 :: nat) ^ Suc k * 2 ^ ?s = BASE" using v(1) k(1) by (metis BASE_def le_add_diff_inverse2 less_imp_le power_add)
  have "?n * 2 ^ ?s < 2 ^ Suc k * 2 ^ ?s" using v(3) p by simp
  then have a: "?n < 2 ^ Suc k" by simp
  have "2 ^ Suc k * 2 ^ ?s \<le> 2 * ?n * 2 ^ ?s" using v(2) p by simp
  then have "2 ^ Suc k \<le> 2 * ?n" by (simp only: mult_le_cancel2) auto
  then have "2 ^ k \<le> ?n" by simp
  with a have "bit_length ?n = Suc k" by (rule bit_length_unique[rotated])
  then show ?thesis using k v(1) by linarith
qed

lemma countl_zero64_64: "countl_zero64 w = 64 \<longleftrightarrow> w = 0"
  using countl_zero64_value(1)[of w] by (cases "w = 0") (auto simp: countl_zero64_0)

lemma of_u256_value:
  assumes "of_u256 x = [a, b, c, d]"
  shows "unat x = unat a + BASE * (unat b + BASE * (unat c + BASE * unat d))"
  using wval_of_u256[of x] unfolding assms by simp

lemma digit_bound: "r < B \<Longrightarrow> m < M \<Longrightarrow> r + B * m < B * (M :: nat)"
proof -
  assume r: "r < B" and m: "m < M"
  have "r + B * m < B * Suc m" using r by simp
  also have "\<dots> \<le> B * M" using m by (intro mult_le_mono2) simp
  finally show ?thesis .
qed

lemma countl_zero_bit_length: "256 - countl_zero x = bit_length (unat x)"
proof -
  obtain a b c d where w: "of_u256 x = [a, b, c, d]" by (simp add: of_u256_def)
  have v: "unat x = unat a + BASE * (unat b + BASE * (unat c + BASE * unat d))" by (rule of_u256_value[OF w])
  have lt: "unat y < BASE" for y :: u64 by (rule u64_bound)
  note cz = countl_zero64_bit_length
  have cz0: "countl_zero64 0 = 64" by (simp add: countl_zero64_64)
  have B: "BASE = 2 ^ 64" by (simp add: BASE_def)
  have b3: "unat a + BASE * (unat b + BASE * unat c) < 2 ^ 192"
  proof -
    have "unat b + BASE * unat c < BASE * BASE" by (rule digit_bound[OF lt lt])
    then have "unat a + BASE * (unat b + BASE * unat c) < BASE * (BASE * BASE)" by (rule digit_bound[OF lt])
    then show ?thesis by (simp add: B)
  qed
  have b2: "unat a + BASE * unat b < 2 ^ 128"
  proof -
    have "unat a + BASE * unat b < BASE * BASE" by (rule digit_bound[OF lt lt])
    then show ?thesis by (simp add: B)
  qed
  have b1: "unat a < 2 ^ 64" using lt[of a] by (simp add: B)
  have nz: "unat y \<noteq> 0" if "y \<noteq> 0" for y :: u64 using that by (simp add: unsigned_eq_0_iff)
  consider "d \<noteq> 0" | "d = 0" "c \<noteq> 0" | "d = 0" "c = 0" "b \<noteq> 0" | "d = 0" "c = 0" "b = 0" by blast
  then show ?thesis
  proof cases
    case 1
    have "unat x = unat a + BASE * (unat b + BASE * unat c) + 2 ^ 192 * unat d" unfolding v by (simp add: B algebra_simps)
    then have "bit_length (unat x) = 192 + bit_length (unat d)" using bit_length_high[OF nz[OF 1] b3] by simp
    moreover have "countl_zero x = countl_zero64 d" using countl_zero64_64[of d] 1 by (simp add: countl_zero_def w Let_def)
    ultimately show ?thesis using cz[of d] by simp
  next
    case 2
    have "unat x = unat a + BASE * unat b + 2 ^ 128 * unat c" unfolding v by (simp add: B 2 algebra_simps)
    then have "bit_length (unat x) = 128 + bit_length (unat c)" using bit_length_high[OF nz[OF 2(2)] b2] by simp
    moreover have "countl_zero x = 64 + countl_zero64 c" using countl_zero64_64[of c] 2 by (simp add: countl_zero_def w cz0 Let_def)
    ultimately show ?thesis using cz[of c] by simp
  next
    case 3
    have "unat x = unat a + 2 ^ 64 * unat b" unfolding v by (simp add: B 3 algebra_simps)
    then have "bit_length (unat x) = 64 + bit_length (unat b)" using bit_length_high[OF nz[OF 3(3)] b1] by simp
    moreover have "countl_zero x = 128 + countl_zero64 b" using countl_zero64_64[of b] 3 by (simp add: countl_zero_def w cz0 Let_def)
    ultimately show ?thesis using cz[of b] by simp
  next
    case 4
    have "unat x = unat a" unfolding v by (simp add: 4)
    moreover have "countl_zero x = 192 + countl_zero64 a" using 4 by (simp add: countl_zero_def w cz0 Let_def)
    ultimately show ?thesis using cz[of a] by simp
  qed
qed

lemma count_significant_bytes_gt_8: "count_significant_bytes x > 8 \<longleftrightarrow> 2 ^ 64 \<le> unat x"
proof -
  obtain a b c d where w: "of_u256 x = [a, b, c, d]" by (simp add: of_u256_def)
  have v: "unat x = unat a + BASE * (unat b + BASE * (unat c + BASE * unat d))" by (rule of_u256_value[OF w])
  have B: "BASE = 2 ^ 64" by (simp add: BASE_def)
  have a: "unat a < 2 ^ 64" using u64_bound[of a] by (simp add: B)
  have s: "countl_zero64 y < 64" if "y \<noteq> 0" for y :: u64 using countl_zero64_value(1)[OF that refl] .
  have le: "countl_zero64 y \<le> 64" for y :: u64 using countl_zero64_bit_length[of y] by simp
  have "2 ^ 64 \<le> unat x \<longleftrightarrow> \<not> (b = 0 \<and> c = 0 \<and> d = 0)"
  proof
    assume "2 ^ 64 \<le> unat x" then show "\<not> (b = 0 \<and> c = 0 \<and> d = 0)" using a v by auto
  next
    assume "\<not> (b = 0 \<and> c = 0 \<and> d = 0)"
    then have "unat b + BASE * (unat c + BASE * unat d) \<noteq> 0" by (auto simp: B unsigned_eq_0_iff)
    then have "1 \<le> unat b + BASE * (unat c + BASE * unat d)" by linarith
    then have "BASE * 1 \<le> BASE * (unat b + BASE * (unat c + BASE * unat d))" by (rule mult_le_mono2)
    then show "2 ^ 64 \<le> unat x" unfolding v by (simp add: B)
  qed
  moreover have "count_significant_bytes x > 8 \<longleftrightarrow> \<not> (b = 0 \<and> c = 0 \<and> d = 0)"
  proof -
    have n: "count_significant_words (of_u256 x) =
        (if d \<noteq> 0 then 4 else if c \<noteq> 0 then 3 else if b \<noteq> 0 then 2 else if a \<noteq> 0 then 1 else 0)"
      by (simp add: w count_significant_words_def)
    have pos: "(64 - countl_zero64 y + 7) div 8 > 0" if "y \<noteq> 0" for y :: u64 using s[OF that] by simp
    have hi: "(64 - countl_zero64 y + 7) div 8 \<le> 8" for y :: u64 by simp
    show ?thesis using pos[of d] pos[of c] pos[of b] hi[of a]
      unfolding count_significant_bytes_def n Let_def by (simp add: w)
  qed
  ultimately show ?thesis by simp
qed

section \<open>The price of modular exponentiation\<close>

text \<open>
  The reference: the prices of EIP-2565 and EIP-7883, with the limit of EIP-7823, over natural numbers
  and an input that goes on with zeros.
\<close>

definition padded_number :: "bytes \<Rightarrow> nat \<Rightarrow> nat \<Rightarrow> nat" where
  "padded_number input i n = be_value (take n (drop i input @ replicate n 0))"

definition complexity_spec :: "traits \<Rightarrow> nat \<Rightarrow> nat" where
  "complexity_spec tr m =
     (if eip_7883_active tr then (if m > 32 then 2 * ((m + 7) div 8) ^ 2 else 16)
      else ((m + 7) div 8) ^ 2)"

definition iterations_spec :: "traits \<Rightarrow> nat \<Rightarrow> nat \<Rightarrow> nat" where
  "iterations_spec tr el bits =
     max 1 ((if eip_7883_active tr then 16 else 8) * (el - 32) + (bits - 1))"

definition expmod_gas_spec :: "traits \<Rightarrow> bytes \<Rightarrow> nat option" where
  "expmod_gas_spec tr input =
     (let bl = padded_number input 0 32; el = padded_number input 32 32; ml = padded_number input 64 32;
          bits = bit_length (padded_number input (96 + bl) (min 32 el))
      in if eip_7823_active tr \<and> (bl > 1024 \<or> el > 1024 \<or> ml > 1024) then None
         else Some (max (if eip_7883_active tr then 500 else 200)
           (complexity_spec tr (max ml bl) * iterations_spec tr el bits div
             (if eip_7883_active tr then 1 else 3))))"

lemma be_value_zeros: "be_value (replicate n 0) = 0"
  by (induction n) (simp_all add: be_value_def)

lemma load_partial_value:
  assumes "n \<le> 32"
  shows "unat (uint256_load_partial_be (drop i input) n) = padded_number input i n"
proof -
  have "be_value (take n (xs @ replicate n 0)) < 256 ^ n" for xs
    using be_value_bound[of "take n (xs @ replicate n 0)"] by (simp only: length_take length_append length_replicate) simp
  also have "(256 :: nat) ^ n \<le> 256 ^ 32" using assms by (intro power_increasing) auto
  finally have b: "be_value (take n (xs @ replicate n 0)) < 2 ^ 256" for xs by simp
  show ?thesis
  proof (cases "drop i input = []")
    case True
    then show ?thesis
      unfolding uint256_load_partial_be_def padded_number_def True by (simp add: be_value_zeros)
  next
    case False
    then show ?thesis
      using b[of "drop i input"]
      by (simp only: uint256_load_partial_be_def padded_number_def from_bytes_def if_False unat_of_nat) simp
  qed
qed

lemma load_guarded_value:
  "unat (if i \<le> length input then uint256_load_partial_be (drop i input) 32 else 0) =
     padded_number input i 32"
  using load_partial_value[of 32 i input] by (simp add: padded_number_def be_value_zeros)

lemma load_inside_value:
  "n \<le> 32 \<Longrightarrow> unat (if i < length input then uint256_load_partial_be (drop i input) n else 0) =
     padded_number input i n"
proof (cases "i < length input")
  case False
  then have "drop i input = []" by simp
  then show ?thesis using False by (simp only: padded_number_def if_False) (simp add: be_value_zeros)
qed (simp add: load_partial_value)

lemma unat_max: "unat (max a b) = max (unat a) (unat (b :: 'a::len word))"
  by (simp add: max_def word_le_nat_alt)

lemma unat_u256: "n < 2 ^ 256 \<Longrightarrow> unat (of_nat n :: u256) = n"
  by (simp add: unat_of_nat)

lemma mult_complexity_value:
  assumes "unat m < 2 ^ 64"
  shows "unat (mult_complexity tr m) = complexity_spec tr (unat m)" "complexity_spec tr (unat m) < 2 ^ 126"
proof -
  let ?m = "unat m" and ?w = "(unat m + 7) div 8"
  have w: "?w < 2 ^ 62" using assms by simp
  then have sq: "?w * ?w < 2 ^ 62 * 2 ^ 62" by (intro mult_strict_mono) auto
  then have sq': "?w * ?w < 2 ^ 124" by (simp flip: power_add)
  have m: "m = of_nat ?m" by simp
  have "unat (m + 7) = ?m + 7" using assms by (subst unat_add_lem[THEN iffD1]) auto
  then have "unat (drop_bit 3 (m + 7)) = ?w"
    using unat_div[of "m + 7" 8] by (simp add: drop_bit_eq_div word_div_def) 
  then have words: "drop_bit 3 (m + 7) = of_nat ?w" by (metis of_nat_unat ucast_id)
  have gt: "m > 32 \<longleftrightarrow> ?m > 32" by (simp add: word_less_nat_alt)
  have "mult_complexity tr m = of_nat (complexity_spec tr ?m)"
    by (simp add: mult_complexity_def complexity_spec_def words gt Let_def power2_eq_square)
  moreover show b: "complexity_spec tr ?m < 2 ^ 126"
    using sq' by (simp add: complexity_spec_def power2_eq_square)
  ultimately show "unat (mult_complexity tr m) = complexity_spec tr ?m"
    using b by (simp add: unat_u256)
qed

lemma iteration_count_value:
  assumes "unat el < 2 ^ 64" "bits \<le> 256"
  shows "unat (expmod_iteration_count tr el bits) = iterations_spec tr (unat el) bits"
    "iterations_spec tr (unat el) bits < 2 ^ 69"
proof -
  let ?e = "unat el"
  have gt: "el > 32 \<longleftrightarrow> ?e > 32" by (simp add: word_less_nat_alt)
  have sub: "el - 32 = of_nat (?e - 32)" if "el > 32"
  proof -
    have "unat (el - 32) = ?e - 32" using that by (subst unat_sub) (auto simp: word_le_nat_alt word_less_nat_alt)
    then show ?thesis by (metis of_nat_unat ucast_id)
  qed
  define k :: nat where "k = (if eip_7883_active tr then 16 else 8)"
  have k: "(if eip_7883_active tr then 16 else 8 :: u256) = of_nat k" by (simp add: k_def)
  let ?n = "k * (?e - 32) + (bits - 1)"
  have "k * (?e - 32) \<le> 16 * 2 ^ 64" using assms(1) by (intro mult_le_mono) (auto simp: k_def)
  then have n: "?n < 2 ^ 69" using assms(2) by simp
  have "expmod_iteration_count tr el bits = max (of_nat ?n) 1"
    unfolding expmod_iteration_count_def k Let_def using sub gt by (auto simp: not_less)
  moreover have "unat (of_nat ?n :: u256) = ?n" by (rule unat_u256) (use n in simp)
  ultimately show "unat (expmod_iteration_count tr el bits) = iterations_spec tr ?e bits"
    by (simp add: unat_max iterations_spec_def k_def max.commute)
  show "iterations_spec tr ?e bits < 2 ^ 69" using n by (simp add: iterations_spec_def k_def)
qed

lemma gas_word_value:
  assumes "unat m < 2 ^ 64" "unat el < 2 ^ 64" "bits \<le> 256"
  shows "unat (mult_complexity tr m * expmod_iteration_count tr el bits div expmod_gas_denominator tr) =
    complexity_spec tr (unat m) * iterations_spec tr (unat el) bits div (if eip_7883_active tr then 1 else 3)"
proof -
  let ?c = "complexity_spec tr (unat m)" and ?i = "iterations_spec tr (unat el) bits"
  note c = mult_complexity_value[OF assms(1), of tr] and i = iteration_count_value[OF assms(2,3), of tr]
  have "?c * ?i < 2 ^ 126 * 2 ^ 69" using c(2) i(2) by (intro mult_strict_mono) auto
  then have lt: "?c * ?i < 2 ^ 256" by simp
  have p: "unat (mult_complexity tr m * expmod_iteration_count tr el bits) = ?c * ?i"
    unfolding c(1)[symmetric] i(1)[symmetric]
    by (rule unat_mult_lem[THEN iffD1]) (use lt in \<open>simp add: c(1) i(1)\<close>)
  have d: "unat (expmod_gas_denominator tr) = (if eip_7883_active tr then 1 else 3)"
    by (simp add: expmod_gas_denominator_def)
  show ?thesis unfolding unat_div p d ..
qed

lemma bit_length_256: "bit_length (unat (x :: u256)) \<le> 256"
  using countl_zero_bit_length[of x] by simp

lemma huge_gas:
  assumes "0 < c" "0 < i" "2 ^ 66 \<le> c \<or> 2 ^ 66 \<le> (i :: nat)" "d \<le> 3" "0 < d"
  shows "2 ^ 64 \<le> c * i div d"
proof -
  have "2 ^ 66 \<le> c * i"
    using assms(3)
  proof
    assume "2 ^ 66 \<le> c"
    then show ?thesis using assms(2) by (metis le_trans mult_le_mono2 mult.right_neutral Suc_leI One_nat_def)
  next
    assume "2 ^ 66 \<le> i"
    then show ?thesis using assms(1) by (metis le_trans mult_le_mono1 mult_1 Suc_leI One_nat_def)
  qed
  then have "2 ^ 66 div d \<le> c * i div d" by (rule div_le_mono)
  moreover have "2 ^ 66 div 3 \<le> (2 ^ 66 div d :: nat)" by (rule div_le_mono2[OF assms(5,4)])
  ultimately show ?thesis by simp
qed

lemma complexity_huge:
  assumes "2 ^ 63 \<le> m"
  shows "2 ^ 66 \<le> complexity_spec tr m"
proof -
  have "2 ^ 60 \<le> (m + 7) div 8" using div_le_mono[OF assms, of 8] by simp
  then have "(2 ^ 60) ^ 2 \<le> ((m + 7) div 8) ^ 2" by (rule power_mono) simp
  then show ?thesis using assms by (simp add: complexity_spec_def)
qed

lemma complexity_pos: "0 < m \<or> eip_7883_active tr \<Longrightarrow> 0 < complexity_spec tr m"
  by (auto simp: complexity_spec_def)

lemma iterations_pos: "0 < iterations_spec tr el bits"
  by (simp add: iterations_spec_def)

lemma iterations_huge:
  assumes "2 ^ 64 \<le> el"
  shows "2 ^ 66 \<le> iterations_spec tr el bits"
proof -
  have "8 * 2 ^ 63 \<le> (if eip_7883_active tr then 16 else 8 :: nat) * (el - 32)"
    using assms by (intro mult_le_mono) auto
  then show ?thesis by (simp add: iterations_spec_def)
qed

definition saturated :: "nat \<Rightarrow> u64" where
  "saturated g = of_nat (min g (2 ^ 64 - 1))"

lemma saturated_huge: "2 ^ 64 \<le> g \<Longrightarrow> saturated (max m g) = - 1"
  by (simp add: saturated_def min_def)

lemma saturated_word:
  "(if g > 0xffffffffffffffff then Some (- 1) else Some (max m (ucast g))) =
     Some (saturated (max (unat m) (unat (g :: u256))))"
proof (cases "g > 0xffffffffffffffff")
  case True
  then have "2 ^ 64 \<le> unat g" by (simp add: word_less_nat_alt)
  with True show ?thesis by (simp add: saturated_huge)
next
  case False
  then have g: "unat g < 2 ^ 64" by (simp add: word_less_nat_alt)
  then have "unat (ucast g :: u64) = unat g" by (simp add: unsigned_ucast_eq take_bit_eq_mod)
  moreover have "unat m < 2 ^ 64" using unsigned_less[of m] by simp
  ultimately have "saturated (max (unat m) (unat g)) = of_nat (max (unat m) (unat (ucast g :: u64)))"
    using g by (simp add: saturated_def)
  with False show ?thesis by (simp add: max_def word_le_nat_alt)
qed

lemma supported_eip_7823: "supported_traits tr \<Longrightarrow> eip_7823_active tr = eip_7883_active tr"
  by (auto simp: supported_traits_def EvmTraits_def MonadTraits_def Let_def)


text \<open>The price with the three lengths read as numbers, for a given bit length of the exponent's head.\<close>

definition gas_spec :: "traits \<Rightarrow> bytes \<Rightarrow> nat \<Rightarrow> nat" where
  "gas_spec tr input bits =
     complexity_spec tr (max (padded_number input 64 32) (padded_number input 0 32)) *
       iterations_spec tr (padded_number input 32 32) bits div (if eip_7883_active tr then 1 else 3)"

lemma gas_spec_huge:
  assumes "2 ^ 66 \<le> complexity_spec tr (max (padded_number input 64 32) (padded_number input 0 32)) \<or>
      2 ^ 66 \<le> iterations_spec tr (padded_number input 32 32) bits"
    and "padded_number input 0 32 \<noteq> 0 \<or> padded_number input 64 32 \<noteq> 0"
  shows "2 ^ 64 \<le> gas_spec tr input bits"
  unfolding gas_spec_def
  by (rule huge_gas[OF complexity_pos iterations_pos assms(1)]) (use assms(2) in auto)

text \<open>
  The exponent's head that the code reads: its index wraps when the base is almost \<open>2 ^ 64\<close> bytes long.
\<close>

definition exponent_bits :: "bytes \<Rightarrow> nat" where
  "exponent_bits input =
     (let i = unat (96 + (of_nat (padded_number input 0 32) :: u64))
      in bit_length (padded_number input i (min 32 (padded_number input 32 32))))"

lemma unat_ucast_low: "unat x < 2 ^ 64 \<Longrightarrow> unat (ucast x :: u64) = unat (x :: u256)"
  by (simp add: unsigned_ucast_eq take_bit_eq_mod)

lemma ucast_of_nat: "(ucast x :: u64) = of_nat (unat (x :: u256))"
  by (rule ucast_of_unat)

lemma exponent_bits_256: "exponent_bits input \<le> 256"
proof -
  have "min 32 k \<le> 32" for k :: nat by simp
  from load_partial_value[OF this] show ?thesis
    unfolding exponent_bits_def Let_def by (metis bit_length_256)
qed

lemma length_cases:
  fixes x y z :: nat
  assumes "\<not> a \<Longrightarrow> x = 0 \<Longrightarrow> z = 0 \<Longrightarrow> P" "a \<Longrightarrow> x > 1024 \<or> y > 1024 \<or> z > 1024 \<Longrightarrow> P"
    "\<not> a \<Longrightarrow> x \<noteq> 0 \<or> z \<noteq> 0 \<Longrightarrow> 2 ^ 64 \<le> x \<or> 2 ^ 64 \<le> y \<or> 2 ^ 64 \<le> z \<Longrightarrow> P"
    "\<not> (\<not> a \<and> x = 0 \<and> z = 0) \<Longrightarrow> \<not> (a \<and> (x > 1024 \<or> y > 1024 \<or> z > 1024)) \<Longrightarrow>
      x < 2 ^ 64 \<Longrightarrow> y < 2 ^ 64 \<Longrightarrow> z < 2 ^ 64 \<Longrightarrow> P"
  shows P
proof (cases a)
  case True
  then show ?thesis using assms(2)[OF True] assms(4)
    by (cases "x > 1024 \<or> y > 1024 \<or> z > 1024") (simp_all add: not_less)
next
  case False
  then show ?thesis using assms(1)[OF False] assms(3)[OF False] assms(4)
    by (cases "x = 0 \<and> z = 0"; cases "2 ^ 64 \<le> x \<or> 2 ^ 64 \<le> y \<or> 2 ^ 64 \<le> z") (simp_all add: not_le)
qed

lemma expmod_gas_cost_normal:
  assumes "\<not> (\<not> eip_7883_active tr \<and> padded_number input 0 32 = 0 \<and> padded_number input 64 32 = 0)"
    "\<not> (eip_7823_active tr \<and> (padded_number input 0 32 > 1024 \<or> padded_number input 32 32 > 1024 \<or>
        padded_number input 64 32 > 1024))"
    "padded_number input 0 32 < 2 ^ 64" "padded_number input 32 32 < 2 ^ 64"
    "padded_number input 64 32 < 2 ^ 64"
  shows "expmod_gas_cost tr input =
    Some (saturated (max (unat (expmod_min_gas tr)) (gas_spec tr input (exponent_bits input))))"
proof -
  define B E' M where "B = uint256_load_partial_be input 32"
    and "E' = (if 32 \<le> length input then uint256_load_partial_be (drop 32 input) 32 else 0)"
    and "M = (if 64 \<le> length input then uint256_load_partial_be (drop 64 input) 32 else 0)"
  have v: "unat B = padded_number input 0 32" "unat E' = padded_number input 32 32"
    "unat M = padded_number input 64 32"
    using load_partial_value[of 32 0 input] load_guarded_value[of 32 input] load_guarded_value[of 64 input]
    by (simp_all add: B_def E'_def M_def)
  let ?i = "unat (96 + (ucast B :: u64))"
  define head where "head = (if ?i < length input
      then uint256_load_partial_be (drop ?i input) (min 32 (unat (ucast E' :: u64))) else 0)"
  have "unat head = padded_number input ?i (min 32 (padded_number input 32 32))"
    unfolding head_def using load_inside_value[of "min 32 (unat (ucast E' :: u64))" ?i input]
      unat_ucast_low[of E'] assms(4) v(2) by simp
  then have bits: "256 - countl_zero head = exponent_bits input"
    by (simp add: countl_zero_bit_length exponent_bits_def ucast_of_nat v(1))
  have m: "unat (max M B) = max (padded_number input 64 32) (padded_number input 0 32)"
    by (simp add: unat_max v)
  note gas = gas_word_value[of "max M B" E' "exponent_bits input" tr, unfolded m v]
  have "unat (mult_complexity tr (max M B) * expmod_iteration_count tr E' (exponent_bits input) div
      expmod_gas_denominator tr) = gas_spec tr input (exponent_bits input)"
    unfolding gas_spec_def by (rule gas) (use assms(3-5) exponent_bits_256 in simp_all)
  moreover have "\<not> (\<not> eip_7883_active tr \<and> B = 0 \<and> M = 0)"
    using assms(1) by (simp add: v[symmetric] unsigned_eq_0_iff)
  moreover have "\<not> (eip_7823_active tr \<and> (B > 1024 \<or> E' > 1024 \<or> M > 1024))"
    using assms(2) by (simp add: word_less_nat_alt v)
  moreover have "\<not> (\<not> eip_7823_active tr \<and> (count_significant_bytes B > 8 \<or>
      count_significant_bytes E' > 8 \<or> count_significant_bytes M > 8))"
    unfolding count_significant_bytes_gt_8 v using assms(3-5) by simp
  ultimately show ?thesis
    unfolding expmod_gas_cost_def Let_def B_def[symmetric] E'_def[symmetric] M_def[symmetric]
      head_def[symmetric] bits by (simp only: if_False saturated_word)
qed


lemma expmod_gas_cost_special:
  fixes input :: bytes
  assumes "supported_traits tr"
  defines "bl \<equiv> padded_number input 0 32" and "el \<equiv> padded_number input 32 32"
    and "ml \<equiv> padded_number input 64 32"
  shows "\<not> eip_7883_active tr \<Longrightarrow> bl = 0 \<Longrightarrow> ml = 0 \<Longrightarrow>
      expmod_gas_cost tr input = Some (expmod_min_gas tr)"
    "eip_7883_active tr \<Longrightarrow> bl > 1024 \<or> el > 1024 \<or> ml > 1024 \<Longrightarrow> expmod_gas_cost tr input = None"
    "\<not> eip_7883_active tr \<Longrightarrow> bl \<noteq> 0 \<or> ml \<noteq> 0 \<Longrightarrow>
      2 ^ 64 \<le> bl \<or> 2 ^ 64 \<le> el \<or> 2 ^ 64 \<le> ml \<Longrightarrow> expmod_gas_cost tr input = Some (- 1)"
proof -
  define B E' M where "B = uint256_load_partial_be input 32"
    and "E' = (if 32 \<le> length input then uint256_load_partial_be (drop 32 input) 32 else 0)"
    and "M = (if 64 \<le> length input then uint256_load_partial_be (drop 64 input) 32 else 0)"
  have v: "unat B = bl" "unat E' = el" "unat M = ml"
    using load_partial_value[of 32 0 input] load_guarded_value[of 32 input] load_guarded_value[of 64 input]
    by (simp_all add: B_def E'_def M_def bl_def el_def ml_def)
  have z: "x = 0 \<longleftrightarrow> unat x = 0" for x :: u256 by (simp add: unsigned_eq_0_iff)
  note code = expmod_gas_cost_def[of tr input, unfolded Let_def B_def[symmetric] E'_def[symmetric] M_def[symmetric]
      supported_eip_7823[OF assms(1)] count_significant_bytes_gt_8 z word_less_nat_alt v]
  show "\<not> eip_7883_active tr \<Longrightarrow> bl = 0 \<Longrightarrow> ml = 0 \<Longrightarrow>
      expmod_gas_cost tr input = Some (expmod_min_gas tr)"
    unfolding code by simp
  show "eip_7883_active tr \<Longrightarrow> bl > 1024 \<or> el > 1024 \<or> ml > 1024 \<Longrightarrow> expmod_gas_cost tr input = None"
    unfolding code by simp
  show "\<not> eip_7883_active tr \<Longrightarrow> bl \<noteq> 0 \<or> ml \<noteq> 0 \<Longrightarrow>
      2 ^ 64 \<le> bl \<or> 2 ^ 64 \<le> el \<or> 2 ^ 64 \<le> ml \<Longrightarrow> expmod_gas_cost tr input = Some (- 1)"
    unfolding code by auto
qed

lemma expmod_gas_spec_Some:
  assumes "supported_traits tr" "\<not> (eip_7883_active tr \<and> (padded_number input 0 32 > 1024 \<or>
      padded_number input 32 32 > 1024 \<or> padded_number input 64 32 > 1024))"
  shows "expmod_gas_spec tr input = Some (max (unat (expmod_min_gas tr)) (gas_spec tr input
      (bit_length (padded_number input (96 + padded_number input 0 32) (min 32 (padded_number input 32 32))))))"
  using assms(2)
  by (auto simp: expmod_gas_spec_def gas_spec_def Let_def supported_eip_7823[OF assms(1)] expmod_min_gas_def)

lemma expmod_gas_cost_eq:
  assumes "supported_traits tr"
  shows "expmod_gas_cost tr input = map_option saturated (expmod_gas_spec tr input)"
proof -
  let ?bl = "padded_number input 0 32" and ?el = "padded_number input 32 32"
    and ?ml = "padded_number input 64 32" and ?a = "eip_7883_active tr"
  note special = expmod_gas_cost_special[OF assms, of input] and spec = expmod_gas_spec_Some[OF assms, of input]
  consider (zero) "\<not> ?a" "?bl = 0" "?ml = 0"
    | (limit) "?a" "?bl > 1024 \<or> ?el > 1024 \<or> ?ml > 1024"
    | (huge) "\<not> ?a" "?bl \<noteq> 0 \<or> ?ml \<noteq> 0" "2 ^ 64 \<le> ?bl \<or> 2 ^ 64 \<le> ?el \<or> 2 ^ 64 \<le> ?ml"
    | (normal) "\<not> (\<not> ?a \<and> ?bl = 0 \<and> ?ml = 0)" "\<not> (?a \<and> (?bl > 1024 \<or> ?el > 1024 \<or> ?ml > 1024))"
        "?bl < 2 ^ 64" "?el < 2 ^ 64" "?ml < 2 ^ 64"
    by (rule length_cases)
  then show ?thesis
  proof cases
    case zero
    then have "gas_spec tr input b = 0" for b by (simp add: gas_spec_def complexity_spec_def)
    then show ?thesis using zero special(1) spec by (simp add: saturated_def expmod_min_gas_def)
  next
    case limit
    then show ?thesis using special(2) by (simp add: expmod_gas_spec_def supported_eip_7823[OF assms] Let_def)
  next
    case huge
    have "2 ^ 64 \<le> gas_spec tr input b" for b
      using huge(3) complexity_huge[of "max ?ml ?bl" tr] iterations_huge[of ?el tr b]
      by (intro gas_spec_huge huge(2)) (auto simp: max_def)
    then show ?thesis unfolding special(3)[OF huge] using spec huge(1) by (simp add: saturated_huge)
  next
    case normal
    have "expmod_gas_spec tr input = Some (max (unat (expmod_min_gas tr)) (gas_spec tr input
      (bit_length (padded_number input (96 + ?bl) (min 32 ?el)))))" by (rule spec[OF normal(2)])
    moreover have "saturated (max (unat (expmod_min_gas tr)) (gas_spec tr input (exponent_bits input))) =
        saturated (max (unat (expmod_min_gas tr)) (gas_spec tr input
          (bit_length (padded_number input (96 + ?bl) (min 32 ?el)))))"
    proof (cases "96 + ?bl < 2 ^ 64")
      case True
      then have "unat (96 + (of_nat ?bl :: u64)) = 96 + ?bl"
        using unat_of_nat[where 'a = 64, of "96 + ?bl"] by (simp only: of_nat_add of_nat_numeral) simp
      then show ?thesis by (simp add: exponent_bits_def)
    next
      case False
      then have "2 ^ 63 \<le> max ?ml ?bl" by simp
      then have "2 ^ 64 \<le> gas_spec tr input b" for b
        using False complexity_huge[of "max ?ml ?bl" tr] by (intro gas_spec_huge) auto
      then show ?thesis by (simp add: saturated_huge)
    qed
    ultimately show ?thesis
      using expmod_gas_cost_normal[of tr input] normal supported_eip_7823[OF assms] by simp
  qed
qed

text \<open>
  C29: the price of modular exponentiation is exact. The code computes it in 256-bit words from lengths
  that an attacker chooses, cuts them to 64 bits and computes the index of the exponent in 64 bits; for
  every input the result is nevertheless the price of the reference over unbounded numbers, saturated
  at the largest 64-bit number, and a rejected input is rejected by both.
\<close>

theorem expmod_gas_cost_exact:
  assumes "supported_traits tr"
  shows "expmod_gas_cost tr input = map_option saturated (expmod_gas_spec tr input)"
  by (rule expmod_gas_cost_eq[OF assms])

theorem expmod_gas_cost_exact_witness:
  "supported_traits (EvmTraits MONAD_ETH_OSAKA) \<and>
   expmod_gas_cost (EvmTraits MONAD_ETH_OSAKA) (replicate 30 0 @ [4, 0]) = Some 32768"
proof -
  let ?tr = "EvmTraits MONAD_ETH_OSAKA"
  have s: "supported_traits ?tr" by (rule supported_traits_Evm) simp
  let ?in = "replicate 30 0 @ [4, 0] :: bytes"
  have "padded_number ?in 0 32 = 1024"
    using be_value_zeros[of 30] by (simp add: padded_number_def be_value_def)
  moreover have "padded_number ?in i 32 = 0" if "32 \<le> i" for i
    using that by (simp add: padded_number_def be_value_zeros)
  moreover have "padded_number ?in i 0 = 0" for i by (simp add: padded_number_def)
  ultimately have "expmod_gas_spec ?tr ?in = Some 32768"
    by (simp add: expmod_gas_spec_def complexity_spec_def iterations_spec_def EvmTraits_def)
  with expmod_gas_cost_exact[OF s, of "replicate 30 0 @ [4, 0]"] s show ?thesis
    by (simp add: saturated_def)
qed

end
