(* ===== verification/Precompile_Impl.thy ===== *)
theory Precompile_Impl
  imports Precompiles
begin

unbundle bit_operations_syntax

text \<open>
  What the precompiled contracts compute around the cryptographic primitives: the wrappers of
  \<open>precompiles.cpp\<close> that cut and pad the input, the checks and encodings of \<open>precompiles_impl.hpp\<close> and
  of the BLS12-381 operations in \<open>precompiles_bls12.cpp\<close>, the table \<open>resolve_precompile\<close>, and the call
  of a precompiled contract. The linked libraries (hashes, secp256k1, KZG, blst, the curve arithmetic
  of Crypto++ and GMP's modular power) are the fields of the record \<open>crypto\<close>.
\<close>

section \<open>Primitives of the linked libraries\<close>

text \<open>
  A field element of BLS12-381 is the number it stands for, a point a pair of coordinates; the
  operations on points return affine coordinates, as every use converts them at once. An element of
  the target group of the pairing is the list of its coefficients.
\<close>

type_synonym fp = nat
type_synonym fp2 = "fp \<times> fp"
type_synonym fp12 = "nat list"

record ('p, 'e) blst_group =
  bg_on_curve :: "'p \<Rightarrow> bool"
  bg_in_group :: "'p \<Rightarrow> bool"
  bg_is_inf :: "'p \<Rightarrow> bool"
  bg_add :: "'p \<Rightarrow> 'p \<Rightarrow> 'p"
  bg_mul :: "'p \<Rightarrow> nat \<Rightarrow> 'p"
  bg_msm :: "('p \<times> nat) list \<Rightarrow> 'p"
  bg_map_to_group :: "'e \<Rightarrow> 'p"

type_synonym g1 = "fp \<times> fp"
type_synonym g2 = "fp2 \<times> fp2"

record crypto =
  cr_recover_address :: "bytes \<Rightarrow> bytes \<Rightarrow> bool \<Rightarrow> bytes option"
  cr_sha256 :: "bytes \<Rightarrow> bytes"
  cr_rmd160 :: "bytes \<Rightarrow> bytes"
  cr_powm :: "nat \<Rightarrow> nat \<Rightarrow> nat \<Rightarrow> nat"
  cr_bn_add :: "bytes \<Rightarrow> bytes option"
  cr_bn_mul :: "bytes \<Rightarrow> bytes option"
  cr_snarkv :: "bytes \<Rightarrow> bytes option"
  cr_blake2b_compress :: "u64 \<Rightarrow> bytes \<Rightarrow> bytes \<Rightarrow> bytes \<Rightarrow> nat \<Rightarrow> bytes"
  cr_verify_kzg_proof :: "bytes \<Rightarrow> bytes \<Rightarrow> bytes \<Rightarrow> bytes \<Rightarrow> bool"
  cr_g1 :: "(g1, fp) blst_group"
  cr_g2 :: "(g2, fp2) blst_group"
  cr_fp12_one :: fp12
  cr_miller_loop :: "g2 \<Rightarrow> g1 \<Rightarrow> fp12"
  cr_fp12_mul :: "fp12 \<Rightarrow> fp12 \<Rightarrow> fp12"
  cr_final_exp :: "fp12 \<Rightarrow> fp12"
  cr_fp12_is_one :: "fp12 \<Rightarrow> bool"
  cr_p256_order :: nat
  cr_p256_field :: nat
  cr_p256_verify_point :: "nat \<times> nat \<Rightarrow> bool"
  cr_p256_inverse :: "nat \<Rightarrow> nat"
  cr_p256_combine :: "nat \<Rightarrow> nat \<Rightarrow> nat \<times> nat \<Rightarrow> (nat \<times> nat) option"

section \<open>Results\<close>

datatype precompile_result = PrecompileSuccess bytes | PrecompileFailure

text \<open>\<open>PrecompileImplResult\<close>: a null pointer is \<^term>\<open>None\<close>.\<close>

definition from_impl_result :: "bytes option \<Rightarrow> precompile_result" where
  "from_impl_result r = (case r of None \<Rightarrow> PrecompileFailure | Some out \<Rightarrow> PrecompileSuccess out)"

section \<open>The contracts of the first revisions\<close>

definition pad_input :: "nat \<Rightarrow> bytes \<Rightarrow> bytes" where
  "pad_input n input = take n input @ replicate (n - length input) 0"

definition slice_bytes :: "nat \<Rightarrow> nat \<Rightarrow> bytes \<Rightarrow> bytes" where
  "slice_bytes i n xs = take n (drop i xs)"

definition ecrecover_execute :: "crypto \<Rightarrow> bytes \<Rightarrow> precompile_result" where
  "ecrecover_execute cr input =
     (let d = pad_input 128 input;
          v = of_nat (be_value (slice_bytes 32 32 d)) :: u256;
          r = of_nat (be_value (slice_bytes 64 32 d)) :: u256;
          s = of_nat (be_value (slice_bytes 96 32 d)) :: u256
      in if \<not> has_valid_range \<lparr>sig_r = r, sig_s = s, y_parity = 0\<rparr> then PrecompileSuccess []
         else if v \<noteq> 27 \<and> v \<noteq> 28 then PrecompileSuccess []
         else case cr_recover_address cr (slice_bytes 0 32 d) (slice_bytes 64 64 d) (v \<noteq> 27) of
           None \<Rightarrow> PrecompileSuccess []
         | Some a \<Rightarrow> PrecompileSuccess (replicate 12 0 @ a))"

definition sha256_impl :: "crypto \<Rightarrow> bytes \<Rightarrow> bytes option" where
  "sha256_impl cr input = Some (cr_sha256 cr input)"

definition sha256_execute :: "crypto \<Rightarrow> bytes \<Rightarrow> precompile_result" where
  "sha256_execute cr input = from_impl_result (sha256_impl cr input)"

definition ripemd160_impl :: "crypto \<Rightarrow> bytes \<Rightarrow> bytes option" where
  "ripemd160_impl cr input = Some (replicate 12 0 @ cr_rmd160 cr input)"

definition ripemd160_execute :: "crypto \<Rightarrow> bytes \<Rightarrow> precompile_result" where
  "ripemd160_execute cr input = from_impl_result (ripemd160_impl cr input)"

definition identity_execute :: "bytes \<Rightarrow> precompile_result" where
  "identity_execute input = (if input = [] then PrecompileSuccess [] else PrecompileSuccess input)"

definition saturating_add64 :: "u64 \<Rightarrow> u64 \<Rightarrow> u64" where
  "saturating_add64 a b = (let c = a + b in if c < a then - 1 else c)"

text \<open>\<open>expmod_impl\<close> writes the result big-endian into a zeroed buffer of the modulus's length.\<close>

definition expmod_impl :: "crypto \<Rightarrow> bytes \<Rightarrow> bytes \<Rightarrow> bytes \<Rightarrow> bytes option" where
  "expmod_impl cr base exp modulus =
     (let b = be_value base; e = be_value exp; m = be_value modulus
      in if m = 0 then Some (replicate (length modulus) 0)
         else Some (be_bytes (length modulus) (cr_powm cr b e m)))"

text \<open>
  The lengths are the low 64 bits of the three fields of the header. The sub-spans lie inside the
  padded buffer when the sum of the lengths does not saturate, which the price guarantees for any
  call that has the gas.
\<close>

definition expmod_execute :: "crypto \<Rightarrow> bytes \<Rightarrow> precompile_result" where
  "expmod_execute cr input =
     (let header = pad_input 96 input;
          mod_len = of_nat (be_value (slice_bytes 88 8 header)) :: u64
      in if mod_len = 0 then PrecompileSuccess []
         else
           let base_len = of_nat (be_value (slice_bytes 24 8 header)) :: u64;
               exp_len = of_nat (be_value (slice_bytes 56 8 header)) :: u64;
               padded_size = unat (saturating_add64 base_len (saturating_add64 exp_len mod_len));
               padded_input = pad_input padded_size (drop 96 input);
               b = unat base_len; e = unat exp_len; m = unat mod_len
           in from_impl_result (expmod_impl cr (slice_bytes 0 b padded_input)
                (slice_bytes b e padded_input) (slice_bytes (b + e) m padded_input)))"

definition ecadd_execute :: "crypto \<Rightarrow> bytes \<Rightarrow> precompile_result" where
  "ecadd_execute cr input = from_impl_result (cr_bn_add cr (take 128 input))"

definition ecmul_execute :: "crypto \<Rightarrow> bytes \<Rightarrow> precompile_result" where
  "ecmul_execute cr input = from_impl_result (cr_bn_mul cr (take 96 input))"

definition snarkv_execute :: "crypto \<Rightarrow> bytes \<Rightarrow> precompile_result" where
  "snarkv_execute cr input =
     (if length input mod 192 \<noteq> 0 then PrecompileFailure else from_impl_result (cr_snarkv cr input))"

text \<open>The state of the compression: the finalisation flag, the chaining value and the offset counters.\<close>

definition blake2bf_impl :: "crypto \<Rightarrow> bytes \<Rightarrow> bytes option" where
  "blake2bf_impl cr input =
     (if length input \<noteq> 213 then None
      else
        let f = input ! 212 in
        if f \<noteq> 0 \<and> f \<noteq> 1 then None
        else
          Some (cr_blake2b_compress cr (if f \<noteq> 0 then - 1 else 0) (slice_bytes 4 64 input)
            (slice_bytes 196 16 input) (slice_bytes 68 128 input) (be_value (take 4 input))))"

definition kzg_to_version_hashed :: "crypto \<Rightarrow> bytes \<Rightarrow> bytes" where
  "kzg_to_version_hashed cr commitment = (cr_sha256 cr commitment)[0 := 1]"

definition blob_precompile_return_value :: bytes where
  "blob_precompile_return_value =
     be_bytes 32 0x1000 @
     be_bytes 32 0x73eda753299d7d483339d80809a1d80553bda402fffe5bfeffffffff00000001"

definition point_evaluation_impl :: "crypto \<Rightarrow> bytes \<Rightarrow> bytes option" where
  "point_evaluation_impl cr input =
     (if length input \<noteq> 192 then None
      else
        let versioned_hash = slice_bytes 0 32 input; z = slice_bytes 32 32 input;
            y = slice_bytes 64 32 input; commitment = slice_bytes 96 48 input;
            proof' = slice_bytes 144 48 input
        in if versioned_hash \<noteq> kzg_to_version_hashed cr commitment then None
           else if \<not> cr_verify_kzg_proof cr commitment z y proof' then None
           else Some blob_precompile_return_value)"

section \<open>Signatures on P-256\<close>

definition p256_verify_impl :: "crypto \<Rightarrow> bytes \<Rightarrow> bytes option" where
  "p256_verify_impl cr input =
     (if length input \<noteq> 160 then None
      else
        let h = be_value (slice_bytes 0 32 input); r = be_value (slice_bytes 32 32 input);
            s = be_value (slice_bytes 64 32 input); qx = be_value (slice_bytes 96 32 input);
            qy = be_value (slice_bytes 128 32 input);
            n = cr_p256_order cr; p_mod = cr_p256_field cr
        in if \<not> (r > 0 \<and> r < n) then None
           else if \<not> (s > 0 \<and> s < n) then None
           else if \<not> qx < p_mod then None
           else if \<not> qy < p_mod then None
           else if qx = 0 \<and> qy = 0 then None
           else if \<not> cr_p256_verify_point cr (qx, qy) then None
           else
             let s1 = cr_p256_inverse cr s; u1 = h * s1 mod n; u2 = r * s1 mod n
             in case cr_p256_combine cr u1 u2 (qx, qy) of
                  None \<Rightarrow> None
                | Some (x, y) \<Rightarrow>
                    if x mod n \<noteq> r then None else Some (replicate 31 0 @ [1]))"

definition p256_verify_execute :: "crypto \<Rightarrow> bytes \<Rightarrow> precompile_result" where
  "p256_verify_execute cr input =
     (case p256_verify_impl cr input of
        None \<Rightarrow> PrecompileSuccess []
      | Some out \<Rightarrow> PrecompileSuccess out)"

section \<open>BLS12-381\<close>

definition BASE_FIELD_MODULUS :: nat where
  "BASE_FIELD_MODULUS =
     0x1a0111ea397fe69a4b1ba7b6434bacd764774b84f38512bf6730d2a0f6b0f6241eabfffeb153ffffb9feffffffffaaab"

text \<open>The comparison of 64 bytes is the comparison of the big-endian numbers.\<close>

definition read_fp :: "bytes \<Rightarrow> fp option" where
  "read_fp inp =
     (if be_value (take 64 inp) \<ge> BASE_FIELD_MODULUS then None
      else Some (be_value (slice_bytes 16 48 inp)))"

definition read_fp2 :: "bytes \<Rightarrow> fp2 option" where
  "read_fp2 inp =
     (case read_fp inp of
        None \<Rightarrow> None
      | Some x \<Rightarrow> (case read_fp (drop 64 inp) of None \<Rightarrow> None | Some y \<Rightarrow> Some (x, y)))"

definition read_g1 :: "crypto \<Rightarrow> bytes \<Rightarrow> g1 option" where
  "read_g1 cr inp =
     (case read_fp inp of
        None \<Rightarrow> None
      | Some x \<Rightarrow>
          (case read_fp (drop 64 inp) of
             None \<Rightarrow> None
           | Some y \<Rightarrow> if bg_on_curve (cr_g1 cr) (x, y) then Some (x, y) else None))"

definition read_g2 :: "crypto \<Rightarrow> bytes \<Rightarrow> g2 option" where
  "read_g2 cr inp =
     (case read_fp2 inp of
        None \<Rightarrow> None
      | Some x \<Rightarrow>
          (case read_fp2 (drop 128 inp) of
             None \<Rightarrow> None
           | Some y \<Rightarrow> if bg_on_curve (cr_g2 cr) (x, y) then Some (x, y) else None))"

definition write_fp :: "fp \<Rightarrow> bytes" where
  "write_fp x = replicate 16 0 @ be_bytes 48 x"

definition write_fp2 :: "fp2 \<Rightarrow> bytes" where
  "write_fp2 x = write_fp (fst x) @ write_fp (snd x)"

definition write_g1 :: "g1 \<Rightarrow> bytes" where
  "write_g1 point = write_fp (fst point) @ write_fp (snd point)"

definition write_g2 :: "g2 \<Rightarrow> bytes" where
  "write_g2 point = write_fp2 (fst point) @ write_fp2 (snd point)"

text \<open>The argument \<open>Group\<close> of the templates.\<close>

record ('p, 'e) bls12_group =
  element_encoded_size :: nat
  encoded_size :: nat
  grp_read :: "bytes \<Rightarrow> 'p option"
  grp_read_element :: "bytes \<Rightarrow> 'e option"
  grp_write :: "'p \<Rightarrow> bytes"
  grp_lib :: "('p, 'e) blst_group"

definition G1 :: "crypto \<Rightarrow> (g1, fp) bls12_group" where
  "G1 cr = \<lparr>element_encoded_size = 64, encoded_size = 128, grp_read = read_g1 cr,
     grp_read_element = read_fp, grp_write = write_g1, grp_lib = cr_g1 cr\<rparr>"

definition G2 :: "crypto \<Rightarrow> (g2, fp2) bls12_group" where
  "G2 cr = \<lparr>element_encoded_size = 128, encoded_size = 256, grp_read = read_g2 cr,
     grp_read_element = read_fp2, grp_write = write_g2, grp_lib = cr_g2 cr\<rparr>"

definition bls_add :: "('p, 'e) bls12_group \<Rightarrow> bytes \<Rightarrow> bytes option" where
  "bls_add G input =
     (if length input \<noteq> 2 * encoded_size G then None
      else case grp_read G input of
        None \<Rightarrow> None
      | Some a \<Rightarrow>
          (case grp_read G (drop (encoded_size G) input) of
             None \<Rightarrow> None
           | Some b \<Rightarrow> Some (grp_write G (bg_add (grp_lib G) a b))))"

definition read_scalar :: "bytes \<Rightarrow> nat" where
  "read_scalar inp = be_value (take 32 inp)"

definition bls_mul :: "('p, 'e) bls12_group \<Rightarrow> bytes \<Rightarrow> bytes option" where
  "bls_mul G input =
     (case grp_read G input of
        None \<Rightarrow> None
      | Some point \<Rightarrow>
          let scalar = read_scalar (drop (encoded_size G) input)
          in if \<not> bg_in_group (grp_lib G) point then None
             else Some (grp_write G (bg_mul (grp_lib G) point scalar)))"

text \<open>The loop over the pairs; a point at infinity contributes nothing.\<close>

primrec msm_pairs :: "('p, 'e) bls12_group \<Rightarrow> nat \<Rightarrow> bytes \<Rightarrow> ('p \<times> nat) list option" where
  "msm_pairs G 0 inp = Some []"
| "msm_pairs G (Suc k) inp =
     (case grp_read G inp of
        None \<Rightarrow> None
      | Some point \<Rightarrow>
          if \<not> bg_in_group (grp_lib G) point then None
          else
            case msm_pairs G k (drop (encoded_size G + 32) inp) of
              None \<Rightarrow> None
            | Some pairs \<Rightarrow>
                if bg_is_inf (grp_lib G) point then Some pairs
                else Some ((point, read_scalar (drop (encoded_size G) inp)) # pairs))"

definition msm_pippenger :: "('p, 'e) bls12_group \<Rightarrow> bytes \<Rightarrow> nat \<Rightarrow> bytes option" where
  "msm_pippenger G input k =
     (case msm_pairs G k input of
        None \<Rightarrow> None
      | Some pairs \<Rightarrow>
          if pairs = [] then Some (replicate (encoded_size G) 0)
          else Some (grp_write G (bg_msm (grp_lib G) pairs)))"

definition msm :: "('p, 'e) bls12_group \<Rightarrow> bytes \<Rightarrow> bytes option" where
  "msm G input =
     (let pair_size = encoded_size G + 32 in
      if length input mod pair_size \<noteq> 0 then None
      else
        let k = length input div pair_size in
        if k = 0 then None else if k = 1 then bls_mul G input else msm_pippenger G input k)"

primrec pairing_loop :: "crypto \<Rightarrow> nat \<Rightarrow> bytes \<Rightarrow> fp12 \<Rightarrow> fp12 option" where
  "pairing_loop cr 0 inp result = Some result"
| "pairing_loop cr (Suc k) inp result =
     (case read_g1 cr inp of
        None \<Rightarrow> None
      | Some p \<Rightarrow>
          (case read_g2 cr (drop 128 inp) of
             None \<Rightarrow> None
           | Some q \<Rightarrow>
               if \<not> bg_in_group (cr_g1 cr) p then None
               else if \<not> bg_in_group (cr_g2 cr) q then None
               else if bg_is_inf (cr_g1 cr) p \<or> bg_is_inf (cr_g2 cr) q
               then pairing_loop cr k (drop 384 inp) result
               else pairing_loop cr k (drop 384 inp) (cr_fp12_mul cr result (cr_miller_loop cr q p))))"

definition pairing_check :: "crypto \<Rightarrow> bytes \<Rightarrow> bytes option" where
  "pairing_check cr input =
     (if length input mod 384 \<noteq> 0 then None
      else
        let k = length input div 384 in
        if k = 0 then None
        else
          case pairing_loop cr k input (cr_fp12_one cr) of
            None \<Rightarrow> None
          | Some result \<Rightarrow>
              Some (replicate 31 0 @ [if cr_fp12_is_one cr (cr_final_exp cr result) then 1 else 0]))"

definition map_fp_to_g :: "('p, 'e) bls12_group \<Rightarrow> bytes \<Rightarrow> bytes option" where
  "map_fp_to_g G input =
     (if length input \<noteq> element_encoded_size G then None
      else case grp_read_element G input of
        None \<Rightarrow> None
      | Some x \<Rightarrow> Some (grp_write G (bg_map_to_group (grp_lib G) x)))"

section \<open>The contracts of the later revisions\<close>

definition blake2bf_execute :: "crypto \<Rightarrow> bytes \<Rightarrow> precompile_result" where
  "blake2bf_execute cr input = from_impl_result (blake2bf_impl cr input)"

definition point_evaluation_execute :: "crypto \<Rightarrow> bytes \<Rightarrow> precompile_result" where
  "point_evaluation_execute cr input = from_impl_result (point_evaluation_impl cr input)"

definition bls12_g1_add_execute :: "crypto \<Rightarrow> bytes \<Rightarrow> precompile_result" where
  "bls12_g1_add_execute cr input = from_impl_result (bls_add (G1 cr) input)"

definition bls12_g1_msm_execute :: "crypto \<Rightarrow> bytes \<Rightarrow> precompile_result" where
  "bls12_g1_msm_execute cr input = from_impl_result (msm (G1 cr) input)"

definition bls12_g2_add_execute :: "crypto \<Rightarrow> bytes \<Rightarrow> precompile_result" where
  "bls12_g2_add_execute cr input = from_impl_result (bls_add (G2 cr) input)"

definition bls12_g2_msm_execute :: "crypto \<Rightarrow> bytes \<Rightarrow> precompile_result" where
  "bls12_g2_msm_execute cr input = from_impl_result (msm (G2 cr) input)"

definition bls12_pairing_check_execute :: "crypto \<Rightarrow> bytes \<Rightarrow> precompile_result" where
  "bls12_pairing_check_execute cr input = from_impl_result (pairing_check cr input)"

definition bls12_map_fp_to_g1_execute :: "crypto \<Rightarrow> bytes \<Rightarrow> precompile_result" where
  "bls12_map_fp_to_g1_execute cr input = from_impl_result (map_fp_to_g (G1 cr) input)"

definition bls12_map_fp2_to_g2_execute :: "crypto \<Rightarrow> bytes \<Rightarrow> precompile_result" where
  "bls12_map_fp2_to_g2_execute cr input = from_impl_result (map_fp_to_g (G2 cr) input)"


section \<open>The table\<close>

record precompiled_contract =
  gas_cost_func :: "bytes \<Rightarrow> u64 option"
  execute_func :: "bytes \<Rightarrow> precompile_result"

text \<open>\<open>PrecompiledContract{fmap_optional<gas_cost>, execute}\<close>, for a price that is always defined.\<close>

definition priced :: "(bytes \<Rightarrow> u64) \<Rightarrow> (bytes \<Rightarrow> precompile_result) \<Rightarrow> precompiled_contract option" where
  "priced gas_cost execute =
     Some \<lparr>gas_cost_func = (\<lambda>input. Some (gas_cost input)), execute_func = execute\<rparr>"

definition resolve_precompile :: "crypto \<Rightarrow> traits \<Rightarrow> address \<Rightarrow> precompiled_contract option" where
  "resolve_precompile cr tr a =
     (if a = 0x01 then priced (ecrecover_gas_cost tr) (ecrecover_execute cr)
      else if a = 0x02 then priced sha256_gas_cost (sha256_execute cr)
      else if a = 0x03 then priced ripemd160_gas_cost (ripemd160_execute cr)
      else if a = 0x04 then priced identity_gas_cost identity_execute
      else if a = 0x05 then
        Some \<lparr>gas_cost_func = expmod_gas_cost tr, execute_func = expmod_execute cr\<rparr>
      else if a = 0x06 then priced (ecadd_gas_cost tr) (ecadd_execute cr)
      else if a = 0x07 then priced (ecmul_gas_cost tr) (ecmul_execute cr)
      else if a = 0x08 then priced (snarkv_gas_cost tr) (snarkv_execute cr)
      else if a = 0x09 then
        Some \<lparr>gas_cost_func = blake2bf_gas_cost tr,
              execute_func = blake2bf_execute cr\<rparr>
      else if evm_rev tr \<ge> MONAD_ETH_CANCUN \<and> a = 0x0A then
        priced (point_evaluation_gas_cost tr) (point_evaluation_execute cr)
      else if evm_rev tr \<ge> MONAD_ETH_PRAGUE \<and> a = 0x0B then
        priced bls12_g1_add_gas_cost (bls12_g1_add_execute cr)
      else if evm_rev tr \<ge> MONAD_ETH_PRAGUE \<and> a = 0x0C then
        priced bls12_g1_msm_gas_cost (bls12_g1_msm_execute cr)
      else if evm_rev tr \<ge> MONAD_ETH_PRAGUE \<and> a = 0x0D then
        priced bls12_g2_add_gas_cost (bls12_g2_add_execute cr)
      else if evm_rev tr \<ge> MONAD_ETH_PRAGUE \<and> a = 0x0E then
        priced bls12_g2_msm_gas_cost (bls12_g2_msm_execute cr)
      else if evm_rev tr \<ge> MONAD_ETH_PRAGUE \<and> a = 0x0F then
        priced bls12_pairing_check_gas_cost (bls12_pairing_check_execute cr)
      else if evm_rev tr \<ge> MONAD_ETH_PRAGUE \<and> a = 0x10 then
        priced bls12_map_fp_to_g1_gas_cost (bls12_map_fp_to_g1_execute cr)
      else if evm_rev tr \<ge> MONAD_ETH_PRAGUE \<and> a = 0x11 then
        priced bls12_map_fp2_to_g2_gas_cost (bls12_map_fp2_to_g2_execute cr)
      else if eip_7951_active tr \<and> a = 0x0100 then priced p256_verify_gas_cost (p256_verify_execute cr)
      else None)"

definition is_eth_precompile :: "crypto \<Rightarrow> traits \<Rightarrow> address \<Rightarrow> bool" where
  "is_eth_precompile cr tr a \<longleftrightarrow> resolve_precompile cr tr a \<noteq> None"

section \<open>Calling a precompiled contract\<close>

text \<open>\<open>std::cmp_less\<close> compares the signed gas with the unsigned price as numbers.\<close>

definition check_call_eth_precompile :: "crypto \<Rightarrow> traits \<Rightarrow> evmc_message \<Rightarrow> evmc_result option" where
  "check_call_eth_precompile cr tr msg =
     (case resolve_precompile cr tr (msg_code_address msg) of
        None \<Rightarrow> None
      | Some contract \<Rightarrow>
          if evm_rev tr \<ge> MONAD_ETH_PRAGUE \<and> msg_flags msg AND EVMC_DELEGATED \<noteq> 0
          then Some (Result EVMC_SUCCESS (msg_gas msg))
          else
            case gas_cost_func contract (msg_input msg) of
              None \<Rightarrow> Some (Result EVMC_PRECOMPILE_FAILURE 0)
            | Some cost \<Rightarrow>
                if msg_gas msg < uint cost then Some (Result EVMC_OUT_OF_GAS 0)
                else
                  case execute_func contract (msg_input msg) of
                    PrecompileFailure \<Rightarrow> Some (Result EVMC_PRECOMPILE_FAILURE 0)
                  | PrecompileSuccess out \<Rightarrow>
                      Some ((Result EVMC_SUCCESS (msg_gas msg - sint cost))\<lparr>res_output := out\<rparr>))"

section \<open>Modular exponentiation\<close>

lemma pad_slice:
  assumes "i + n \<le> N"
  shows "slice_bytes i n (pad_input N xs) = take n (drop i xs @ replicate n 0)"
proof (rule nth_equalityI)
  show "length (slice_bytes i n (pad_input N xs)) = length (take n (drop i xs @ replicate n 0))"
    using assms by (auto simp: slice_bytes_def pad_input_def min_def)
  fix k assume "k < length (slice_bytes i n (pad_input N xs))"
  then have k: "k < n" by (simp add: slice_bytes_def)
  then show "slice_bytes i n (pad_input N xs) ! k = take n (drop i xs @ replicate n 0) ! k"
    using assms by (auto simp: slice_bytes_def pad_input_def nth_append min_def)
qed

lemma be_value_slice:
  "i + n \<le> N \<Longrightarrow> be_value (slice_bytes i n (pad_input N (drop j input))) = padded_number input (j + i) n"
  by (simp add: pad_slice padded_number_def add.commute)

lemma be_value_append: "be_value (xs @ ys) = be_value xs * 256 ^ length ys + be_value ys"
  by (induction ys rule: rev_induct) (simp_all flip: append_assoc add: algebra_simps)

lemma padded_number_split:
  "padded_number input i (m + n) = padded_number input i m * 256 ^ n + padded_number input (i + m) n"
proof -
  have "take (m + n) (drop i input @ replicate (m + n) 0) =
      take m (drop i input @ replicate m 0) @ take n (drop (i + m) input @ replicate n 0)"
    using pad_slice[of 0 "m + n" "m + n" "drop i input"] pad_slice[of 0 m "m + n" "drop i input"]
      pad_slice[of m n "m + n" "drop i input"]
    by (simp add: slice_bytes_def take_add add.commute)
  moreover have "length (take n (xs @ replicate n 0)) = n" for xs :: bytes by simp
  ultimately show ?thesis by (simp only: padded_number_def be_value_append)
qed

lemma header_length:
  assumes "i + 32 \<le> 96" "padded_number input i 32 < 2 ^ 64"
  shows "unat (of_nat (be_value (slice_bytes (i + 24) 8 (pad_input 96 input))) :: u64) = padded_number input i 32"
proof -
  have "padded_number input i (24 + 8) = padded_number input i 24 * 256 ^ 8 + padded_number input (i + 24) 8"
    by (rule padded_number_split)
  then have "padded_number input (i + 24) 8 = padded_number input i 32"
    using assms(2) by simp
  moreover have "be_value (slice_bytes (i + 24) 8 (pad_input 96 input)) = padded_number input (i + 24) 8"
    using be_value_slice[of "i + 24" 8 96 0 input] assms(1) by simp
  ultimately show ?thesis using assms(2) by (simp add: unat_of_nat)
qed

lemma saturating_add64_exact: "unat a + unat b < 2 ^ 64 \<Longrightarrow> unat (saturating_add64 a b) = unat a + unat b"
  by (subst saturating_add64_def) (auto simp: Let_def unat_word_ariths word_less_nat_alt)

text \<open>What a paid exponentiation says about the lengths.\<close>

lemma gas_spec_lengths:
  assumes "gas_spec tr input bits < 2 ^ 63" "padded_number input 64 32 \<noteq> 0"
  shows "padded_number input 0 32 + padded_number input 32 32 + padded_number input 64 32 < 2 ^ 64"
proof -
  let ?bl = "padded_number input 0 32" and ?el = "padded_number input 32 32" and ?ml = "padded_number input 64 32"
  let ?c = "complexity_spec tr (max ?ml ?bl)" and ?i = "iterations_spec tr ?el bits"
  have ci: "?c * ?i < 2 ^ 65"
  proof -
    have "?c * ?i div 3 \<le> gas_spec tr input bits"
      unfolding gas_spec_def by (rule div_le_mono2) simp_all
    then show ?thesis using assms(1) by simp
  qed
  have c0: "0 < ?c" by (rule complexity_pos) (use assms(2) in \<open>simp add: less_max_iff_disj\<close>)
  have i0: "0 < ?i" by (rule iterations_pos)
  have "?c * 1 \<le> ?c * ?i" "1 * ?i \<le> ?c * ?i" using c0 i0 by (intro mult_le_mono; simp)+
  then have c: "?c < 2 ^ 65" and i: "?i < 2 ^ 65" using ci by linarith+
  have m: "max ?ml ?bl < 2 ^ 40"
  proof (rule ccontr)
    assume "\<not> ?thesis"
    then have "2 ^ 40 \<le> max ?ml ?bl" by (rule leI)
    then have "2 ^ 37 \<le> (max ?ml ?bl + 7) div 8" using div_le_mono[of "2 ^ 40" _ 8] by simp
    then have "(2 ^ 37) ^ 2 \<le> ((max ?ml ?bl + 7) div 8) ^ 2" by (rule power_mono) simp
    then have "2 ^ 74 \<le> ?c" using \<open>2 ^ 40 \<le> max ?ml ?bl\<close> by (simp add: complexity_spec_def)
    with c show False by simp
  qed
  have "8 * (?el - 32) \<le> ?i"
  proof -
    have "8 * (?el - 32) \<le> (if eip_7883_active tr then 16 else 8) * (?el - 32)" by (intro mult_le_mono1) simp
    also have "\<dots> \<le> ?i" unfolding iterations_spec_def by (rule max.coboundedI2) simp
    finally show ?thesis .
  qed
  then have "8 * (?el - 32) < 2 ^ 65" using i by (rule le_less_trans)
  then have "?el < 2 ^ 63" by simp
  with m show ?thesis by simp
qed

lemma expmod_gas_spec_ge:
  "expmod_gas_spec tr input = Some g \<Longrightarrow> gas_spec tr input (bit_length (padded_number input
     (96 + padded_number input 0 32) (min 32 (padded_number input 32 32)))) \<le> g"
  unfolding expmod_gas_spec_def gas_spec_def Let_def by (simp split: if_splits) 

lemma saturated_less: "unat (saturated g) < 2 ^ 63 \<Longrightarrow> g < 2 ^ 63"
  using unat_of_nat[where 'a = 64, of "min g (2 ^ 64 - 1)"] by (simp add: saturated_def min_def split: if_splits)

lemma be_value_expmod:
  assumes "\<And>b e m. 0 < m \<Longrightarrow> cr_powm cr b e m = b ^ e mod m"
  shows "\<exists>out. expmod_impl cr base exp modulus = Some out \<and> length out = length modulus \<and>
    be_value out = (if be_value modulus = 0 then 0 else be_value base ^ be_value exp mod be_value modulus)"
proof (cases "be_value modulus = 0")
  case True
  then show ?thesis by (simp add: expmod_impl_def be_value_zeros)
next
  case False
  let ?r = "be_value base ^ be_value exp mod be_value modulus"
  have "?r < be_value modulus" using False by simp
  also have "\<dots> < 256 ^ length modulus" by (rule be_value_bound)
  finally have "be_value (be_bytes (length modulus) ?r) = ?r" by (rule be_value_be_bytes)
  then show ?thesis using False assms by (simp add: expmod_impl_def)
qed

text \<open>
  C30: a modular exponentiation whose price fits a signed 64-bit gas counter computes the power. The
  three numbers are read from the input continued with zeros, at the lengths the header gives: no length
  is cut, the sizes do not saturate and the spans lie inside the padded buffer. The output has the length
  of the modulus and is zero for a zero modulus. The modular power of the linked library is a hypothesis.
\<close>

theorem expmod_execute_correct:
  fixes input :: bytes
  defines "bl \<equiv> padded_number input 0 32" and "el \<equiv> padded_number input 32 32"
    and "ml \<equiv> padded_number input 64 32"
  assumes "supported_traits tr" and "\<And>b e m. 0 < m \<Longrightarrow> cr_powm cr b e m = b ^ e mod m"
    and "expmod_gas_cost tr input = Some cost" "unat cost < 2 ^ 63"
  shows "\<exists>out. expmod_execute cr input = PrecompileSuccess out \<and> length out = ml \<and>
    be_value out = (let modulus = padded_number input (96 + bl + el) ml in
      if modulus = 0 then 0 else padded_number input 96 bl ^ padded_number input (96 + bl) el mod modulus)"
proof -
  obtain g where g: "expmod_gas_spec tr input = Some g" "cost = saturated g"
    using assms(6) expmod_gas_cost_eq[OF assms(4), of input] by auto
  have "g < 2 ^ 63" using assms(7) unfolding g(2) by (rule saturated_less)
  show ?thesis
  proof (cases "ml = 0")
    case True
    then have "unat (of_nat (be_value (slice_bytes 88 8 (pad_input 96 input))) :: u64) = 0"
      using header_length[of 64 input] by (simp add: ml_def)
    then have "(of_nat (be_value (slice_bytes 88 8 (pad_input 96 input))) :: u64) = 0" by (simp only: unsigned_eq_0_iff)
    then show ?thesis using True by (simp add: expmod_execute_def padded_number_def)
  next
    case False
    have sum: "bl + el + ml < 2 ^ 64"
      unfolding bl_def el_def ml_def
    proof (rule gas_spec_lengths)
      show "gas_spec tr input (bit_length (padded_number input (96 + padded_number input 0 32)
          (min 32 (padded_number input 32 32)))) < 2 ^ 63"
        using \<open>g < 2 ^ 63\<close> expmod_gas_spec_ge[OF g(1)] by (rule le_less_trans[rotated])
    qed (use False in \<open>simp add: ml_def\<close>)
    let ?h = "\<lambda>i. of_nat (be_value (slice_bytes (i + 24) 8 (pad_input 96 input))) :: u64"
    have h: "unat (?h 0) = bl" "unat (?h 32) = el" "unat (?h 64) = ml"
      using sum by (simp_all only: bl_def el_def ml_def) (rule header_length; simp)+
    have nz: "?h 64 \<noteq> 0" using h(3) False by (metis unsigned_0)
    have N: "unat (saturating_add64 (?h 0) (saturating_add64 (?h 32) (?h 64))) = bl + (el + ml)"
      using sum h by (subst saturating_add64_exact; subst saturating_add64_exact) simp_all
    let ?p = "pad_input (bl + (el + ml)) (drop 96 input)"
    have "expmod_execute cr input = from_impl_result (expmod_impl cr (slice_bytes 0 bl ?p)
        (slice_bytes bl el ?p) (slice_bytes (bl + el) ml ?p))"
      using nz unfolding expmod_execute_def Let_def N[simplified] h[simplified] by simp
    moreover obtain out where out: "expmod_impl cr (slice_bytes 0 bl ?p)
        (slice_bytes bl el ?p) (slice_bytes (bl + el) ml ?p) = Some out" "length out = length (slice_bytes (bl + el) ml ?p)"
      "be_value out = (if be_value (slice_bytes (bl + el) ml ?p) = 0 then 0 else
         be_value (slice_bytes 0 bl ?p) ^ be_value (slice_bytes bl el ?p) mod be_value (slice_bytes (bl + el) ml ?p))"
      using be_value_expmod[OF assms(5)] by blast
    moreover have "be_value (slice_bytes 0 bl ?p) = padded_number input 96 bl"
      "be_value (slice_bytes bl el ?p) = padded_number input (96 + bl) el"
      "be_value (slice_bytes (bl + el) ml ?p) = padded_number input (96 + bl + el) ml"
      by (simp_all add: be_value_slice add.assoc)
    moreover have "length (slice_bytes (bl + el) ml ?p) = ml" by (simp add: pad_slice)
    ultimately show ?thesis by (simp add: from_impl_result_def Let_def)
  qed
qed

text \<open>A concrete library, with a real modular power and fixed answers elsewhere.\<close>

definition mock_crypto :: crypto where
  "mock_crypto = \<lparr>cr_recover_address = (\<lambda>_ _ _. None), cr_sha256 = (\<lambda>_. replicate 32 0),
     cr_rmd160 = (\<lambda>_. replicate 20 0), cr_powm = (\<lambda>b e m. b ^ e mod m), cr_bn_add = (\<lambda>_. None),
     cr_bn_mul = (\<lambda>_. None), cr_snarkv = (\<lambda>_. None),
     cr_blake2b_compress = (\<lambda>_ _ _ _ _. replicate 64 0), cr_verify_kzg_proof = (\<lambda>_ _ _ _. False),
     cr_g1 = \<lparr>bg_on_curve = (\<lambda>_. False), bg_in_group = (\<lambda>_. False), bg_is_inf = (\<lambda>_. False),
       bg_add = (\<lambda>p _. p), bg_mul = (\<lambda>p _. p), bg_msm = (\<lambda>_. (0, 0)), bg_map_to_group = (\<lambda>_. (0, 0))\<rparr>,
     cr_g2 = \<lparr>bg_on_curve = (\<lambda>_. False), bg_in_group = (\<lambda>_. False), bg_is_inf = (\<lambda>_. False),
       bg_add = (\<lambda>p _. p), bg_mul = (\<lambda>p _. p), bg_msm = (\<lambda>_. ((0, 0), (0, 0))),
       bg_map_to_group = (\<lambda>_. ((0, 0), (0, 0)))\<rparr>,
     cr_fp12_one = [], cr_miller_loop = (\<lambda>_ _. []), cr_fp12_mul = (\<lambda>x _. x), cr_final_exp = (\<lambda>x. x),
     cr_fp12_is_one = (\<lambda>x. x = []), cr_p256_order = 7, cr_p256_field = 11,
     cr_p256_verify_point = (\<lambda>_. False), cr_p256_inverse = (\<lambda>x. x),
     cr_p256_combine = (\<lambda>_ _ _. None)\<rparr>"

definition three_to_five_mod_seven :: bytes where
  "three_to_five_mod_seven = replicate 31 0 @ [1] @ replicate 31 0 @ [1] @ replicate 31 0 @ [1, 3, 5, 7]"

theorem expmod_execute_correct_witness:
  "\<exists>out. expmod_execute mock_crypto three_to_five_mod_seven = PrecompileSuccess out \<and>
    length out = 1 \<and> be_value out = 5"
proof -
  let ?tr = "EvmTraits MONAD_ETH_OSAKA" and ?in = three_to_five_mod_seven
  have s: "supported_traits ?tr" by (rule supported_traits_Evm) simp
  have n: "padded_number ?in 0 32 = 1" "padded_number ?in 32 32 = 1" "padded_number ?in 64 32 = 1"
    by (simp_all add: padded_number_def three_to_five_mod_seven_def be_value_zeros)
  have m: "padded_number ?in 96 1 = 3" "padded_number ?in 97 1 = 5" "padded_number ?in 98 1 = 7"
    by (simp_all add: padded_number_def three_to_five_mod_seven_def be_value_def)
  have "bit_length 5 = 3" by (simp add: bit_length.simps)
  then have "expmod_gas_cost ?tr ?in = Some 500"
    unfolding expmod_gas_cost_eq[OF s] expmod_gas_spec_def Let_def n
    by (simp add: m[simplified] complexity_spec_def iterations_spec_def EvmTraits_def saturated_def)
  moreover have "cr_powm mock_crypto b e m = b ^ e mod m" for b e m by (simp add: mock_crypto_def)
  moreover have "unat (500 :: u64) < 2 ^ 63" by simp
  ultimately show ?thesis
    using expmod_execute_correct[OF s, of mock_crypto ?in 500] unfolding n by (simp add: m m[simplified] Let_def)
qed

section \<open>Output sizes\<close>




lemma length_write_group [simp]: "length (grp_write (G1 cr) p) = 128" "length (grp_write (G2 cr) q) = 256"
  by (simp_all add: G1_def G2_def write_g1_def write_g2_def write_fp2_def write_fp_def)

lemma encoded_size_group [simp]: "encoded_size (G1 cr) = 128" "encoded_size (G2 cr) = 256"
  by (simp_all add: G1_def G2_def)






text \<open>The gas of a precompiled contract, as the caller of a message expects it.\<close>

lemma precompile_call_gas:
  assumes "check_call_eth_precompile cr tr msg = Some r" "0 \<le> msg_gas msg" "msg_gas msg < 2 ^ 63"
  shows "0 \<le> res_gas_left r \<and> res_gas_left r \<le> msg_gas msg \<and> res_gas_refund r = 0 \<and>
    (res_status r \<noteq> EVMC_SUCCESS \<longrightarrow> res_gas_left r = 0 \<and> res_output r = [])"
proof -
  have "sint cost = uint cost" if "uint cost \<le> msg_gas msg" for cost :: u64
  proof -
    have "- (2 ^ 63) \<le> (0 :: int)" by simp
    also have "0 \<le> uint cost" by simp
    finally have "- (2 ^ 63) \<le> uint cost" .
    with that assms(3) show ?thesis unfolding sint_uint by (simp add: signed_take_bit_int_eq_self)
  qed
  then show ?thesis
    using assms(1,2) by (auto simp: check_call_eth_precompile_def Result_def split: option.splits if_splits precompile_result.splits)
qed

end
