(* ===== verification/Spec2Isabelle.thy ===== *)
theory Spec2Isabelle
  imports Optimistic Validate_Tx Rlp_Block Rlp_Buffer Block_Hash Uint256_Arith Precompile_Impl
begin

text \<open>
  A verification library for the execution layer of the Monad client.

  \<^bold>\<open>The program.\<close> The client executes the transactions of a block in parallel. A transaction runs on a
  \<open>State\<close> (\<open>state3/\<close>), a cache with nested call frames over the \<open>BlockState\<close> (\<open>state2/\<close>) that the
  transactions of the block share, which itself caches the database. Each run records the accounts and
  slots it has read; once all earlier transactions are merged, \<open>can_merge\<close> compares that record with the
  block state and either the transaction is merged or it runs again. Before a run the transaction is
  validated, it is charged by the gas rules, and it calls precompiled contracts beside bytecode. Blocks,
  transactions and receipts travel in RLP; hashes of recent blocks are kept in a buffer per proposal; all
  amounts are 256-bit integers built from 64-bit words.

  \<^bold>\<open>The theories.\<close> Paths are relative to \<open>src/category/\<close>; a definition has the name of the function or
  type it models.

  \<^item> \<open>Monad_Prelude\<close>: machine integers, failures as values (a failed assertion, a thrown exception), the
    state monad, association lists for the hash maps the code iterates over.
  \<^item> \<open>Traits\<close>: protocol revisions and the compile-time traits, as a record built per revision
    (\<open>vm/evm/\<close>). \<open>Core_Types\<close>: accounts, transactions, headers, receipts, error codes and checked
    arithmetic (\<open>execution/ethereum/core/\<close>, \<open>core/checked_math.cpp\<close>).
  \<^item> \<open>Version_Stack\<close>, \<open>Account_State\<close>, \<open>Block_State\<close>, \<open>Tx_State\<close>, \<open>State_Ops\<close>, \<open>Reserve_Balance\<close>,
    \<open>Merge\<close>: the transaction state with every operation of \<open>State\<close>, the reserve-balance rule and its
    incremental tracker, and the merge into the block (\<open>execution/ethereum/state2/\<close>, \<open>state3/\<close>,
    \<open>execution/monad/reserve_balance.cpp\<close>).
  \<^item> \<open>State_Relations\<close>, \<open>State_Frames\<close>, \<open>Account_View\<close>: the proof library on these operations. A locale
    states which relations between two states all operations keep; its interpretations are the frame
    invariant, the reads, and the accounts and codes a transaction sees.
  \<^item> \<open>Client\<close>: programs over the operations of \<open>State\<close>, arbitrary trees of calls that stand for
    whatever a virtual machine does, and the frame discipline of such programs. \<open>Optimistic\<close>: the
    speculative run of a program while other transactions are merged.
  \<^item> \<open>Tx_Gas\<close>, \<open>Validate_Tx\<close>: gas and fee arithmetic, static validation and validation against the
    state for Ethereum, Monad and system transactions (\<open>transaction_gas.cpp\<close>, \<open>validate_transaction.cpp\<close>,
    \<open>execution/monad/validate_*.cpp\<close>).
  \<^item> \<open>Rlp_Core\<close>, \<open>Rlp_Types\<close>, \<open>Rlp_Tx\<close>, \<open>Rlp_Block\<close>, \<open>Rlp_Buffer\<close>: the RLP parsers and both encoders,
    and the codecs of all data types (\<open>execution/ethereum/rlp/\<close>, \<open>core/rlp/\<close>).
  \<^item> \<open>Block_Hash\<close>: the block hash buffers and the chain of proposals (\<open>block_hash_buffer.cpp\<close>).
  \<^item> \<open>Uint256\<close>, \<open>Uint256_Mul\<close>, \<open>Uint256_Div\<close>, \<open>Uint256_Arith\<close>: the 256-bit integers by words
    (\<open>core/runtime/uint256.hpp\<close> and \<open>uint256/\<close>).
  \<^item> \<open>Precompiles\<close>, \<open>Precompile_Impl\<close>: the precompiled contracts, their prices, checks, encodings and the
    table (\<open>precompiles*.cpp\<close>, \<open>monad_precompiles_gas_cost_impl.cpp\<close>).

  \<^bold>\<open>What is shown.\<close>

  \<^item> C1: a speculative run that \<open>can_merge\<close> accepts is the serial run, for every client program and every
    interleaving of merges in between. C2: a rejected call frame leaves no trace. C3 and C4: a merge
    publishes exactly the final accounts and written slots.
  \<^item> C5 to C7: a statically valid transaction is charged without wrap-around, an accepted one has the
    sender's nonce and enough balance, and the case in which an overflowing cost skips the nonce check.
  \<^item> C8 to C21: the decoders invert the encoders of strings, integers, accounts, withdrawals, receipts,
    transactions, headers and blocks; transaction decoding never aborts; the two encoders agree; and
    the inputs on which the codec misbehaves.
  \<^item> C22 to C24: finalizing a block keeps what every surviving proposal reads and succeeds for a child of
    the finalized chain; a proposal extends its parent.
  \<^item> C25 to C28: multiplication, Knuth division, modular, signed and power operations compute the exact
    results, with no division fault and no failed debug assertion.
  \<^item> C29 to C31: the price of modular exponentiation is exact although it is computed in words, a paid
    exponentiation computes the power, and every precompiled contract returns an output of its size.

  \<^bold>\<open>Bounds and fuel.\<close> A loop of a list decoder runs with the length of its payload as fuel, which is enough
  because every item takes at least a byte (\<open>decode_items_unfold\<close>). The Taylor loop of the blob fee is a
  partial function, so that not returning is a value. Everything else is structurally recursive or has a
  termination proof. Sizes of buffers and lists are natural numbers; where the code narrows or wraps them
  the width is written out.

  \<^bold>\<open>Parameters.\<close> The database is a record of its read functions, keccak-256 a function, the cryptographic
  libraries a record of primitives. Theorems that rely on them name what they rely on.

  \<^bold>\<open>Not modelled.\<close> The on-disk trie, asynchronous I/O, fibers and memory management (effects outside the
  state); the interpreter and the compiler of the virtual machine (programs of \<open>Client\<close> stand for what
  they do to the state); the drivers of transactions and blocks; the staking contract; tracing and
  events (observers); command line tools, networking and vendored code.
\<close>

end
